(* ===== verification/Prelude.thy ===== *)
theory Prelude
  imports Main "HOL-Library.Word" "HOL-Library.Monad_Syntax"
begin

text \<open>
  Shared vocabulary of the development: the machine types of the Rust sources, panics as the
  value \<^term>\<open>None\<close> of an option, the checked arithmetic of a build with overflow checks (the
  \<open>dev\<close> profile that \<open>builder\<close> uses unless it is given \<open>--release\<close>), bit masks on addresses, and
  the routines of the standard library that several components call (\<open>Iterator::position\<close>,
  \<open>slice::binary_search_by\<close>, \<open>ilog2\<close>).
\<close>

unbundle bit_operations_syntax

named_theorems rust_arith \<open>equations of the checked arithmetic and of assertions\<close>
named_theorems mask_simps \<open>masks and shifts as div and mod\<close>

subsection \<open>Machine types\<close>

text \<open>
  Values that the code uses bit by bit (flags, registers, packed headers) are words.  Addresses,
  sizes, counters and identifiers of type \<open>usize\<close> and \<open>u64\<close> are natural numbers, and every
  operation on them that can leave the range of 64 bits is one of the checked operations below.
\<close>

type_synonym u8 = "8 word"
type_synonym u16 = "16 word"
type_synonym u32 = "32 word"
type_synonym u64 = "64 word"
type_synonym usize = nat

abbreviation usize_bound :: nat where
  "usize_bound \<equiv> 2 ^ 64"

subsection \<open>Panics and checked arithmetic\<close>

text \<open>A computation that can panic has an option type: \<^term>\<open>None\<close> is the panic.\<close>

definition rassert :: "bool \<Rightarrow> unit option" where
  "rassert b = (if b then Some () else None)"

definition add_usize :: "usize \<Rightarrow> usize \<Rightarrow> usize option" where
  "add_usize a b = (if a + b < usize_bound then Some (a + b) else None)"

definition sub_usize :: "usize \<Rightarrow> usize \<Rightarrow> usize option" where
  "sub_usize a b = (if b \<le> a then Some (a - b) else None)"

definition mul_usize :: "usize \<Rightarrow> usize \<Rightarrow> usize option" where
  "mul_usize a b = (if a * b < usize_bound then Some (a * b) else None)"

definition div_usize :: "usize \<Rightarrow> usize \<Rightarrow> usize option" where
  "div_usize a b = (if b = 0 then None else Some (a div b))"

lemma rassert_Some [simp]: "rassert b = Some u \<longleftrightarrow> b"
  by (simp add: rassert_def)

lemma rassert_None [simp]: "rassert b = None \<longleftrightarrow> \<not> b"
  by (simp add: rassert_def)

lemma rassert_True [simp]: "rassert True = Some ()"
  by (simp add: rassert_def)

lemma rassert_False [simp]: "rassert False = None"
  by (simp add: rassert_def)

lemma add_usize_Some [rust_arith]:
  "add_usize a b = Some c \<longleftrightarrow> c = a + b \<and> a + b < usize_bound"
  by (auto simp: add_usize_def)

lemma sub_usize_Some [rust_arith]: "sub_usize a b = Some c \<longleftrightarrow> c = a - b \<and> b \<le> a"
  by (auto simp: sub_usize_def)

lemma mul_usize_Some [rust_arith]:
  "mul_usize a b = Some c \<longleftrightarrow> c = a * b \<and> a * b < usize_bound"
  by (auto simp: mul_usize_def)

lemma div_usize_Some [rust_arith]: "div_usize a b = Some c \<longleftrightarrow> c = a div b \<and> b \<noteq> 0"
  by (auto simp: div_usize_def)

subsection \<open>Masks and shifts on addresses\<close>

text \<open>
  \<open>x & (2^n - 1)\<close> is \<open>low_bits n x\<close>, \<open>x & !(2^n - 1)\<close> is \<open>clear_low n x\<close> and \<open>x >> n\<close> is
  \<open>shr n x\<close>.  The three lemmas that follow say that these are the bit operations of words.
\<close>

definition low_bits :: "nat \<Rightarrow> nat \<Rightarrow> nat" where
  "low_bits n x = x mod 2 ^ n"

definition clear_low :: "nat \<Rightarrow> nat \<Rightarrow> nat" where
  "clear_low n x = x - x mod 2 ^ n"

definition shr :: "nat \<Rightarrow> nat \<Rightarrow> nat" where
  "shr n x = x div 2 ^ n"

lemma unat_and_low_mask: "unat (w AND mask n) = low_bits n (unat w)"
  unfolding low_bits_def take_bit_eq_mod [symmetric]
  by (simp only: unsigned_take_bit_eq flip: take_bit_eq_mask)

lemma unat_drop_bit_shr: "unat (drop_bit n w) = shr n (unat w)"
  by (metis drop_bit_eq_div shr_def unat_drop_bit_eq)

lemma unat_and_clear_mask: "unat (w AND NOT (mask n)) = clear_low n (unat w)"
proof -
  have "(w AND mask n) AND (w AND NOT (mask n)) = 0"
    by (rule bit_word_eqI) (simp add: bit_simps)
  moreover have "(w AND mask n) OR (w AND NOT (mask n)) = w"
    by (rule bit_word_eqI) (auto simp: bit_simps)
  ultimately have "w = (w AND mask n) + (w AND NOT (mask n))"
    using word_plus_and_or [of "w AND mask n" "w AND NOT (mask n)"] by simp
  then have eq: "w - (w AND mask n) = w AND NOT (mask n)"
    by (metis add_diff_cancel_left')
  have le: "w AND mask n \<le> w" by (simp add: word_and_le2)
  have "unat (w - (w AND mask n)) = unat w - unat (w AND mask n)"
    using le by (rule unat_sub)
  then show ?thesis
    using eq by (simp add: unat_and_low_mask clear_low_def low_bits_def)
qed

lemma clear_low_le [simp]: "clear_low n x \<le> x"
  by (simp add: clear_low_def)

lemma clear_low_dvd [simp]: "2 ^ n dvd clear_low n x"
  by (simp add: clear_low_def dvd_minus_mod)

lemma clear_low_mult: "clear_low n x = 2 ^ n * (x div 2 ^ n)"
  by (simp add: clear_low_def minus_mod_eq_mult_div)

lemma low_bits_less [simp]: "low_bits n x < 2 ^ n"
  by (simp add: low_bits_def)

lemma clear_low_plus_low_bits: "clear_low n x + low_bits n x = x"
  by (simp add: clear_low_def low_bits_def)

lemma low_bits_0_iff: "low_bits n x = 0 \<longleftrightarrow> 2 ^ n dvd x"
  by (simp add: low_bits_def dvd_eq_mod_eq_0)

lemma clear_low_id: "2 ^ n dvd x \<Longrightarrow> clear_low n x = x"
  by (simp add: clear_low_def)

lemma less_clear_low_Suc: "x < clear_low n x + 2 ^ n"
proof -
  have "x = clear_low n x + low_bits n x"
    by (simp add: clear_low_plus_low_bits)
  then show ?thesis
    by (metis low_bits_less nat_add_left_cancel_less)
qed

subsection \<open>Iterators and searches of the standard library\<close>

text \<open>\<open>Iterator::position\<close>: the index of the first element that satisfies the test.\<close>

fun position :: "('a \<Rightarrow> bool) \<Rightarrow> 'a list \<Rightarrow> nat option" where
  "position P [] = None"
| "position P (x # xs) = (if P x then Some 0 else map_option Suc (position P xs))"

lemma position_Some:
  "position P xs = Some i \<Longrightarrow> i < length xs \<and> P (xs ! i) \<and> (\<forall>j < i. \<not> P (xs ! j))"
proof (induction xs arbitrary: i)
  case (Cons x xs)
  show ?case
  proof (cases "P x")
    case False
    with Cons.prems obtain k where "position P xs = Some k" "i = Suc k" by auto
    with Cons.IH [of k] False show ?thesis by (auto simp: less_Suc_eq_0_disj)
  qed (use Cons.prems in auto)
qed simp

lemma position_None: "position P xs = None \<longleftrightarrow> (\<forall>x \<in> set xs. \<not> P x)"
  by (induction xs) auto

text \<open>\<open>(a..b).step_by(s)\<close>, for a positive step.\<close>

definition step_by :: "nat \<Rightarrow> nat \<Rightarrow> nat \<Rightarrow> nat list" where
  "step_by s a b = map (\<lambda>i. a + i * s) [0 ..< (b - a + s - 1) div s]"

lemma step_count_iff:
  fixes i n s :: nat
  assumes "0 < s"
  shows "i < (n + s - 1) div s \<longleftrightarrow> i * s < n"
proof -
  have "i < (n + s - 1) div s \<longleftrightarrow> Suc i \<le> (n + s - 1) div s" by auto
  also have "\<dots> \<longleftrightarrow> Suc i * s \<le> n + s - 1"
    using assms by (simp add: less_eq_div_iff_mult_less_eq)
  also have "\<dots> \<longleftrightarrow> i * s < n" using assms by auto
  finally show ?thesis .
qed

lemma set_step_by:
  assumes "0 < s"
  shows "set (step_by s a b) = {x. a \<le> x \<and> x < b \<and> s dvd (x - a)}"
proof -
  have "x \<in> set (step_by s a b) \<longleftrightarrow> (\<exists>i. i * s < b - a \<and> x = a + i * s)" for x
    by (simp add: step_by_def image_iff Bex_def step_count_iff [OF assms] del: One_nat_def)
  moreover have "(\<exists>i. i * s < b - a \<and> x = a + i * s) \<longleftrightarrow> a \<le> x \<and> x < b \<and> s dvd (x - a)" for x
  proof
    assume "a \<le> x \<and> x < b \<and> s dvd (x - a)"
    then obtain k where "x - a = s * k" "a \<le> x" "x < b" by (auto elim: dvdE)
    then have "k * s < b - a \<and> x = a + k * s" by (auto simp: mult.commute)
    then show "\<exists>i. i * s < b - a \<and> x = a + i * s" by blast
  qed auto
  ultimately show ?thesis by blast
qed

lemma distinct_step_by: "0 < s \<Longrightarrow> distinct (step_by s a b)"
  by (auto simp: step_by_def distinct_map inj_on_def)

lemma length_step_by [simp]: "length (step_by s a b) = (b - a + s - 1) div s"
  by (simp add: step_by_def)

lemma nth_step_by: "i < length (step_by s a b) \<Longrightarrow> step_by s a b ! i = a + i * s"
  by (simp add: step_by_def)

text \<open>\<open>ilog2\<close>: the base-two logarithm rounded down, which panics on zero.\<close>

fun floor_log2 :: "nat \<Rightarrow> nat" where
  "floor_log2 n = (if n < 2 then 0 else Suc (floor_log2 (n div 2)))"

declare floor_log2.simps [simp del]

definition ilog2 :: "usize \<Rightarrow> usize option" where
  "ilog2 n = (if n = 0 then None else Some (floor_log2 n))"

lemma floor_log2_bounds: "0 < n \<Longrightarrow> 2 ^ floor_log2 n \<le> n \<and> n < 2 ^ Suc (floor_log2 n)"
proof (induction n rule: floor_log2.induct)
  case (1 n)
  show ?case
  proof (cases "n < 2")
    case True
    with "1.prems" show ?thesis by (simp add: floor_log2.simps [of n])
  next
    case False
    then have "0 < n div 2" by simp
    with "1.IH" False have "2 ^ floor_log2 (n div 2) \<le> n div 2 \<and>
      n div 2 < 2 ^ Suc (floor_log2 (n div 2))" by simp
    with False show ?thesis by (auto simp: floor_log2.simps [of n])
  qed
qed

lemmas floor_log2_le = floor_log2_bounds [THEN conjunct1]
lemmas less_floor_log2 = floor_log2_bounds [THEN conjunct2]

text \<open>
  \<open>slice::binary_search_by\<close>: the comparison says how an element relates to the target;
  \<open>Inr i\<close> is \<open>Ok(i)\<close>, \<open>Inl i\<close> is \<open>Err(i)\<close>, the place where the target would be inserted.
\<close>

datatype ordering = Less | Equal | Greater

fun binary_search_loop :: "(nat \<Rightarrow> ordering) \<Rightarrow> nat \<Rightarrow> nat \<Rightarrow> nat" where
  "binary_search_loop f base sz =
     (if sz \<le> 1 then base
      else binary_search_loop f (if f (base + sz div 2) = Greater then base else base + sz div 2)
             (sz - sz div 2))"

declare binary_search_loop.simps [simp del]

definition binary_search_by :: "('a \<Rightarrow> ordering) \<Rightarrow> 'a list \<Rightarrow> nat + nat" where
  "binary_search_by f xs =
     (if xs = [] then Inl 0
      else let base = binary_search_loop (\<lambda>i. f (xs ! i)) 0 (length xs)
           in case f (xs ! base) of
                Equal \<Rightarrow> Inr base
              | Less \<Rightarrow> Inl (Suc base)
              | Greater \<Rightarrow> Inl base)"

definition search_sorted :: "('a \<Rightarrow> ordering) \<Rightarrow> 'a list \<Rightarrow> bool" where
  "search_sorted f xs \<longleftrightarrow>
     (\<forall>j < length xs. \<forall>i < j. (f (xs ! i) = Greater \<longrightarrow> f (xs ! j) = Greater) \<and>
                              (f (xs ! j) = Less \<longrightarrow> f (xs ! i) = Less))"

lemma binary_search_loop_inv:
  assumes "0 < sz"
    and "\<And>i j. i < j \<Longrightarrow> j < base + sz \<Longrightarrow> f i = Greater \<Longrightarrow> f j = Greater"
  shows "let b = binary_search_loop f base sz in
     base \<le> b \<and> b < base + sz \<and> (base < b \<longrightarrow> f b \<noteq> Greater) \<and>
     (\<forall>j. b < j \<and> j < base + sz \<longrightarrow> f j = Greater)"
  using assms
proof (induction f base sz rule: binary_search_loop.induct)
  case (1 f base sz)
  show ?case
  proof (cases "sz \<le> 1")
    case True
    with "1.prems"(1) have "sz = 1" by simp
    then show ?thesis
      by (auto simp: binary_search_loop.simps [of f base "Suc 0"] Let_def)
  next
    case False
    define mid where "mid = base + sz div 2"
    define base' where "base' = (if f mid = Greater then base else mid)"
    define b where "b = binary_search_loop f base' (sz - sz div 2)"
    have b_eq: "binary_search_loop f base sz = b"
      using False by (simp add: binary_search_loop.simps [of f base sz] b_def base'_def mid_def)
    have sz': "0 < sz - sz div 2" using False by simp
    have range': "base' + (sz - sz div 2) \<le> base + sz"
      by (auto simp: base'_def mid_def)
    have mono': "f j = Greater" if "i < j" "j < base' + (sz - sz div 2)" "f i = Greater" for i j
      by (rule "1.prems"(2) [of i j]) (use that range' in simp_all)
    have IH: "base' \<le> b \<and> b < base' + (sz - sz div 2) \<and> (base' < b \<longrightarrow> f b \<noteq> Greater) \<and>
       (\<forall>j. b < j \<and> j < base' + (sz - sz div 2) \<longrightarrow> f j = Greater)"
      using "1.IH" [OF False sz' mono' [unfolded base'_def mid_def]]
      unfolding b_def base'_def mid_def Let_def .
    show ?thesis
    proof (cases "f mid = Greater")
      case True
      have above: "f j = Greater" if "mid \<le> j" "j < base + sz" for j
        using "1.prems"(2) [of mid j] True that by (cases "j = mid") auto
      have eqs: "base' = base" "mid \<le> base' + (sz - sz div 2)"
        using True by (auto simp: base'_def mid_def)
      have "f j = Greater" if "b < j" "j < base + sz" for j
        using above [of j] IH eqs(2) that by (cases "mid \<le> j") auto
      then show ?thesis
        using IH eqs(1) unfolding b_eq Let_def by auto
    next
      case not_greater: False
      then have eqs: "base' = mid" "mid + (sz - sz div 2) = base + sz" "base \<le> mid"
        by (auto simp: base'_def mid_def)
      have "f b \<noteq> Greater" using IH not_greater unfolding eqs(1) by (cases "mid = b") auto
      then show ?thesis
        using IH eqs(3) unfolding b_eq Let_def eqs(1,2) by (meson order_trans)
    qed
  qed
qed

lemma search_sortedD:
  assumes "search_sorted f xs" "i < j" "j < length xs"
  shows "f (xs ! i) = Greater \<Longrightarrow> f (xs ! j) = Greater" "f (xs ! j) = Less \<Longrightarrow> f (xs ! i) = Less"
  using assms unfolding search_sorted_def by blast+

lemma binary_search_base:
  assumes "search_sorted f xs" and "xs \<noteq> []" and "b = binary_search_loop (\<lambda>i. f (xs ! i)) 0 (length xs)"
  shows "b < length xs" "0 < b \<Longrightarrow> f (xs ! b) \<noteq> Greater"
    "\<And>j. b < j \<Longrightarrow> j < length xs \<Longrightarrow> f (xs ! j) = Greater"
proof -
  have "let b = binary_search_loop (\<lambda>i. f (xs ! i)) 0 (length xs) in
     0 \<le> b \<and> b < 0 + length xs \<and> (0 < b \<longrightarrow> f (xs ! b) \<noteq> Greater) \<and>
     (\<forall>j. b < j \<and> j < 0 + length xs \<longrightarrow> f (xs ! j) = Greater)"
  proof (rule binary_search_loop_inv)
    show "0 < length xs" using assms(2) by simp
    show "f (xs ! j) = Greater" if "i < j" "j < 0 + length xs" "f (xs ! i) = Greater" for i j
      by (rule search_sortedD(1) [OF assms(1), of i]) (use that in simp_all)
  qed
  then show "b < length xs" "0 < b \<Longrightarrow> f (xs ! b) \<noteq> Greater"
    "\<And>j. b < j \<Longrightarrow> j < length xs \<Longrightarrow> f (xs ! j) = Greater"
    unfolding assms(3) [symmetric] Let_def by auto
qed

lemma binary_search_by_Ok:
  assumes "binary_search_by f xs = Inr i" and "search_sorted f xs"
  shows "i < length xs \<and> f (xs ! i) = Equal"
proof -
  from assms(1) have "xs \<noteq> []" and "f (xs ! i) = Equal"
      and "i = binary_search_loop (\<lambda>i. f (xs ! i)) 0 (length xs)"
    by (auto simp: binary_search_by_def Let_def split: if_splits ordering.splits)
  with binary_search_base(1) [OF assms(2)] show ?thesis by blast
qed

lemma binary_search_by_Err:
  assumes "binary_search_by f xs = Inl i" and sorted: "search_sorted f xs"
  shows "i \<le> length xs \<and> (\<forall>j < i. f (xs ! j) = Less) \<and>
         (\<forall>j. i \<le> j \<and> j < length xs \<longrightarrow> f (xs ! j) = Greater)"
proof (cases "xs = []")
  case True
  with assms show ?thesis by (simp add: binary_search_by_def)
next
  case False
  define b where "b = binary_search_loop (\<lambda>i. f (xs ! i)) 0 (length xs)"
  note inv = binary_search_base [OF sorted False b_def]
  from assms(1) False consider (less) "f (xs ! b) = Less" "i = Suc b"
    | (greater) "f (xs ! b) = Greater" "i = b"
    by (auto simp: binary_search_by_def b_def Let_def split: ordering.splits)
  then show ?thesis
  proof cases
    case less
    have "f (xs ! j) = Less" if "j < Suc b" for j
      using that less(1) search_sortedD(2) [OF sorted _ inv(1), of j] by (cases "j = b") auto
    moreover have "f (xs ! j) = Greater" if "Suc b \<le> j" "j < length xs" for j
      using inv(3) [of j] that by simp
    ultimately show ?thesis using less(2) inv(1) by simp
  next
    case greater
    with inv(2) have "b = 0" by blast
    moreover have "f (xs ! j) = Greater" if "j < length xs" for j
      using inv(3) [of j] greater(1) that \<open>b = 0\<close> by (cases "j = 0") auto
    ultimately show ?thesis using greater(2) by simp
  qed
qed

lemma binary_search_by_total:
  assumes "search_sorted f xs" and "i < length xs" and "f (xs ! i) = Equal"
  obtains j where "binary_search_by f xs = Inr j" "j < length xs" "f (xs ! j) = Equal"
proof (cases "binary_search_by f xs")
  case (Inl k)
  from binary_search_by_Err [OF this assms(1)] assms(2,3) show ?thesis
    by (metis linorder_not_le ordering.distinct(1,5))
next
  case (Inr j)
  with binary_search_by_Ok [OF this assms(1)] show ?thesis by (blast intro: that)
qed

end
