(* ===== verification/Signals.thy ===== *)
theory Signals
  imports Prelude
begin

text \<open>
  Signals of kernel objects: \<open>kernel/src/object.rs\<close> (\<open>KObjectSignal\<close>) with the data types of
  \<open>kernel_userspace/src/object.rs\<close> and \<open>kernel_userspace/src/port.rs\<close>, and the two ways in which
  the system call \<open>OBJECT\<close> registers a waiter.

  An \<open>Arc\<close> is a number that names the object in the store of the kernel.  What an operation does
  to other objects (waking a thread, notifying a port) is returned as a list of events, in the
  order of the calls; the kernel state of theory \<open>Kernel\<close> carries them out.
\<close>

subsection \<open>Signal sets\<close>

type_synonym ObjectSignal = u64
type_synonym tref = nat
type_synonym portref = nat

definition READABLE :: ObjectSignal where
  "READABLE = push_bit 1 1"

definition CHANNEL_CLOSED :: ObjectSignal where
  "CHANNEL_CLOSED = push_bit 20 1"

definition PROCESS_EXITED :: ObjectSignal where
  "PROCESS_EXITED = push_bit 20 1"

text \<open>The operations that the \<open>bitflags\<close> macro derives; the complement keeps named flags only.\<close>

definition signal_all :: ObjectSignal where
  "signal_all = READABLE OR CHANNEL_CLOSED OR PROCESS_EXITED"

definition from_bits_truncate :: "u64 \<Rightarrow> ObjectSignal" where
  "from_bits_truncate b = b AND signal_all"

definition signal_not :: "ObjectSignal \<Rightarrow> ObjectSignal" where
  "signal_not s = from_bits_truncate (NOT s)"

definition intersects :: "ObjectSignal \<Rightarrow> ObjectSignal \<Rightarrow> bool" where
  "intersects a b \<longleftrightarrow> a AND b \<noteq> 0"

lemmas signal_defs = READABLE_def CHANNEL_CLOSED_def PROCESS_EXITED_def signal_all_def
  from_bits_truncate_def signal_not_def intersects_def

lemma intersects_bit: "intersects a b \<longleftrightarrow> (\<exists>n. bit a n \<and> bit b n)"
proof -
  have "intersects a b \<longleftrightarrow> (\<exists>n. bit (a AND b) n)"
    unfolding intersects_def by (metis bit_0_eq bit_word_eqI bot_apply bot_bool_def)
  then show ?thesis by (simp add: bit_and_iff)
qed

lemma intersects_or: "intersects (a OR b) m \<longleftrightarrow> intersects a m \<or> intersects b m"
  by (auto simp: intersects_bit bit_or_iff)

lemma intersects_and_left: "intersects (a AND b) m \<Longrightarrow> intersects a m"
  by (auto simp: intersects_bit bit_and_iff)

subsection \<open>Notifications and waiters\<close>

datatype PortNotificationType =
    SignalOne (trigger: ObjectSignal) (signals: ObjectSignal)
  | Interrupt (timestamp: nat)
  | User "u8 list"

record PortNotification =
  notif_key :: u64
  notif_ty :: PortNotificationType

datatype SignalWaiterType = One tref | Port portref u64

record SignalWaiter =
  waiter_ty :: SignalWaiterType
  waiter_mask :: ObjectSignal

datatype kevent = Wake tref | Notify portref PortNotification

record KObjectSignal =
  signal_status :: ObjectSignal
  signal_waiters :: "SignalWaiter list"

definition signal_new :: KObjectSignal where
  "signal_new = \<lparr>signal_status = 0, signal_waiters = []\<rparr>"

definition signal_wait :: "SignalWaiter \<Rightarrow> KObjectSignal \<Rightarrow> KObjectSignal" where
  "signal_wait w s = s\<lparr>signal_waiters := signal_waiters s @ [w]\<rparr>"

text \<open>The body of the loop of \<open>set_signal\<close>: what happens to one extracted waiter.\<close>

definition fire :: "ObjectSignal \<Rightarrow> SignalWaiter \<Rightarrow> kevent" where
  "fire new w =
     (case waiter_ty w of
        One t \<Rightarrow> Wake t
      | Port p k \<Rightarrow> Notify p \<lparr>notif_key = k, notif_ty = SignalOne (waiter_mask w) new\<rparr>)"

text \<open>
  \<open>extract_if\<close> walks the vector once: the extracted elements are handled in order and the others
  keep their order.
\<close>

fun extract_if :: "('a \<Rightarrow> bool) \<Rightarrow> 'a list \<Rightarrow> 'a list \<times> 'a list" where
  "extract_if P [] = ([], [])"
| "extract_if P (x # xs) =
     (let (out, kept) = extract_if P xs in if P x then (x # out, kept) else (out, x # kept))"

definition set_signal :: "ObjectSignal \<Rightarrow> bool \<Rightarrow> KObjectSignal \<Rightarrow> KObjectSignal \<times> kevent list" where
  "set_signal sig status s =
     (let new = (if status then signal_status s OR sig else signal_status s AND signal_not sig) in
      if new = signal_status s then (s, [])
      else let (fired, kept) = extract_if (\<lambda>w. intersects new (waiter_mask w)) (signal_waiters s)
           in (\<lparr>signal_status = new, signal_waiters = kept\<rparr>, map (fire new) fired))"

text \<open>
  The closures of \<open>ReferenceOperation::Wait\<close> and \<open>ReferenceOperation::WaitPort\<close>, run under the
  lock of the object.  \<open>object_wait\<close> returns the status, or \<^term>\<open>None\<close> when the thread was
  registered and must block.
\<close>

definition object_wait :: "tref \<Rightarrow> ObjectSignal \<Rightarrow> KObjectSignal \<Rightarrow> ObjectSignal option \<times> KObjectSignal" where
  "object_wait t m s =
     (if intersects (signal_status s) m then (Some (signal_status s), s)
      else (None, signal_wait \<lparr>waiter_ty = One t, waiter_mask = m\<rparr> s))"

definition object_wait_port ::
  "portref \<Rightarrow> u64 \<Rightarrow> ObjectSignal \<Rightarrow> KObjectSignal \<Rightarrow> KObjectSignal \<times> kevent list" where
  "object_wait_port p k m s =
     (if intersects (signal_status s) m
      then (s, [Notify p \<lparr>notif_key = k, notif_ty = SignalOne m (signal_status s)\<rparr>])
      else (signal_wait \<lparr>waiter_ty = Port p k, waiter_mask = m\<rparr> s, []))"

subsection \<open>Invariant: nobody waits for a signal that is up\<close>

definition signal_inv :: "KObjectSignal \<Rightarrow> bool" where
  "signal_inv s \<longleftrightarrow> (\<forall>w \<in> set (signal_waiters s). \<not> intersects (signal_status s) (waiter_mask w))"

lemma extract_if_filter [simp]: "extract_if P xs = (filter P xs, filter (\<lambda>x. \<not> P x) xs)"
  by (induction xs) auto

lemma signal_inv_new [simp]: "signal_inv signal_new"
  by (simp add: signal_inv_def signal_new_def)

lemma signal_status_set [simp]:
  "signal_status (fst (set_signal sig status s)) =
     (if status then signal_status s OR sig else signal_status s AND signal_not sig)"
  by (simp add: set_signal_def Let_def)

lemma signal_inv_set: "signal_inv s \<Longrightarrow> signal_inv (fst (set_signal sig status s))"
  by (simp add: set_signal_def signal_inv_def Let_def)

lemma signal_inv_object_wait: "signal_inv s \<Longrightarrow> signal_inv (snd (object_wait t m s))"
  by (simp add: object_wait_def signal_inv_def signal_wait_def)

lemma signal_inv_object_wait_port: "signal_inv s \<Longrightarrow> signal_inv (fst (object_wait_port p k m s))"
  by (simp add: object_wait_port_def signal_inv_def signal_wait_def)

definition new_status :: "ObjectSignal \<Rightarrow> bool \<Rightarrow> KObjectSignal \<Rightarrow> ObjectSignal" where
  "new_status sig status s =
     (if status then signal_status s OR sig else signal_status s AND signal_not sig)"

text \<open>Under the invariant the early return makes no difference.\<close>

lemma set_signal_eq:
  assumes "signal_inv s" and new: "new = new_status sig status s"
  shows "set_signal sig status s =
     (\<lparr>signal_status = new,
       signal_waiters = filter (\<lambda>w. \<not> intersects new (waiter_mask w)) (signal_waiters s)\<rparr>,
      map (fire new) (filter (\<lambda>w. intersects new (waiter_mask w)) (signal_waiters s)))"
proof (cases "new = signal_status s")
  case True
  with assms(1) have "filter (\<lambda>w. intersects new (waiter_mask w)) (signal_waiters s) = []"
      "filter (\<lambda>w. \<not> intersects new (waiter_mask w)) (signal_waiters s) = signal_waiters s"
    by (simp_all add: signal_inv_def filter_empty_conv filter_id_conv)
  moreover have "set_signal sig status s = (s, [])"
    using True unfolding new new_status_def set_signal_def Let_def by (simp only: if_True refl)
  ultimately show ?thesis using True by simp
next
  case False
  then show ?thesis
    unfolding new new_status_def set_signal_def Let_def by (simp only: if_False extract_if_filter prod.case)
qed

lemma set_signal_clear_silent:
  assumes "signal_inv s"
  shows "snd (set_signal sig False s) = []"
    and "signal_waiters (fst (set_signal sig False s)) = signal_waiters s"
  using assms intersects_and_left
  by (auto simp: set_signal_def signal_inv_def Let_def filter_empty_conv filter_id_conv)

text \<open>What one object promises over a run of operations.\<close>

datatype signal_op =
    OpSet ObjectSignal bool
  | OpWait tref ObjectSignal
  | OpWaitPort portref u64 ObjectSignal

fun signal_exec :: "signal_op \<Rightarrow> KObjectSignal \<Rightarrow> KObjectSignal \<times> kevent list" where
  "signal_exec (OpSet sig b) s = set_signal sig b s"
| "signal_exec (OpWait t m) s = (snd (object_wait t m s), [])"
| "signal_exec (OpWaitPort p k m) s = object_wait_port p k m s"

fun signal_run :: "signal_op list \<Rightarrow> KObjectSignal \<Rightarrow> KObjectSignal \<times> kevent list" where
  "signal_run [] s = (s, [])"
| "signal_run (opn # ops) s =
     (let (s', ev) = signal_exec opn s; (s'', ev') = signal_run ops s' in (s'', ev @ ev'))"

lemma signal_inv_exec: "signal_inv s \<Longrightarrow> signal_inv (fst (signal_exec opn s))"
  by (cases opn) (simp_all add: signal_inv_set signal_inv_object_wait signal_inv_object_wait_port)

lemma signal_inv_run: "signal_inv s \<Longrightarrow> signal_inv (fst (signal_run ops s))"
  by (induction ops arbitrary: s) (simp_all add: split_beta signal_inv_exec)

text \<open>
  A registered waiter is never lost and never fired twice: as long as no operation brings up a
  signal of its mask it stays in the list, and the first operation that does removes it and emits
  its event.
\<close>

lemma set_signal_keeps:
  assumes "w \<in> set (signal_waiters s)"
    and "\<not> intersects (signal_status (fst (set_signal sig b s))) (waiter_mask w)"
  shows "w \<in> set (signal_waiters (fst (set_signal sig b s)))"
  using assms by (auto simp: set_signal_def Let_def)

lemma set_signal_fires:
  assumes "signal_inv s" "w \<in> set (signal_waiters s)"
    and "intersects (signal_status (fst (set_signal sig b s))) (waiter_mask w)"
  shows "fire (signal_status (fst (set_signal sig b s))) w \<in> set (snd (set_signal sig b s))"
proof -
  have "signal_status (fst (set_signal sig b s)) \<noteq> signal_status s"
    using assms by (auto simp: signal_inv_def)
  then show ?thesis using assms(2,3) by (auto simp: set_signal_def Let_def split: if_splits)
qed

text \<open>
  C14.  Signals are not lost.  Whatever operations have run on an object since its creation (signals
  raised and cleared, threads and ports registered), afterwards no registered waiter asks for a
  signal that is up; and when the next operation changes the status, the waiters that leave the
  list are exactly those whose mask meets the new status, each fires one event with that status,
  in the order of registration, and all the others stay in their order.
\<close>

theorem signals_not_lost:
  assumes "s = fst (signal_run ops signal_new)"
    and "set_signal sig b s = (s', evs)"
  shows "(\<forall>w \<in> set (signal_waiters s). \<not> intersects (signal_status s) (waiter_mask w)) \<and>
     signal_status s' = (if b then signal_status s OR sig else signal_status s AND signal_not sig) \<and>
     evs = map (fire (signal_status s'))
       (filter (\<lambda>w. intersects (signal_status s') (waiter_mask w)) (signal_waiters s)) \<and>
     signal_waiters s' =
       filter (\<lambda>w. \<not> intersects (signal_status s') (waiter_mask w)) (signal_waiters s)"
proof -
  define new where "new = new_status sig b s"
  have inv: "signal_inv s" using assms(1) signal_inv_run [OF signal_inv_new] by simp
  from set_signal_eq [OF inv new_def] assms(2) have "signal_status s' = new"
      "evs = map (fire new) (filter (\<lambda>w. intersects new (waiter_mask w)) (signal_waiters s))"
      "signal_waiters s' = filter (\<lambda>w. \<not> intersects new (waiter_mask w)) (signal_waiters s)"
    by simp_all
  moreover have "new = (if b then signal_status s OR sig else signal_status s AND signal_not sig)"
    by (simp only: new_def new_status_def)
  ultimately show ?thesis using inv unfolding signal_inv_def by (simp only: conj_assoc)
qed

theorem signals_not_lost_witness:
  "signal_waiters (fst (set_signal READABLE True
       (fst (signal_run [OpWait 7 READABLE, OpWaitPort 3 5 CHANNEL_CLOSED] signal_new)))) =
     [\<lparr>waiter_ty = Port 3 5, waiter_mask = CHANNEL_CLOSED\<rparr>] \<and>
   snd (set_signal READABLE True
       (fst (signal_run [OpWait 7 READABLE, OpWaitPort 3 5 CHANNEL_CLOSED] signal_new))) = [Wake 7]"
proof -
  define s where "s = fst (signal_run [OpWait 7 READABLE, OpWaitPort 3 5 CHANNEL_CLOSED] signal_new)"
  obtain s' evs where "set_signal READABLE True s = (s', evs)" by (cases "set_signal READABLE True s")
  from signals_not_lost [OF s_def this] this show ?thesis
    by (simp add: s_def [symmetric])
       (simp add: s_def object_wait_def object_wait_port_def signal_wait_def signal_new_def
         signal_defs fire_def)
qed

end
