(* ===== verification/Queue_Interface.thy ===== *)
theory Queue_Interface
  imports Prelude
begin

text \<open>
  The contract that the kernel's queues share: ports, channels and the run queue of the scheduler
  all promise first-in first-out order, and each may refuse an element (a full channel, a thread
  that is queued already) or decline to hand one out (a reader with too small a buffer).
\<close>

locale fifo =
  fixes abs :: "'q \<Rightarrow> 'a list"
    and inv :: "'q \<Rightarrow> bool"
    and enq :: "'a \<Rightarrow> 'q \<Rightarrow> bool \<times> 'q"
    and deq :: "'q \<Rightarrow> 'a option \<times> 'q"
  assumes enq_accept: "inv q \<Longrightarrow> enq x q = (True, q') \<Longrightarrow> abs q' = abs q @ [x]"
    and enq_refuse: "inv q \<Longrightarrow> enq x q = (False, q') \<Longrightarrow> abs q' = abs q"
    and inv_enq: "inv q \<Longrightarrow> inv (snd (enq x q))"
    and deq_Some: "inv q \<Longrightarrow> deq q = (Some x, q') \<Longrightarrow> abs q = x # abs q'"
    and deq_None: "inv q \<Longrightarrow> deq q = (None, q') \<Longrightarrow> abs q' = abs q"
    and inv_deq: "inv q \<Longrightarrow> inv (snd (deq q))"
begin

text \<open>
  A run of operations, \<^term>\<open>Some x\<close> to put \<^term>\<open>x\<close> in and \<^term>\<open>None\<close> to take one out: the
  elements accepted, the elements handed out, and the queue at the end.
\<close>

fun exec :: "'a option list \<Rightarrow> 'q \<Rightarrow> 'a list \<times> 'a list \<times> 'q" where
  "exec [] q = ([], [], q)"
| "exec (Some x # ops) q =
     (let (ok, q') = enq x q; (ins, outs, q'') = exec ops q'
      in ((if ok then x # ins else ins), outs, q''))"
| "exec (None # ops) q =
     (let (r, q') = deq q; (ins, outs, q'') = exec ops q'
      in (ins, (case r of None \<Rightarrow> outs | Some x \<Rightarrow> x # outs), q''))"

lemma exec_order:
  assumes "inv q" and "exec ops q = (ins, outs, q')"
  shows "outs @ abs q' = abs q @ ins" and "inv q'"
proof -
  have "outs @ abs q' = abs q @ ins \<and> inv q'"
    using assms
  proof (induction ops arbitrary: q ins outs)
    case Nil
    then show ?case by simp
  next
    case (Cons opn ops)
    show ?case
    proof (cases opn)
      case None
      obtain r q1 where d: "deq q = (r, q1)" by fastforce
      obtain outs1 where e: "exec ops q1 = (ins, outs1, q')"
          and outs: "outs = (case r of None \<Rightarrow> outs1 | Some x \<Rightarrow> x # outs1)"
        using Cons.prems(2) None d by (auto split: prod.splits)
      have "inv q1" using inv_deq [OF Cons.prems(1)] d by simp
      from Cons.IH [OF this e] outs deq_Some [OF Cons.prems(1)] deq_None [OF Cons.prems(1)] d
      show ?thesis by (cases r) auto
    next
      case (Some x)
      obtain ok q1 where d: "enq x q = (ok, q1)" by fastforce
      obtain ins1 where e: "exec ops q1 = (ins1, outs, q')"
          and ins: "ins = (if ok then x # ins1 else ins1)"
        using Cons.prems(2) Some d by (auto split: prod.splits)
      have "inv q1" using inv_enq [OF Cons.prems(1), of x] d by simp
      from Cons.IH [OF this e] ins enq_accept [OF Cons.prems(1)] enq_refuse [OF Cons.prems(1)] d
      show ?thesis by (cases ok) auto
    qed
  qed
  then show "outs @ abs q' = abs q @ ins" "inv q'" by simp_all
qed

end

text \<open>A queue that hands out an element whenever it has one.\<close>

locale prompt_fifo = fifo +
  assumes deq_prompt: "inv q \<Longrightarrow> deq q = (None, q') \<Longrightarrow> abs q = []"
begin

lemma deq_result: "inv q \<Longrightarrow> fst (deq q) = (case abs q of [] \<Rightarrow> None | x # _ \<Rightarrow> Some x)"
  using deq_Some [of q] deq_prompt [of q] by (cases "deq q"; cases "fst (deq q)") auto

lemma abs_deq: "inv q \<Longrightarrow> abs (snd (deq q)) = tl (abs q)"
  using deq_Some [of q] deq_prompt [of q] deq_None [of q]
  by (cases "deq q"; cases "fst (deq q)") auto

end

end
