(* ===== verification/Run_Queue.thy ===== *)
theory Run_Queue
  imports Signals Queue_Interface
begin

text \<open>
  The run queue of \<open>kernel/src/scheduling/taskmanager.rs\<close>: an intrusive singly linked list whose
  links and \<open>queued\<close> flags live in the threads and are guarded by the lock of \<open>GlobalSchedData\<close>,
  so they are part of its state here.
\<close>

record ThreadSchedGlobalData =
  queued :: bool
  next_thread :: "tref option"

definition sched_global_new :: ThreadSchedGlobalData where
  "sched_global_new = \<lparr>queued = False, next_thread = None\<rparr>"

record GlobalSchedData =
  queue_head :: "tref option"
  queue_tail :: "tref option"
  sched_global :: "tref \<Rightarrow> ThreadSchedGlobalData"

definition sched_data_new :: GlobalSchedData where
  "sched_data_new = \<lparr>queue_head = None, queue_tail = None, sched_global = (\<lambda>_. sched_global_new)\<rparr>"

definition pop_thread :: "GlobalSchedData \<Rightarrow> tref option \<times> GlobalSchedData" where
  "pop_thread s =
     (case queue_head s of
        None \<Rightarrow> (None, s)
      | Some h \<Rightarrow>
          let sg = sched_global s h;
              s1 = s\<lparr>queue_head := None,
                     sched_global := (sched_global s)(h := sg\<lparr>queued := False, next_thread := None\<rparr>)\<rparr>
          in case next_thread sg of
               Some nxt \<Rightarrow> (Some h, s1\<lparr>queue_head := Some nxt\<rparr>)
             | None \<Rightarrow> (Some h, s1\<lparr>queue_tail := None\<rparr>))"

definition queue_thread :: "tref \<Rightarrow> GlobalSchedData \<Rightarrow> GlobalSchedData option" where
  "queue_thread t s =
     (if queued (sched_global s t) then Some s
      else
        let s1 = s\<lparr>sched_global := (sched_global s)(t := (sched_global s t)\<lparr>queued := True\<rparr>)\<rparr> in
        if queue_head s1 = None then do {
          rassert (queue_tail s1 = None);
          Some (s1\<lparr>queue_head := Some t, queue_tail := Some t\<rparr>)
        } else
          case queue_tail s1 of
            None \<Rightarrow> Some (s1\<lparr>queue_tail := Some t\<rparr>)
          | Some tail \<Rightarrow> do {
              rassert (next_thread (sched_global s1 tail) = None);
              Some (s1\<lparr>queue_tail := Some t,
                       sched_global := (sched_global s1)(tail := (sched_global s1 tail)\<lparr>next_thread := Some t\<rparr>)\<rparr>)
            })"

text \<open>The walk of \<open>dump_runnable\<close>, a loop that ends only if the list does.\<close>

partial_function (option) runnable_from ::
  "(tref \<Rightarrow> ThreadSchedGlobalData) \<Rightarrow> tref option \<Rightarrow> tref list option" where
  "runnable_from g h =
     (case h of
        None \<Rightarrow> Some []
      | Some t \<Rightarrow> do { ts \<leftarrow> runnable_from g (next_thread (g t)); Some (t # ts) })"

definition dump_runnable :: "GlobalSchedData \<Rightarrow> tref list option" where
  "dump_runnable s = runnable_from (sched_global s) (queue_head s)"

subsection \<open>The list that a run queue represents\<close>

fun linked :: "(tref \<Rightarrow> ThreadSchedGlobalData) \<Rightarrow> tref option \<Rightarrow> tref list \<Rightarrow> bool" where
  "linked g h [] \<longleftrightarrow> h = None"
| "linked g h (t # ts) \<longleftrightarrow> h = Some t \<and> linked g (next_thread (g t)) ts"

definition runq :: "GlobalSchedData \<Rightarrow> tref list \<Rightarrow> bool" where
  "runq s ts \<longleftrightarrow>
     linked (sched_global s) (queue_head s) ts \<and> distinct ts \<and>
     queue_tail s = (if ts = [] then None else Some (last ts)) \<and>
     (\<forall>t. queued (sched_global s t) \<longleftrightarrow> t \<in> set ts) \<and>
     (\<forall>t. t \<notin> set ts \<longrightarrow> next_thread (sched_global s t) = None)"

lemma linked_cong: "(\<And>t. t \<in> set ts \<Longrightarrow> next_thread (g' t) = next_thread (g t)) \<Longrightarrow> linked g h ts = linked g' h ts"
  by (induction ts arbitrary: h) auto

lemma linked_last: "linked g h ts \<Longrightarrow> ts \<noteq> [] \<Longrightarrow> next_thread (g (last ts)) = None"
  by (induction ts arbitrary: h) auto

lemma linked_unique: "linked g h ts \<Longrightarrow> linked g h ts' \<Longrightarrow> ts = ts'"
proof (induction ts arbitrary: h ts')
  case Nil
  then show ?case by (cases ts') auto
next
  case (Cons t ts)
  then show ?case by (cases ts') auto
qed

lemma linked_append:
  assumes "linked g h ts" "distinct ts" "ts \<noteq> []" "t \<notin> set ts"
    and "\<And>u. u \<noteq> last ts \<Longrightarrow> next_thread (g' u) = next_thread (g u)"
    and "next_thread (g' (last ts)) = Some t" "next_thread (g t) = None"
  shows "linked g' h (ts @ [t])"
  using assms
proof (induction ts arbitrary: h)
  case (Cons a ts)
  show ?case
  proof (cases "ts = []")
    case True
    with Cons.prems show ?thesis by auto
  next
    case False
    with Cons.prems have "a \<noteq> last ts" by auto
    with Cons.prems Cons.IH [of "next_thread (g a)"] False show ?thesis by auto
  qed
qed simp

lemma runnable_linked: "linked g h ts \<Longrightarrow> runnable_from g h = Some ts"
  by (induction ts arbitrary: h) (simp_all add: runnable_from.simps)

lemma runq_unique: "runq s ts \<Longrightarrow> runq s ts' \<Longrightarrow> ts = ts'"
  by (auto simp: runq_def intro: linked_unique)

lemma runq_new [simp]: "runq sched_data_new []"
  by (simp add: runq_def sched_data_new_def sched_global_new_def)

lemma runq_queued: "runq s ts \<Longrightarrow> queued (sched_global s t) \<longleftrightarrow> t \<in> set ts"
  by (simp add: runq_def)

lemma dump_runq: "runq s ts \<Longrightarrow> dump_runnable s = Some ts"
  by (simp add: runq_def dump_runnable_def runnable_linked)

lemma pop_thread_runq:
  assumes "runq s ts"
  shows "pop_thread s = (None, s) \<and> ts = [] \<or>
    (\<exists>t ts' s'. ts = t # ts' \<and> pop_thread s = (Some t, s') \<and> runq s' ts')"
proof (cases ts)
  case Nil
  with assms show ?thesis by (simp add: runq_def pop_thread_def)
next
  case (Cons t ts')
  with assms have t: "queue_head s = Some t" "linked (sched_global s) (next_thread (sched_global s t)) ts'"
      "t \<notin> set ts'" "distinct ts'"
    by (auto simp: runq_def)
  define g where "g = (sched_global s)(t := (sched_global s t)\<lparr>queued := False, next_thread := None\<rparr>)"
  have "next_thread (g u) = next_thread (sched_global s u)" if "u \<in> set ts'" for u
    using that t(3) by (auto simp: g_def)
  then have l: "linked g (next_thread (sched_global s t)) ts'"
    using t(2) linked_cong [of ts' g "sched_global s"] by blast
  show ?thesis
  proof (cases ts')
    case Nil
    with t assms Cons show ?thesis by (auto simp: pop_thread_def runq_def Let_def)
  next
    case (Cons t2 ts2)
    with t have "next_thread (sched_global s t) = Some t2" by simp
    with t l assms Cons \<open>ts = t # ts'\<close> show ?thesis
      by (auto simp: pop_thread_def runq_def Let_def g_def)
  qed
qed

lemma queue_thread_runq:
  assumes "runq s ts"
  shows "\<exists>s'. queue_thread t s = Some s' \<and> runq s' (if t \<in> set ts then ts else ts @ [t])"
proof (cases "t \<in> set ts")
  case True
  with assms show ?thesis by (simp add: queue_thread_def runq_def)
next
  case new: False
  then have q: "\<not> queued (sched_global s t)" using assms by (simp add: runq_def)
  show ?thesis
  proof (cases "ts = []")
    case True
    with assms q show ?thesis by (auto simp: queue_thread_def runq_def Let_def)
  next
    case False
    define g where "g = (sched_global s)(t := (sched_global s t)\<lparr>queued := True\<rparr>)"
    define g' where "g' = g(last ts := (g (last ts))\<lparr>next_thread := Some t\<rparr>)"
    have tl: "last ts \<in> set ts" "last ts \<noteq> t" using False new by auto
    have h: "queue_head s \<noteq> None" using assms False by (cases ts) (auto simp: runq_def)
    have nn: "next_thread (g (last ts)) = None"
      using linked_last [of "sched_global s" "queue_head s" ts] assms False tl by (simp add: runq_def g_def)
    have "queue_thread t s = Some (s\<lparr>sched_global := g', queue_tail := Some t\<rparr>)"
      using q h nn assms False by (simp add: queue_thread_def runq_def Let_def g_def g'_def)
    moreover have "linked g' (queue_head s) (ts @ [t])"
      using assms False new tl
      by (intro linked_append [of "sched_global s"]) (auto simp: runq_def g_def g'_def)
    then have "runq (s\<lparr>sched_global := g', queue_tail := Some t\<rparr>) (ts @ [t])"
      using assms new tl False by (auto simp: runq_def g_def g'_def)
    ultimately show ?thesis using new by auto
  qed
qed

subsection \<open>Refinement of the first-in first-out queue\<close>

definition runq_list :: "GlobalSchedData \<Rightarrow> tref list" where
  "runq_list s = (case dump_runnable s of None \<Rightarrow> [] | Some ts \<Rightarrow> ts)"

definition runq_inv :: "GlobalSchedData \<Rightarrow> bool" where
  "runq_inv s \<longleftrightarrow> runq s (runq_list s)"

lemma runq_iff: "runq s ts \<longleftrightarrow> runq_inv s \<and> ts = runq_list s"
  using dump_runq [of s ts] by (auto simp: runq_inv_def runq_list_def)

definition try_queue_thread :: "tref \<Rightarrow> GlobalSchedData \<Rightarrow> bool \<times> GlobalSchedData" where
  "try_queue_thread t s =
     (case queue_thread t s of None \<Rightarrow> (False, s) | Some s' \<Rightarrow> (\<not> queued (sched_global s t), s'))"

interpretation sched_fifo: prompt_fifo runq_list runq_inv try_queue_thread pop_thread
proof
  fix s :: GlobalSchedData and t s'
  assume inv: "runq_inv s"
  then have r: "runq s (runq_list s)" by (simp add: runq_inv_def)
  from queue_thread_runq [OF r, of t] obtain s1 where q: "queue_thread t s = Some s1"
    "runq s1 (if t \<in> set (runq_list s) then runq_list s else runq_list s @ [t])" by blast
  from q runq_queued [OF r, of t]
  show "runq_list s' = runq_list s @ [t]" if "try_queue_thread t s = (True, s')"
    using that by (auto simp: try_queue_thread_def runq_iff)
  from q runq_queued [OF r, of t]
  show "runq_list s' = runq_list s" if "try_queue_thread t s = (False, s')"
    using that by (auto simp: try_queue_thread_def runq_iff)
  from q show "runq_inv (snd (try_queue_thread t s))"
    by (auto simp: try_queue_thread_def runq_iff)
next
  fix s :: GlobalSchedData and t s'
  assume inv: "runq_inv s"
  then have r: "runq s (runq_list s)" by (simp add: runq_inv_def)
  note pop = pop_thread_runq [OF r]
  show "runq_list s = t # runq_list s'" if "pop_thread s = (Some t, s')"
    using that pop by (auto simp: runq_iff)
  show "runq_list s' = runq_list s" if "pop_thread s = (None, s')"
    using that pop by auto
  show "runq_inv (snd (pop_thread s))"
    using pop inv by (auto simp: runq_iff)
  show "runq_list s = []" if "pop_thread s = (None, s')"
    using that pop by auto
qed

text \<open>A run of the scheduler's calls: \<^term>\<open>Some t\<close> queues, \<^term>\<open>None\<close> pops; a failed assertion ends it.\<close>

fun sched_run :: "tref option list \<Rightarrow> GlobalSchedData \<Rightarrow> (tref option list \<times> GlobalSchedData) option" where
  "sched_run [] s = Some ([], s)"
| "sched_run (Some t # ops) s = do { s' \<leftarrow> queue_thread t s; sched_run ops s' }"
| "sched_run (None # ops) s =
     (let (r, s') = pop_thread s in do { (out, s'') \<leftarrow> sched_run ops s'; Some (r # out, s'') })"

fun list_run :: "tref option list \<Rightarrow> tref list \<Rightarrow> tref option list \<times> tref list" where
  "list_run [] ts = ([], ts)"
| "list_run (Some t # ops) ts = list_run ops (if t \<in> set ts then ts else ts @ [t])"
| "list_run (None # ops) ts =
     (let (out, ts'') = list_run ops (tl ts)
      in ((case ts of [] \<Rightarrow> None | t # _ \<Rightarrow> Some t) # out, ts''))"

lemma sched_run_refines:
  "runq s ts \<Longrightarrow> \<exists>s'. sched_run ops s = Some (fst (list_run ops ts), s') \<and> runq s' (snd (list_run ops ts))"
proof (induction ops arbitrary: s ts)
  case (Cons opn ops)
  show ?case
  proof (cases opn)
    case None
    with pop_thread_runq [OF Cons.prems] Cons.IH Cons.prems show ?thesis
      by (fastforce simp: split_beta)
  next
    case (Some t)
    with queue_thread_runq [OF Cons.prems, of t] Cons.IH show ?thesis by fastforce
  qed
qed simp

text \<open>
  C1.  The run queue is a first-in first-out queue without duplicates.  For every sequence of calls
  of \<open>queue_thread\<close> and \<open>pop_thread\<close> on a new scheduler no assertion of the code fails, the calls
  return exactly what a list would (a thread that is queued already is not queued again), the
  linked list is acyclic, ends at the tail, holds each thread once, and its members are exactly
  the threads marked as queued; \<open>dump_runnable\<close> terminates and prints that list.
\<close>

theorem run_queue_refines_list:
  "\<exists>s. sched_run ops sched_data_new = Some (fst (list_run ops []), s) \<and>
     dump_runnable s = Some (snd (list_run ops [])) \<and>
     distinct (snd (list_run ops [])) \<and>
     (\<forall>t. queued (sched_global s t) \<longleftrightarrow> t \<in> set (snd (list_run ops []))) \<and>
     queue_tail s = (if snd (list_run ops []) = [] then None else Some (last (snd (list_run ops []))))"
proof -
  from sched_run_refines [OF runq_new, of ops] obtain s where
    "sched_run ops sched_data_new = Some (fst (list_run ops []), s)" and r: "runq s (snd (list_run ops []))"
    by blast
  moreover from r have "dump_runnable s = Some (snd (list_run ops []))" by (rule dump_runq)
  ultimately show ?thesis using r unfolding runq_def by blast
qed

end
