(* ===== verification/Scheduler.thy ===== *)
theory Scheduler
  imports Run_Queue "HOL-Library.Multiset"
begin

text \<open>
  Threads and the scheduler (\<open>kernel/src/scheduling/taskmanager.rs\<close>, \<open>process.rs\<close>, \<open>time.rs\<close>,
  the timer tick of \<open>lapic.rs\<close>): picking a thread on a core, leaving the core, waking, sleeping
  until a time, and the end of a thread.  A saved context is the point at which the thread goes on.
\<close>

subsection \<open>Threads\<close>

datatype ThreadState = Zombie | Runnable | Sleeping

text \<open>
  Where a thread that is not running goes on (\<open>SavedTaskState\<close>): the start of a new task, user code
  after a timer tick, after a yield, inside a system call that blocked, or nowhere when it left for
  good.
\<close>

datatype kcont =
    CStart nat nat
  | CUser
  | CYield
  | CSleep nat
  | CWaitChannel nat
  | CWaitProcess nat
  | CPortWait portref nat
  | CInterruptWait nat
  | CDead

record Thread =
  t_state :: ThreadState
  task_state :: "kcont option"
  in_syscall :: bool
  killed :: bool

text \<open>The scheduling state: the run queue, the threads, what each core runs, and who sleeps until when.\<close>

record sch =
  rq :: GlobalSchedData
  thr :: "tref \<Rightarrow> Thread"
  cur :: "nat \<Rightarrow> tref option"
  slept :: "(nat \<times> tref) list"

definition upd_thread :: "tref \<Rightarrow> (Thread \<Rightarrow> Thread) \<Rightarrow> sch \<Rightarrow> sch" where
  "upd_thread t f s = s\<lparr>thr := (thr s)(t := f (thr s t))\<rparr>"

definition enqueue :: "tref \<Rightarrow> sch \<Rightarrow> sch option" where
  "enqueue t s = do { q \<leftarrow> queue_thread t (rq s); Some (s\<lparr>rq := q\<rparr>) }"

subsection \<open>Operations\<close>

definition wake :: "tref \<Rightarrow> sch \<Rightarrow> sch option" where
  "wake t s =
     (case t_state (thr s t) of
        Zombie \<Rightarrow> Some s
      | Runnable \<Rightarrow> Some s
      | Sleeping \<Rightarrow> enqueue t (upd_thread t (\<lambda>x. x\<lparr>t_state := Runnable\<rparr>) s))"

primrec wake_all :: "tref list \<Rightarrow> sch \<Rightarrow> sch option" where
  "wake_all [] s = Some s"
| "wake_all (t # ts) s = do { s1 \<leftarrow> wake t s; wake_all ts s1 }"

text \<open>
  One iteration of \<open>scheduler\<close> on a core up to the switch to the thread: \<open>Idle\<close> when nothing is
  queued, \<open>Reaped t\<close> when a killed thread was ended, \<open>Running t k\<close> when \<open>t\<close> goes on at \<open>k\<close>.
\<close>

datatype picked = Idle | Reaped tref | Running tref kcont

definition pick :: "nat \<Rightarrow> sch \<Rightarrow> (picked \<times> sch) option" where
  "pick c s =
     (case pop_thread (rq s) of
        (None, q) \<Rightarrow> Some (Idle, s\<lparr>rq := q\<rparr>)
      | (Some t, q) \<Rightarrow>
          let s1 = s\<lparr>rq := q\<rparr>; th = thr s1 t in
          if \<not> in_syscall th \<and> killed th then
            Some (Reaped t, upd_thread t (\<lambda>x. x\<lparr>t_state := Zombie\<rparr>) s1)
          else do {
            rassert (t_state th = Runnable);
            k \<leftarrow> task_state th;
            Some (Running t k, (upd_thread t (\<lambda>x. x\<lparr>task_state := None\<rparr>) s1)\<lparr>cur := (cur s1)(c := Some t)\<rparr>)
          })"

text \<open>
  \<open>enter_sched\<close> and the rest of the iteration: the context is saved and the core is free; a thread
  that is still runnable goes to the end of the queue.  A thread that leaves with interrupts held
  more than once is ended, and the match on its state then panics.
\<close>

definition leave :: "nat \<Rightarrow> nat \<Rightarrow> kcont \<Rightarrow> sch \<Rightarrow> sch option" where
  "leave c hold_depth k s = do {
     t \<leftarrow> cur s c;
     let s1 = (upd_thread t (\<lambda>x. x\<lparr>task_state := Some k\<rparr>) s)\<lparr>cur := (cur s)(c := None)\<rparr>;
     let s2 = (if hold_depth \<noteq> 1 then upd_thread t (\<lambda>x. x\<lparr>t_state := Zombie\<rparr>) s1 else s1);
     (case t_state (thr s2 t) of
        Zombie \<Rightarrow> None
      | Runnable \<Rightarrow> enqueue t s2
      | Sleeping \<Rightarrow> Some s2)
   }"

text \<open>A thread goes to sleep: its state changes under its lock, which it keeps until it has left.\<close>

definition block :: "nat \<Rightarrow> kcont \<Rightarrow> sch \<Rightarrow> sch option" where
  "block c k s = do {
     t \<leftarrow> cur s c;
     leave c 1 k (upd_thread t (\<lambda>x. x\<lparr>t_state := Sleeping\<rparr>) s)
   }"

definition yield_now :: "nat \<Rightarrow> sch \<Rightarrow> sch option" where
  "yield_now c s = do {
     t \<leftarrow> cur s c;
     leave c 1 CYield (upd_thread t (\<lambda>x. x\<lparr>in_syscall := False\<rparr>) s)
   }"

definition exit_thread :: "nat \<Rightarrow> sch \<Rightarrow> sch option" where
  "exit_thread c s = do {
     t \<leftarrow> cur s c;
     leave c 1 CDead (upd_thread t (\<lambda>x. x\<lparr>in_syscall := False, killed := True\<rparr>) s)
   }"

definition kill_bad_task :: "nat \<Rightarrow> sch \<Rightarrow> sch option" where
  "kill_bad_task c s = do {
     t \<leftarrow> cur s c;
     leave c 1 CDead (upd_thread t (\<lambda>x. x\<lparr>killed := True, in_syscall := False\<rparr>) s)
   }"

text \<open>Entering a system call: \<^term>\<open>False\<close> when the thread had been killed and left instead.\<close>

definition syscall_enter :: "nat \<Rightarrow> sch \<Rightarrow> (bool \<times> sch) option" where
  "syscall_enter c s = do {
     t \<leftarrow> cur s c;
     rassert (\<not> in_syscall (thr s t));
     if killed (thr s t) then do { s1 \<leftarrow> leave c 1 CDead s; Some (False, s1) }
     else Some (True, upd_thread t (\<lambda>x. x\<lparr>in_syscall := True\<rparr>) s)
   }"

definition syscall_leave :: "nat \<Rightarrow> sch \<Rightarrow> sch option" where
  "syscall_leave c s = do {
     t \<leftarrow> cur s c;
     Some (upd_thread t (\<lambda>x. x\<lparr>in_syscall := False\<rparr>) s)
   }"

definition new_thread_sched :: "nat \<Rightarrow> nat \<Rightarrow> Thread" where
  "new_thread_sched entry arg =
     \<lparr>t_state = Runnable, task_state = Some (CStart entry arg), in_syscall = False, killed = False\<rparr>"

text \<open>A new thread at a fresh reference, put on the run queue.\<close>

definition start_thread :: "tref \<Rightarrow> nat \<Rightarrow> nat \<Rightarrow> sch \<Rightarrow> sch option" where
  "start_thread t entry arg s = enqueue t (upd_thread t (\<lambda>_. new_thread_sched entry arg) s)"

definition set_killed :: "tref list \<Rightarrow> sch \<Rightarrow> sch" where
  "set_killed ts s = fold (\<lambda>t. upd_thread t (\<lambda>x. x\<lparr>killed := True\<rparr>)) ts s"

subsection \<open>Sleeping\<close>

definition sleep_until :: "nat \<Rightarrow> nat \<Rightarrow> nat \<Rightarrow> sch \<Rightarrow> sch option" where
  "sleep_until c now ms s = do {
     t \<leftarrow> cur s c;
     time \<leftarrow> add_usize now ms;
     block c (CSleep now) (s\<lparr>slept := slept s @ [(time, t)]\<rparr>)
   }"

text \<open>
  The binary heap of sleepers gives them up in the order of their times; between equal times the
  order is that of the list here.
\<close>

fun insert_sleeper :: "nat \<times> tref \<Rightarrow> (nat \<times> tref) list \<Rightarrow> (nat \<times> tref) list" where
  "insert_sleeper x [] = [x]"
| "insert_sleeper x (y # ys) = (if fst x < fst y then x # y # ys else y # insert_sleeper x ys)"

definition due :: "nat \<Rightarrow> (nat \<times> tref) list \<Rightarrow> (nat \<times> tref) list" where
  "due now xs = fold insert_sleeper (filter (\<lambda>x. fst x \<le> now) xs) []"

definition check_sleep :: "nat \<Rightarrow> sch \<Rightarrow> sch option" where
  "check_sleep now s =
     wake_all (map snd (due now (slept s))) (s\<lparr>slept := filter (\<lambda>x. \<not> fst x \<le> now) (slept s)\<rparr>)"

text \<open>The timer tick on a core: wake who is due, then give up the core if a thread runs on it.\<close>

definition tick_handler :: "nat \<Rightarrow> nat \<Rightarrow> sch \<Rightarrow> sch option" where
  "tick_handler c now s = do {
     s1 \<leftarrow> check_sleep now s;
     (case cur s1 c of None \<Rightarrow> Some s1 | Some t \<Rightarrow> leave c 1 CUser s1)
   }"

subsection \<open>Every thread is in one place\<close>

text \<open>
  A thread whose membership in the queue is \<open>q\<close> and which is on a core when \<open>r\<close>: a runnable thread
  is in exactly one of the two places and its context is saved exactly when it is on no core; a
  sleeping one is in neither and has a saved context; a zombie is in neither.
\<close>

definition thread_ok :: "Thread \<Rightarrow> bool \<Rightarrow> bool \<Rightarrow> bool" where
  "thread_ok th q r \<longleftrightarrow>
     (case t_state th of
        Runnable \<Rightarrow> q \<noteq> r \<and> (task_state th = None) = r
      | Sleeping \<Rightarrow> \<not> q \<and> \<not> r \<and> task_state th \<noteq> None
      | Zombie \<Rightarrow> \<not> q \<and> \<not> r)"

definition on_core :: "sch \<Rightarrow> tref \<Rightarrow> bool" where
  "on_core s t \<longleftrightarrow> (\<exists>c. cur s c = Some t)"

definition one_core :: "(nat \<Rightarrow> tref option) \<Rightarrow> bool" where
  "one_core f \<longleftrightarrow> (\<forall>c d t. f c = Some t \<longrightarrow> f d = Some t \<longrightarrow> c = d)"

definition sched_ok :: "sch \<Rightarrow> tref list \<Rightarrow> bool" where
  "sched_ok s ts \<longleftrightarrow> runq (rq s) ts \<and> one_core (cur s) \<and> (\<forall>t. thread_ok (thr s t) (t \<in> set ts) (on_core s t))"

lemma sched_okD:
  assumes "sched_ok s ts"
  shows "runq (rq s) ts" "one_core (cur s)" "thread_ok (thr s t) (t \<in> set ts) (on_core s t)"
  using assms unfolding sched_ok_def by blast+

text \<open>A change that concerns one thread only.\<close>

lemma sched_ok_thread:
  assumes ok: "sched_ok s ts" and "runq (rq s') ts'" "one_core (cur s')"
    and others: "\<And>u. u \<noteq> t \<Longrightarrow> thr s' u = thr s u \<and> (u \<in> set ts') = (u \<in> set ts) \<and> on_core s' u = on_core s u"
    and "thread_ok (thr s' t) (t \<in> set ts') (on_core s' t)"
  shows "sched_ok s' ts'"
  unfolding sched_ok_def
proof (intro conjI allI)
  show "thread_ok (thr s' u) (u \<in> set ts') (on_core s' u)" for u
    using others [of u] sched_okD(3) [OF ok, of u] assms(5) by (cases "u = t") simp_all
qed (use assms in auto)

lemma running_thread:
  assumes "sched_ok s ts" "cur s c = Some t"
  shows "t_state (thr s t) = Runnable" "task_state (thr s t) = None" "t \<notin> set ts"
    "cur s d = Some t \<longleftrightarrow> d = c"
proof -
  have "on_core s t" using assms(2) by (auto simp: on_core_def)
  with sched_okD(3) [OF assms(1), of t] show "t_state (thr s t) = Runnable" "task_state (thr s t) = None" "t \<notin> set ts"
    by (auto simp: thread_ok_def split: ThreadState.splits)
  show "cur s d = Some t \<longleftrightarrow> d = c" using sched_okD(2) [OF assms(1)] assms(2) by (auto simp: one_core_def)
qed

lemma queued_thread:
  assumes "sched_ok s ts" "t \<in> set ts"
  shows "t_state (thr s t) = Runnable" "task_state (thr s t) \<noteq> None" "\<not> on_core s t"
  using sched_okD(3) [OF assms(1), of t] assms(2) by (auto simp: thread_ok_def split: ThreadState.splits)

lemma one_core_free: "one_core f \<Longrightarrow> one_core (f(c := None))"
  by (auto simp: one_core_def split: if_splits)

lemma queue_new:
  assumes "runq (rq s) ts" "t \<notin> set ts"
  shows "\<exists>q. enqueue t s = Some (s\<lparr>rq := q\<rparr>) \<and> runq q (ts @ [t])"
  using queue_thread_runq [OF assms(1), of t] assms(2) by (auto simp: enqueue_def)

text \<open>Changing only the flags of a thread.\<close>

definition same_sched :: "Thread \<Rightarrow> Thread \<Rightarrow> bool" where
  "same_sched x y \<longleftrightarrow> t_state x = t_state y \<and> task_state x = task_state y"

lemma sched_ok_flags:
  assumes "sched_ok s ts" "rq s' = rq s" "cur s' = cur s" "\<And>t. same_sched (thr s' t) (thr s t)"
  shows "sched_ok s' ts"
proof -
  have "thread_ok (thr s' t) q r = thread_ok (thr s t) q r" for t q r
    using assms(4) [of t] by (simp add: thread_ok_def same_sched_def cong: ThreadState.case_cong)
  then show ?thesis using assms(1-3) by (simp add: sched_ok_def on_core_def)
qed

lemma wake_ok:
  assumes "sched_ok s ts"
  shows "\<exists>s'. wake t s = Some s' \<and> sched_ok s' (if t_state (thr s t) = Sleeping then ts @ [t] else ts) \<and>
    cur s' = cur s \<and> slept s' = slept s"
proof (cases "t_state (thr s t) = Sleeping")
  case True
  have t: "t \<notin> set ts" "\<not> on_core s t" "task_state (thr s t) \<noteq> None"
    using sched_okD(3) [OF assms, of t] True by (auto simp: thread_ok_def)
  define s1 where "s1 = upd_thread t (\<lambda>x. x\<lparr>t_state := Runnable\<rparr>) s"
  have f: "rq s1 = rq s" "cur s1 = cur s" "slept s1 = slept s" "thr s1 = (thr s)(t := (thr s t)\<lparr>t_state := Runnable\<rparr>)"
    by (simp_all add: s1_def upd_thread_def)
  from queue_new [of s1 ts t] sched_okD(1) [OF assms] t(1) f(1) obtain q where
    q: "enqueue t s1 = Some (s1\<lparr>rq := q\<rparr>)" "runq q (ts @ [t])" by auto
  have "sched_ok (s1\<lparr>rq := q\<rparr>) (ts @ [t])"
    by (rule sched_ok_thread [OF assms, of _ _ t])
      (use q(2) sched_okD(2) [OF assms] t in \<open>simp_all add: f on_core_def thread_ok_def\<close>)
  then show ?thesis using True q(1) f by (simp add: wake_def s1_def)
next
  case False
  then show ?thesis using assms by (cases "t_state (thr s t)") (simp_all add: wake_def)
qed

lemma wake_all_ok:
  "sched_ok s ts \<Longrightarrow> \<exists>s' us. wake_all xs s = Some s' \<and> sched_ok s' (ts @ us) \<and> cur s' = cur s \<and>
     slept s' = slept s \<and> (\<forall>t. t_state (thr s' t) = (if t \<in> set xs \<and> t_state (thr s t) = Sleeping then Runnable
       else t_state (thr s t)))"
proof (induction xs arbitrary: s ts)
  case (Cons x xs)
  from wake_ok [OF Cons.prems, of x] obtain s1 where w1: "wake x s = Some s1"
    "sched_ok s1 (if t_state (thr s x) = Sleeping then ts @ [x] else ts)" "cur s1 = cur s" "slept s1 = slept s"
    by blast
  define ts1 where "ts1 = (if t_state (thr s x) = Sleeping then [x] else [])"
  have w: "wake x s = Some s1" "sched_ok s1 (ts @ ts1)" "cur s1 = cur s" "slept s1 = slept s"
    using w1 by (simp_all add: ts1_def split: if_splits)
  have st: "t_state (thr s1 t) = (if t = x \<and> t_state (thr s t) = Sleeping then Runnable else t_state (thr s t))" for t
    using w(1) by (auto simp: wake_def enqueue_def upd_thread_def bind_eq_Some_conv split: ThreadState.splits)
  from Cons.IH [OF w(2)] obtain s' us where r: "wake_all xs s1 = Some s'" "sched_ok s' ((ts @ ts1) @ us)"
    "cur s' = cur s1" "slept s' = slept s1"
    "\<forall>t. t_state (thr s' t) = (if t \<in> set xs \<and> t_state (thr s1 t) = Sleeping then Runnable else t_state (thr s1 t))"
    by blast
  have "\<forall>t. t_state (thr s' t) = (if t \<in> set (x # xs) \<and> t_state (thr s t) = Sleeping then Runnable else t_state (thr s t))"
    using r(5) st by auto
  then show ?case using w r(1-4) by (intro exI [of _ s'] exI [of _ "ts1 @ us"]) simp
next
  case Nil
  then show ?case by (intro exI [of _ s] exI [of _ "[]"]) simp
qed

lemma pick_ok:
  assumes ok: "sched_ok s ts" and c: "cur s c = None"
  shows "\<exists>r s'. pick c s = Some (r, s') \<and> sched_ok s' (drop 1 ts) \<and>
    (case r of Idle \<Rightarrow> ts = [] \<and> s' = s | Reaped t \<Rightarrow> ts \<noteq> [] \<and> t = hd ts
     | Running t k \<Rightarrow> ts \<noteq> [] \<and> t = hd ts \<and> cur s' = (cur s)(c := Some t))"
proof -
  from pop_thread_runq [OF sched_okD(1) [OF ok]] consider (empty) "pop_thread (rq s) = (None, rq s)" "ts = []"
    | (some) t ts' q where "ts = t # ts'" "pop_thread (rq s) = (Some t, q)" "runq q ts'" by blast
  then show ?thesis
  proof cases
    case empty
    then show ?thesis using ok by (simp add: pick_def)
  next
    case some
    have "t \<in> set ts" using some(1) by simp
    note t = queued_thread [OF ok this]
    have t': "t \<notin> set ts'" using sched_okD(1) [OF ok] some(1) by (simp add: runq_def)
    obtain k where k: "task_state (thr s t) = Some k" using t(2) by blast
    show ?thesis
    proof (cases "\<not> in_syscall (thr s t) \<and> killed (thr s t)")
      case True
      define s' where "s' = upd_thread t (\<lambda>x. x\<lparr>t_state := Zombie\<rparr>) (s\<lparr>rq := q\<rparr>)"
      have "sched_ok s' ts'"
        by (rule sched_ok_thread [OF ok, of _ _ t])
          (use some(1,3) sched_okD(2) [OF ok] t(3) t' in \<open>simp_all add: s'_def upd_thread_def on_core_def thread_ok_def\<close>)
      then show ?thesis using True some by (simp add: pick_def Let_def s'_def)
    next
      case False
      define s' where "s' = (upd_thread t (\<lambda>x. x\<lparr>task_state := None\<rparr>) (s\<lparr>rq := q\<rparr>))\<lparr>cur := (cur s)(c := Some t)\<rparr>"
      have f: "rq s' = q" "cur s' = (cur s)(c := Some t)" "thr s' = (thr s)(t := (thr s t)\<lparr>task_state := None\<rparr>)"
        by (simp_all add: s'_def upd_thread_def)
      have oc: "one_core (cur s')"
        using sched_okD(2) [OF ok] t(3) unfolding f(2) one_core_def on_core_def by (auto split: if_splits)
      have on: "on_core s' u = on_core s u" if "u \<noteq> t" for u
        using c that unfolding f(2) on_core_def by (metis fun_upd_apply option.distinct(1) option.inject)
      have "on_core s' t" by (auto simp: on_core_def f(2))
      then have "sched_ok s' ts'"
        by (intro sched_ok_thread [OF ok, of _ _ t])
          (use some(1,3) oc on t(1) t' in \<open>simp_all add: f thread_ok_def\<close>)
      then show ?thesis
        using False some t(1) k f(2) by (auto simp: pick_def Let_def s'_def upd_thread_def)
    qed
  qed
qed

lemma leave_ok:
  assumes ok: "sched_ok s ts" and c: "cur s c = Some t"
  shows "\<exists>s'. leave c 1 k s = Some s' \<and> sched_ok s' (ts @ [t]) \<and> cur s' = (cur s)(c := None)"
    and "\<exists>s'. leave c 1 k (upd_thread t (\<lambda>x. x\<lparr>t_state := Sleeping\<rparr>) s) = Some s' \<and> sched_ok s' ts \<and>
      cur s' = (cur s)(c := None)"
proof -
  note t = running_thread [OF ok c]
  have oc: "one_core ((cur s)(c := None))" by (rule one_core_free [OF sched_okD(2) [OF ok]])
  have on: "(\<exists>d. ((cur s)(c := None)) d = Some u) = (u \<noteq> t \<and> on_core s u)" for u
    using t(4) c unfolding on_core_def by (metis fun_upd_apply option.distinct(1) option.inject)
  define s1 where "s1 = (upd_thread t (\<lambda>x. x\<lparr>task_state := Some k\<rparr>) s)\<lparr>cur := (cur s)(c := None)\<rparr>"
  have f: "rq s1 = rq s" "cur s1 = (cur s)(c := None)" "thr s1 = (thr s)(t := (thr s t)\<lparr>task_state := Some k\<rparr>)"
    by (simp_all add: s1_def upd_thread_def)
  from queue_new [of s1 ts t] sched_okD(1) [OF ok] t(3) f(1) obtain q where
    q: "enqueue t s1 = Some (s1\<lparr>rq := q\<rparr>)" "runq q (ts @ [t])" by auto
  have "sched_ok (s1\<lparr>rq := q\<rparr>) (ts @ [t])"
    by (rule sched_ok_thread [OF ok, of _ _ t])
      (use q(2) oc t(1) in \<open>simp_all add: f on on_core_def [of "s1\<lparr>rq := q\<rparr>"] thread_ok_def del: fun_upd_apply\<close>, simp_all)
  then show "\<exists>s'. leave c 1 k s = Some s' \<and> sched_ok s' (ts @ [t]) \<and> cur s' = (cur s)(c := None)"
    using q(1) c t(1) f(2) by (simp add: leave_def Let_def s1_def upd_thread_def)
  define s2 where "s2 = (upd_thread t (\<lambda>x. x\<lparr>t_state := Sleeping, task_state := Some k\<rparr>) s)\<lparr>cur := (cur s)(c := None)\<rparr>"
  have g: "rq s2 = rq s" "cur s2 = (cur s)(c := None)"
    "thr s2 = (thr s)(t := (thr s t)\<lparr>t_state := Sleeping, task_state := Some k\<rparr>)"
    by (simp_all add: s2_def upd_thread_def)
  have "sched_ok s2 ts"
    by (rule sched_ok_thread [OF ok, of _ _ t])
      (use sched_okD(1) [OF ok] oc t(3) in \<open>simp_all add: g on on_core_def [of s2] thread_ok_def del: fun_upd_apply\<close>, simp_all)
  then show "\<exists>s'. leave c 1 k (upd_thread t (\<lambda>x. x\<lparr>t_state := Sleeping\<rparr>) s) = Some s' \<and> sched_ok s' ts \<and>
      cur s' = (cur s)(c := None)"
    using c g(2) by (simp add: leave_def Let_def s2_def upd_thread_def)
qed

lemma start_ok:
  assumes ok: "sched_ok s ts" and z: "t_state (thr s t) = Zombie"
  shows "\<exists>s'. start_thread t e a s = Some s' \<and> sched_ok s' (ts @ [t]) \<and> cur s' = cur s"
proof -
  have new: "t \<notin> set ts" "\<not> on_core s t" using z sched_okD(3) [OF ok, of t] by (auto simp: thread_ok_def)
  define s1 where "s1 = upd_thread t (\<lambda>_. new_thread_sched e a) s"
  have f: "rq s1 = rq s" "cur s1 = cur s" "thr s1 = (thr s)(t := new_thread_sched e a)"
    by (simp_all add: s1_def upd_thread_def)
  from queue_new [of s1 ts t] sched_okD(1) [OF ok] new(1) f(1) obtain q where
    q: "enqueue t s1 = Some (s1\<lparr>rq := q\<rparr>)" "runq q (ts @ [t])" by auto
  have "sched_ok (s1\<lparr>rq := q\<rparr>) (ts @ [t])"
    by (rule sched_ok_thread [OF ok, of _ _ t])
      (use q(2) sched_okD(2) [OF ok] new in \<open>simp_all add: f on_core_def thread_ok_def new_thread_sched_def\<close>)
  then show ?thesis using q(1) f(2) by (simp add: start_thread_def s1_def)
qed

lemma upd_flags_ok:
  assumes "sched_ok s ts" "\<And>x. same_sched (f x) x"
  shows "sched_ok (upd_thread t f s) ts"
  by (rule sched_ok_flags [OF assms(1)]) (auto simp: upd_thread_def assms(2) same_sched_def [of x x for x])

lemma set_killed_ok: "sched_ok s ts \<Longrightarrow> sched_ok (set_killed us s) ts \<and> cur (set_killed us s) = cur s"
proof (induction us arbitrary: s)
  case (Cons u us)
  have "sched_ok (upd_thread u (\<lambda>x. x\<lparr>killed := True\<rparr>) s) ts"
    by (rule upd_flags_ok [OF Cons.prems]) (simp add: same_sched_def)
  from Cons.IH [OF this] show ?case by (simp add: set_killed_def upd_thread_def)
qed (simp add: set_killed_def)

lemma slept_ok: "sched_ok s ts \<Longrightarrow> sched_ok (s\<lparr>slept := x\<rparr>) ts"
  by (simp add: sched_ok_def on_core_def)

lemma check_sleep_ok:
  assumes "sched_ok s ts"
  shows "\<exists>s' us. check_sleep now s = Some s' \<and> sched_ok s' (ts @ us) \<and> cur s' = cur s"
  using wake_all_ok [OF slept_ok [OF assms], of "map snd (due now (slept s))"]
  by (fastforce simp: check_sleep_def)

subsection \<open>Runs of the scheduler\<close>

text \<open>
  What the cores, the timer, the threads and the kernel objects do to the scheduling state, in any
  order.  \<open>p\<close> is the thread that the step takes from the run queue, if any.
\<close>

inductive sched_step :: "tref option \<Rightarrow> sch \<Rightarrow> sch \<Rightarrow> bool" where
  PickIdle: "cur s c = None \<Longrightarrow> pick c s = Some (Idle, s') \<Longrightarrow> sched_step None s s'"
| PickReap: "cur s c = None \<Longrightarrow> pick c s = Some (Reaped t, s') \<Longrightarrow> sched_step (Some t) s s'"
| PickRun: "cur s c = None \<Longrightarrow> pick c s = Some (Running t k, s') \<Longrightarrow> sched_step (Some t) s s'"
| Tick: "tick_handler c now s = Some s' \<Longrightarrow> sched_step None s s'"
| Wakeup: "wake t s = Some s' \<Longrightarrow> sched_step None s s'"
| Block: "cur s c = Some t \<Longrightarrow> block c k s = Some s' \<Longrightarrow> sched_step None s s'"
| SleepUntil: "cur s c = Some t \<Longrightarrow> sleep_until c now ms s = Some s' \<Longrightarrow> sched_step None s s'"
| Yield: "cur s c = Some t \<Longrightarrow> yield_now c s = Some s' \<Longrightarrow> sched_step None s s'"
| Exit: "cur s c = Some t \<Longrightarrow> exit_thread c s = Some s' \<Longrightarrow> sched_step None s s'"
| KillBad: "cur s c = Some t \<Longrightarrow> kill_bad_task c s = Some s' \<Longrightarrow> sched_step None s s'"
| Enter: "cur s c = Some t \<Longrightarrow> syscall_enter c s = Some (b, s') \<Longrightarrow> sched_step None s s'"
| Return: "cur s c = Some t \<Longrightarrow> syscall_leave c s = Some s' \<Longrightarrow> sched_step None s s'"
| Start: "t_state (thr s t) = Zombie \<Longrightarrow> start_thread t e a s = Some s' \<Longrightarrow> sched_step None s s'"
| Kill: "sched_step None s (set_killed ts s)"

lemma leave_flags_ok:
  assumes "sched_ok s ts" "cur s c = Some t" "\<And>x. same_sched (f x) x"
  shows "\<exists>s'. leave c 1 k (upd_thread t f s) = Some s' \<and> sched_ok s' (ts @ [t]) \<and> cur s' = (cur s)(c := None)"
  using leave_ok(1) [OF upd_flags_ok [OF assms(1,3), of t], of c t k] assms(2) by (simp add: upd_thread_def)

lemma block_sched_ok:
  assumes "sched_ok s ts" "cur s c = Some t"
  shows "\<exists>s'. block c k s = Some s' \<and> sched_ok s' ts \<and> cur s' = (cur s)(c := None)"
  using leave_ok(2) [OF assms] assms(2) by (simp add: block_def)

lemma tick_ok:
  assumes "sched_ok s ts"
  shows "\<exists>s' us. tick_handler c now s = Some s' \<and> sched_ok s' (ts @ us)"
proof -
  from check_sleep_ok [OF assms, of now] obtain s1 us where
    s1: "check_sleep now s = Some s1" "sched_ok s1 (ts @ us)" by blast
  show ?thesis
  proof (cases "cur s1 c")
    case None
    then show ?thesis using s1 by (auto simp: tick_handler_def)
  next
    case (Some t)
    then show ?thesis using s1(1) leave_ok(1) [OF s1(2) Some, of CUser] by (auto simp: tick_handler_def)
  qed
qed

text \<open>Every step keeps the invariant; the queue loses its head or grows at its end.\<close>

lemma sched_step_ok:
  assumes "sched_step p s s'" and ok: "sched_ok s ts"
  shows "\<exists>us. case p of None \<Rightarrow> sched_ok s' (ts @ us) | Some t \<Rightarrow> ts \<noteq> [] \<and> hd ts = t \<and> sched_ok s' (tl ts)"
  using assms
proof cases
  case (PickIdle c)
  then show ?thesis using pick_ok [OF ok PickIdle(2)] by (auto intro: exI [of _ "[]"])
next
  case (PickReap c t)
  then show ?thesis using pick_ok [OF ok PickReap(2)] by (auto simp: drop_Suc)
next
  case (PickRun c t k)
  then show ?thesis using pick_ok [OF ok PickRun(2)] by (auto simp: drop_Suc)
next
  case (Tick c now)
  then show ?thesis using tick_ok [OF ok, of c now] by auto
next
  case (Wakeup t)
  then show ?thesis using wake_ok [OF ok, of t] by (cases "t_state (thr s t) = Sleeping") (auto intro: exI [of _ "[]"])
next
  case (Block c t k)
  then show ?thesis using block_sched_ok [OF ok Block(2), of k] by (auto intro: exI [of _ "[]"])
next
  case (SleepUntil c t now ms)
  then obtain time where "block c (CSleep now) (s\<lparr>slept := slept s @ [(time, t)]\<rparr>) = Some s'"
    by (auto simp: sleep_until_def bind_eq_Some_conv)
  then show ?thesis
    using block_sched_ok [OF slept_ok [OF ok, of "slept s @ [(time, t)]"], of c t "CSleep now"] SleepUntil
    by (auto intro: exI [of _ "[]"])
next
  case (Yield c t)
  then show ?thesis
    using leave_flags_ok [OF ok Yield(2), of "\<lambda>x. x\<lparr>in_syscall := False\<rparr>" CYield]
    by (auto simp: yield_now_def same_sched_def)
next
  case (Exit c t)
  then show ?thesis
    using leave_flags_ok [OF ok Exit(2), of "\<lambda>x. x\<lparr>in_syscall := False, killed := True\<rparr>" CDead]
    by (auto simp: exit_thread_def same_sched_def)
next
  case (KillBad c t)
  then show ?thesis
    using leave_flags_ok [OF ok KillBad(2), of "\<lambda>x. x\<lparr>killed := True, in_syscall := False\<rparr>" CDead]
    by (auto simp: kill_bad_task_def same_sched_def)
next
  case (Enter c t b)
  have "sched_ok (upd_thread t (\<lambda>x. x\<lparr>in_syscall := True\<rparr>) s) (ts @ [])"
    using upd_flags_ok [OF ok] by (simp add: same_sched_def)
  then show ?thesis
    using Enter leave_ok(1) [OF ok Enter(2), of CDead]
    by (auto simp: syscall_enter_def bind_eq_Some_conv split: if_splits intro: exI [of _ "[]"])
next
  case (Return c t)
  have "sched_ok (upd_thread t (\<lambda>x. x\<lparr>in_syscall := False\<rparr>) s) (ts @ [])"
    using upd_flags_ok [OF ok] by (simp add: same_sched_def)
  then show ?thesis using Return by (auto simp: syscall_leave_def intro: exI [of _ "[]"])
next
  case (Start t e a)
  then show ?thesis using start_ok [OF ok Start(2), of e a] by auto
next
  case (Kill us)
  then show ?thesis using set_killed_ok [OF ok, of us] by (auto intro: exI [of _ "[]"])
qed

definition dead_thread :: Thread where
  "dead_thread = \<lparr>t_state = Zombie, task_state = None, in_syscall = False, killed = False\<rparr>"

definition sched_init :: sch where
  "sched_init = \<lparr>rq = sched_data_new, thr = (\<lambda>_. dead_thread), cur = (\<lambda>_. None), slept = []\<rparr>"

lemma sched_init_ok: "sched_ok sched_init []"
  by (simp add: sched_ok_def sched_init_def dead_thread_def one_core_def on_core_def thread_ok_def)

inductive sched_reach :: "sch \<Rightarrow> bool" where
  Init: "sched_reach sched_init"
| Step: "sched_reach s \<Longrightarrow> sched_step p s s' \<Longrightarrow> sched_reach s'"

lemma sched_reach_ok: "sched_reach s \<Longrightarrow> \<exists>ts. sched_ok s ts"
proof (induction rule: sched_reach.induct)
  case (Step s p s')
  then obtain ts where "sched_ok s ts" by blast
  from sched_step_ok [OF Step.hyps(2) this] show ?case by (auto split: option.splits)
qed (use sched_init_ok in blast)

text \<open>
  C4. The scheduler is safe for any number of cores.  In every state that the cores, the timer, the
  threads and the wake-ups can reach: picking a thread never fails its assertion that the thread is
  runnable nor lacks a saved context; a tick, a yield, an exit and going to sleep never panic; no
  thread runs on two cores; and a runnable thread is on the run queue exactly when it is on no core.
\<close>

theorem scheduler_safe:
  assumes "sched_reach s"
  shows "(cur s c = None \<longrightarrow> pick c s \<noteq> None) \<and> tick_handler c now s \<noteq> None \<and>
     (cur s c \<noteq> None \<longrightarrow> yield_now c s \<noteq> None \<and> exit_thread c s \<noteq> None \<and> block c k s \<noteq> None) \<and>
     (cur s c = Some t \<longrightarrow> cur s d = Some t \<longrightarrow> c = d) \<and>
     (t_state (thr s t) = Runnable \<longrightarrow> (t \<in> set (runq_list (rq s))) = (\<forall>c. cur s c \<noteq> Some t))"
proof -
  from sched_reach_ok [OF assms] obtain ts where ok: "sched_ok s ts" by blast
  have "pick c s \<noteq> None" if "cur s c = None" using pick_ok [OF ok that] by auto
  moreover have "tick_handler c now s \<noteq> None" using tick_ok [OF ok, of c now] by auto
  moreover have "yield_now c s \<noteq> None \<and> exit_thread c s \<noteq> None \<and> block c k s \<noteq> None" if "cur s c \<noteq> None"
  proof -
    obtain u where u: "cur s c = Some u" using \<open>cur s c \<noteq> None\<close> by blast
    show ?thesis
      using u block_sched_ok [OF ok u, of k] leave_flags_ok [OF ok u, of "\<lambda>x. x\<lparr>in_syscall := False\<rparr>" CYield]
        leave_flags_ok [OF ok u, of "\<lambda>x. x\<lparr>in_syscall := False, killed := True\<rparr>" CDead]
      by (auto simp: yield_now_def exit_thread_def same_sched_def)
  qed
  moreover have "runq_list (rq s) = ts" using sched_okD(1) [OF ok] by (simp add: runq_iff)
  moreover have "(t \<in> set ts) = (\<forall>c. cur s c \<noteq> Some t)" if "t_state (thr s t) = Runnable"
    using sched_okD(3) [OF ok, of t] that by (auto simp: thread_ok_def on_core_def)
  moreover have "cur s c = Some t \<longrightarrow> cur s d = Some t \<longrightarrow> c = d"
    using sched_okD(2) [OF ok] by (auto simp: one_core_def)
  ultimately show ?thesis by blast
qed

text \<open>A state with thread 5 started.\<close>

definition one_thread :: sch where
  "one_thread = the (start_thread 5 0x1000 0 sched_init)"

lemma one_thread_reach: "sched_reach one_thread" and one_thread_queue: "runq_list (rq one_thread) = [5]"
proof -
  have z: "t_state (thr sched_init 5) = Zombie" by (simp add: sched_init_def dead_thread_def)
  from start_ok [OF sched_init_ok z, of "0x1000" 0] have
    s: "start_thread 5 0x1000 0 sched_init = Some one_thread" "sched_ok one_thread [5]"
    by (auto simp: one_thread_def)
  from s(1) z show "sched_reach one_thread" by (blast intro: sched_reach.intros sched_step.Start)
  from sched_okD(1) [OF s(2)] show "runq_list (rq one_thread) = [5]" by (simp add: runq_iff)
qed

theorem scheduler_safe_witness: "cur one_thread 0 = None \<and> pick 0 one_thread \<noteq> None"
proof -
  have "cur one_thread 0 = None"
    by (simp add: one_thread_def start_thread_def enqueue_def upd_thread_def sched_init_def queue_thread_def
      sched_data_new_def sched_global_new_def)
  with scheduler_safe [OF one_thread_reach, of 0 0 CUser 5 0] show ?thesis by simp
qed

text \<open>Runs in which \<open>n\<close> threads were taken from the queue, none of them \<open>t\<close>.\<close>

inductive passes_over :: "tref \<Rightarrow> nat \<Rightarrow> sch \<Rightarrow> sch \<Rightarrow> bool" for t where
  None_yet: "passes_over t 0 s s"
| Other: "passes_over t n s s' \<Longrightarrow> sched_step None s' s'' \<Longrightarrow> passes_over t n s s''"
| Taken: "passes_over t n s s' \<Longrightarrow> sched_step (Some u) s' s'' \<Longrightarrow> u \<noteq> t \<Longrightarrow> passes_over t (Suc n) s s''"

lemma passes_over_bound:
  assumes "passes_over t n s s'" "sched_ok s ts" "i < length ts" "ts ! i = t"
  shows "n \<le> i \<and> (\<exists>ts'. sched_ok s' ts' \<and> i - n < length ts' \<and> ts' ! (i - n) = t)"
  using assms
proof (induction rule: passes_over.induct)
  case (None_yet s)
  then show ?case by auto
next
  case (Other n s s' s'')
  then obtain ts' where ts': "n \<le> i" "sched_ok s' ts'" "i - n < length ts'" "ts' ! (i - n) = t" by blast
  from sched_step_ok [OF Other.hyps(2) ts'(2)] obtain us where "sched_ok s'' (ts' @ us)" by auto
  then show ?case using ts' by (intro conjI exI [of _ "ts' @ us"]) (auto simp: nth_append)
next
  case (Taken n s s' u s'')
  then obtain ts' where ts': "n \<le> i" "sched_ok s' ts'" "i - n < length ts'" "ts' ! (i - n) = t" by blast
  from sched_step_ok [OF Taken.hyps(2) ts'(2)] have
    h: "ts' \<noteq> []" "hd ts' = u" "sched_ok s'' (tl ts')" by auto
  have "i - n \<noteq> 0" using ts'(4) h(1,2) Taken.hyps(3) by (metis hd_conv_nth)
  then have "Suc n \<le> i" "i - Suc n < length (tl ts')" "tl ts' ! (i - Suc n) = t"
    using ts' h(1) by (auto simp: nth_tl Suc_diff_Suc)
  then show ?case using h(3) by blast
qed



subsection \<open>Sleeping until a time\<close>

lemma mset_insert_sleeper: "mset (insert_sleeper x ys) = add_mset x (mset ys)"
  by (induction ys) auto

lemma sorted_insert_sleeper:
  "sorted_wrt (\<lambda>a b. fst a \<le> fst b) ys \<Longrightarrow> sorted_wrt (\<lambda>a b. fst a \<le> fst b) (insert_sleeper x ys)"
proof (induction ys)
  case (Cons y ys)
  have "set (insert_sleeper x ys) = insert x (set ys)"
    using mset_insert_sleeper [of x ys] by (metis set_mset_add_mset_insert set_mset_mset)
  with Cons show ?case by fastforce
qed simp

lemma due_sorted_filter:
  "mset (due now xs) = filter_mset (\<lambda>x. fst x \<le> now) (mset xs) \<and> sorted_wrt (\<lambda>a b. fst a \<le> fst b) (due now xs)"
proof -
  have "mset (fold insert_sleeper ys zs) = mset ys + mset zs \<and>
      (sorted_wrt (\<lambda>a b. fst a \<le> fst b) zs \<longrightarrow> sorted_wrt (\<lambda>a b. fst a \<le> fst b) (fold insert_sleeper ys zs))" for ys zs
    by (induction ys arbitrary: zs) (simp_all add: mset_insert_sleeper sorted_insert_sleeper)
  from this [of "filter (\<lambda>x. fst x \<le> now) xs" "[]"] show ?thesis by (simp add: due_def)
qed



end
