(* ===== verification/Ports.thy ===== *)
theory Ports
  imports Signals Queue_Interface "HOL-Library.Multiset"
begin

text \<open>
  Notification ports: \<open>kernel/src/port.rs\<close>.  A port is a queue of notifications and a queue of
  threads that found it empty.  \<open>KPort::wait\<close> is a loop around one critical section; the section
  is \<open>port_try_wait\<close>, and the loop is a thread that runs the section again after it was woken.
\<close>

record KPort =
  queue :: "PortNotification list"
  waiters :: "tref list"

definition port_new :: KPort where
  "port_new = \<lparr>queue = [], waiters = []\<rparr>"

text \<open>
  One pass of the loop of \<open>KPort::wait\<close> by thread \<open>t\<close>: a notification, or \<^term>\<open>None\<close> when the
  thread has been put to sleep in the queue of waiters.
\<close>

definition port_try_wait :: "tref \<Rightarrow> KPort \<Rightarrow> PortNotification option \<times> KPort" where
  "port_try_wait t p =
     (case queue p of
        n # ns \<Rightarrow> (Some n, p\<lparr>queue := ns\<rparr>)
      | [] \<Rightarrow> (None, p\<lparr>waiters := waiters p @ [t]\<rparr>))"

definition port_notify :: "PortNotification \<Rightarrow> KPort \<Rightarrow> KPort \<times> kevent list" where
  "port_notify n p =
     (let p' = p\<lparr>queue := queue p @ [n]\<rparr> in
      case waiters p' of
        [] \<Rightarrow> (p', [])
      | t # ts \<Rightarrow> (p'\<lparr>waiters := ts\<rparr>, [Wake t]))"

subsection \<open>Ports as first-in first-out queues\<close>

text \<open>
  The port refines the queue when the waiting thread is abstracted away: a failed
  \<open>port_try_wait\<close> only registers the thread.
\<close>

interpretation port_fifo: prompt_fifo queue "\<lambda>_. True" "\<lambda>n p. (True, fst (port_notify n p))"
    "port_try_wait t"
  for t
  by unfold_locales
     (auto simp: port_notify_def port_try_wait_def Let_def split: list.splits)

subsection \<open>No lost wake-up\<close>

text \<open>
  A port with the threads that use it.  \<open>retrying\<close> are the threads that \<open>notify\<close> has woken inside
  \<open>KPort::wait\<close> and that have not yet run the critical section again.  The steps interleave
  arbitrarily: any thread may start waiting, any woken thread may run, anyone may notify.
\<close>

record port_system =
  sys_port :: KPort
  retrying :: "tref multiset"
  delivered :: "(tref \<times> PortNotification) list"

definition port_system_init :: port_system where
  "port_system_init = \<lparr>sys_port = port_new, retrying = {#}, delivered = []\<rparr>"

fun woken :: "kevent list \<Rightarrow> tref multiset" where
  "woken [] = {#}"
| "woken (Wake t # evs) = add_mset t (woken evs)"
| "woken (Notify _ _ # evs) = woken evs"

definition port_section :: "tref \<Rightarrow> port_system \<Rightarrow> port_system" where
  "port_section t s =
     (let (r, p) = port_try_wait t (sys_port s) in
      s\<lparr>sys_port := p,
        delivered := delivered s @ (case r of None \<Rightarrow> [] | Some n \<Rightarrow> [(t, n)])\<rparr>)"

inductive port_step :: "port_system \<Rightarrow> port_system \<Rightarrow> bool" where
  Enter: "port_step s (port_section t s)"
| Retry: "t \<in># retrying s \<Longrightarrow> port_step s (port_section t (s\<lparr>retrying := retrying s - {#t#}\<rparr>))"
| Push: "(p, evs) = port_notify n (sys_port s) \<Longrightarrow>
     port_step s (s\<lparr>sys_port := p, retrying := retrying s + woken evs\<rparr>)"

inductive_cases port_stepE: "port_step s s'"

definition port_inv :: "port_system \<Rightarrow> bool" where
  "port_inv s \<longleftrightarrow>
     (waiters (sys_port s) \<noteq> [] \<longrightarrow> length (queue (sys_port s)) \<le> size (retrying s))"

lemma port_inv_section:
  assumes "length (queue (sys_port s)) \<le> Suc (size (retrying s)) \<or> waiters (sys_port s) = []"
  shows "port_inv (port_section t s)"
  using assms
  by (auto simp: port_inv_def port_section_def port_try_wait_def split: list.splits)

lemma port_inv_step:
  assumes "port_step s s'" "port_inv s"
  shows "port_inv s'"
  using assms(1)
proof cases
  case (Enter t)
  from assms(2) have "length (queue (sys_port s)) \<le> Suc (size (retrying s)) \<or> waiters (sys_port s) = []"
    by (auto simp: port_inv_def)
  then show ?thesis unfolding Enter by (rule port_inv_section)
next
  case (Retry t)
  then have "size (retrying s) = Suc (size (retrying s - {#t#}))"
    by (metis insert_DiffM size_add_mset)
  with assms(2) show ?thesis unfolding Retry
    by (intro port_inv_section) (auto simp: port_inv_def)
next
  case (Push p evs n)
  with assms(2) show ?thesis
    by (cases "waiters (sys_port s)") (auto simp: port_inv_def port_notify_def Let_def)
qed

lemma port_inv_reachable:
  assumes "port_step\<^sup>*\<^sup>* port_system_init s"
  shows "port_inv s"
  using assms
proof (induction rule: rtranclp_induct)
  case base
  then show ?case by (simp add: port_inv_def port_system_init_def port_new_def)
next
  case (step s s')
  then show ?case by (blast intro: port_inv_step)
qed

text \<open>
  C15.  A port loses no wake-up.  In every interleaving of waiting, woken and notifying threads, if a
  thread sleeps in the port while notifications are queued, then at least as many woken threads
  are on their way to collect them; so when no woken thread is left, either the queue is empty or
  nobody sleeps.
\<close>

theorem port_no_lost_wakeup:
  assumes "port_step\<^sup>*\<^sup>* port_system_init s"
  shows "(waiters (sys_port s) \<noteq> [] \<longrightarrow> length (queue (sys_port s)) \<le> size (retrying s)) \<and>
     (retrying s = {#} \<longrightarrow> queue (sys_port s) = [] \<or> waiters (sys_port s) = [])"
  using port_inv_reachable [OF assms] by (auto simp: port_inv_def)

lemma port_section_reach: "port_step\<^sup>*\<^sup>* port_system_init (port_section 4 port_system_init)"
  by (rule r_into_rtranclp) (rule Enter)

theorem port_no_lost_wakeup_witness:
  "waiters (sys_port (port_section 4 port_system_init)) = [4] \<and>
   queue (sys_port (port_section 4 port_system_init)) = []"
proof -
  have "waiters (sys_port (port_section 4 port_system_init)) = [4]"
      "retrying (port_section 4 port_system_init) = {#}"
    by (simp_all add: port_section_def port_system_init_def port_new_def port_try_wait_def)
  with port_no_lost_wakeup [OF port_section_reach] show ?thesis by simp
qed

fun port_run :: "tref \<Rightarrow> PortNotification option list \<Rightarrow> KPort \<Rightarrow> PortNotification list \<times> KPort" where
  "port_run t [] p = ([], p)"
| "port_run t (Some n # ops) p = port_run t ops (fst (port_notify n p))"
| "port_run t (None # ops) p =
     (let (r, p') = port_try_wait t p; (out, p'') = port_run t ops p'
      in ((case r of None \<Rightarrow> out | Some n \<Rightarrow> n # out), p''))"

lemma port_run_exec: "port_fifo.exec t ops p = ([n. Some n \<leftarrow> ops], port_run t ops p)"
proof (induction ops arbitrary: p)
  case (Cons opn ops)
  then show ?case by (cases opn) (simp_all add: split_beta)
qed simp

text \<open>
  C31.  A port delivers notifications in the order they were pushed: in every sequence of pushes
  (\<^term>\<open>Some n\<close>) and passes of \<open>KPort::wait\<close> (\<^term>\<open>None\<close>) on a new port, the notifications
  handed out followed by those still queued are exactly the ones pushed, in order.
\<close>

theorem port_delivers_in_order:
  "fst (port_run t ops port_new) @ queue (snd (port_run t ops port_new)) = [n. Some n \<leftarrow> ops]"
  using port_fifo.exec_order(1) [of t ops port_new "[n. Some n \<leftarrow> ops]"
      "fst (port_run t ops port_new)" "snd (port_run t ops port_new)"]
  by (simp add: port_run_exec port_new_def)

end
