(* ===== verification/Channels.thy ===== *)
theory Channels
  imports Signals Queue_Interface
begin

text \<open>
  Channels: \<open>kernel/src/channel.rs\<close>.  A channel is a pair of endpoints; each has its own queue of
  incoming messages and its own signals, and holds a weak reference to its peer.  The endpoints
  live in a store indexed by the numbers that stand for their \<open>Arc\<close>s.
\<close>

subsection \<open>Kernel values and messages\<close>

text \<open>The values of a reference table, \<open>KernelValue\<close> of \<open>scheduling/process.rs\<close>.\<close>

type_synonym cref = nat
type_synonym pref = nat
type_synonym iref = nat

datatype KernelValue =
    VMessage "u8 list"
  | VProcess pref
  | VChannel cref
  | VPort portref
  | VInterrupt iref

datatype KernelObjectType = KNone | KMessage | KProcess | KChannel | KPort | KInterrupt

definition object_type :: "KernelValue \<Rightarrow> KernelObjectType" where
  "object_type v =
     (case v of
        VMessage _ \<Rightarrow> KMessage
      | VProcess _ \<Rightarrow> KProcess
      | VChannel _ \<Rightarrow> KChannel
      | VPort _ \<Rightarrow> KPort
      | VInterrupt _ \<Rightarrow> KInterrupt)"

record ChannelMessage =
  msg_data :: "u8 list"
  msg_handles :: "KernelValue list option"

datatype ReadError = Empty | Closed | Size usize usize

subsection \<open>One endpoint\<close>

definition CHANNEL_CAPACITY :: usize where
  "CHANNEL_CAPACITY = 10000"

record KChannelInner =
  chan_signal :: KObjectSignal
  chan_open :: bool
  chan_queue :: "ChannelMessage list"

definition channel_default :: KChannelInner where
  "channel_default = \<lparr>chan_signal = signal_new, chan_open = True, chan_queue = []\<rparr>"

definition set_chan_signal ::
  "ObjectSignal \<Rightarrow> bool \<Rightarrow> KChannelInner \<Rightarrow> KChannelInner \<times> kevent list" where
  "set_chan_signal sig b c =
     (let (s, evs) = set_signal sig b (chan_signal c) in (c\<lparr>chan_signal := s\<rparr>, evs))"

text \<open>
  The critical sections of \<open>send\<close> (on the peer), \<open>read\<close> and the two halves of \<open>close\<close>.  \<open>send\<close>
  returns whether it delivered; \<open>close_self\<close> also returns the messages that \<open>queue.clear()\<close> drops.
\<close>

definition chan_send :: "ChannelMessage \<Rightarrow> KChannelInner \<Rightarrow> bool \<times> KChannelInner \<times> kevent list" where
  "chan_send msg c =
     (if \<not> chan_open c then (False, c, [])
      else if length (chan_queue c) > CHANNEL_CAPACITY then (False, c, [])
      else let (c', evs) = set_chan_signal READABLE True (c\<lparr>chan_queue := chan_queue c @ [msg]\<rparr>)
           in (True, c', evs))"

definition handles_len :: "ChannelMessage \<Rightarrow> usize" where
  "handles_len m = (case msg_handles m of None \<Rightarrow> 0 | Some hs \<Rightarrow> length hs)"

definition chan_read ::
  "usize \<Rightarrow> usize \<Rightarrow> KChannelInner \<Rightarrow> (ReadError + ChannelMessage) \<times> KChannelInner \<times> kevent list" where
  "chan_read max_bytes max_handles c =
     (case chan_queue c of
        [] \<Rightarrow> (Inl (if chan_open c then Empty else Closed), c, [])
      | packet # rest \<Rightarrow>
          if length (msg_data packet) > max_bytes \<or> handles_len packet > max_handles
          then (Inl (Size (length (msg_data packet)) (handles_len packet)), c, [])
          else let (c', evs) = set_chan_signal READABLE (rest \<noteq> []) (c\<lparr>chan_queue := rest\<rparr>)
               in (Inr packet, c', evs))"

definition close_self :: "KChannelInner \<Rightarrow> KChannelInner \<times> kevent list \<times> ChannelMessage list" where
  "close_self c =
     (let (c', evs) = set_chan_signal CHANNEL_CLOSED True (c\<lparr>chan_open := False\<rparr>)
      in (c'\<lparr>chan_queue := []\<rparr>, evs, chan_queue c))"

definition close_peer :: "KChannelInner \<Rightarrow> KChannelInner \<times> kevent list" where
  "close_peer c = set_chan_signal CHANNEL_CLOSED True (c\<lparr>chan_open := False\<rparr>)"

subsection \<open>Invariant of an endpoint\<close>

text \<open>
  While the owner can look at it, the endpoint is readable exactly when its queue is not empty, it
  shows \<open>CHANNEL_CLOSED\<close> exactly when it is closed, and nobody waits for a signal that is up.
\<close>

definition chan_inv :: "KChannelInner \<Rightarrow> bool" where
  "chan_inv c \<longleftrightarrow>
     signal_inv (chan_signal c) \<and>
     (intersects (signal_status (chan_signal c)) READABLE \<longleftrightarrow> chan_queue c \<noteq> []) \<and>
     (intersects (signal_status (chan_signal c)) CHANNEL_CLOSED \<longleftrightarrow> \<not> chan_open c) \<and>
     length (chan_queue c) \<le> Suc CHANNEL_CAPACITY"

lemma bit_flag: "n < 64 \<Longrightarrow> bit (push_bit n 1 :: ObjectSignal) m \<longleftrightarrow> m = n"
  by (auto simp: bit_simps)

lemma signal_bits [simp]:
  "bit READABLE n \<longleftrightarrow> n = 1" "bit CHANNEL_CLOSED n \<longleftrightarrow> n = 20"
  unfolding READABLE_def CHANNEL_CLOSED_def by (rule bit_flag, simp)+

lemma signal_all_bits [simp]: "bit signal_all n \<longleftrightarrow> n = 1 \<or> n = 20"
proof -
  have "PROCESS_EXITED = CHANNEL_CLOSED" by (simp only: PROCESS_EXITED_def CHANNEL_CLOSED_def)
  then show ?thesis by (simp only: signal_all_def bit_or_iff signal_bits) blast
qed

lemma status_after_set [simp]:
  "intersects (new_status sig True s) READABLE \<longleftrightarrow> intersects (signal_status s) READABLE \<or> bit sig 1"
  "intersects (new_status sig True s) CHANNEL_CLOSED \<longleftrightarrow>
     intersects (signal_status s) CHANNEL_CLOSED \<or> bit sig 20"
  "intersects (new_status sig False s) READABLE \<longleftrightarrow> intersects (signal_status s) READABLE \<and> \<not> bit sig 1"
  "intersects (new_status sig False s) CHANNEL_CLOSED \<longleftrightarrow>
     intersects (signal_status s) CHANNEL_CLOSED \<and> \<not> bit sig 20"
  by (auto simp: intersects_bit new_status_def bit_simps signal_not_def from_bits_truncate_def)

lemma signal_status_set_signal: "signal_status (fst (set_signal sig b s)) = new_status sig b s"
  by (simp add: new_status_def)

lemma set_chan_signal_simps [simp]:
  "signal_status (chan_signal (fst (set_chan_signal sig b c))) = new_status sig b (chan_signal c)"
  "chan_queue (fst (set_chan_signal sig b c)) = chan_queue c"
  "chan_open (fst (set_chan_signal sig b c)) = chan_open c"
  by (simp_all add: set_chan_signal_def split_beta signal_status_set_signal del: signal_status_set)

lemma signal_inv_set_chan [simp]:
  "signal_inv (chan_signal c) \<Longrightarrow> signal_inv (chan_signal (fst (set_chan_signal sig b c)))"
  by (simp add: set_chan_signal_def split_beta signal_inv_set)

lemma chan_inv_default [simp]: "chan_inv channel_default"
  by (simp add: chan_inv_def channel_default_def signal_new_def signal_inv_def intersects_def)

lemma chan_inv_send: "chan_inv c \<Longrightarrow> chan_send msg c = (ok, c', evs) \<Longrightarrow> chan_inv c'"
proof -
  assume inv: "chan_inv c" and send: "chan_send msg c = (ok, c', evs)"
  have "chan_inv (fst (snd (chan_send msg c)))"
    using inv by (auto simp: chan_inv_def chan_send_def split_beta Let_def)
  with send show ?thesis by simp
qed

lemma chan_inv_read: "chan_inv c \<Longrightarrow> chan_read mb mh c = (r, c', evs) \<Longrightarrow> chan_inv c'"
proof -
  assume inv: "chan_inv c" and read: "chan_read mb mh c = (r, c', evs)"
  have "chan_inv (fst (snd (chan_read mb mh c)))"
  proof (cases "chan_queue c")
    case Nil
    with inv show ?thesis by (simp add: chan_read_def)
  next
    case (Cons m ms)
    with inv show ?thesis
      by (cases "ms = []") (auto simp: chan_inv_def chan_read_def split_beta Let_def)
  qed
  with read show ?thesis by simp
qed

lemma chan_inv_close_peer: "chan_inv c \<Longrightarrow> chan_inv (fst (close_peer c))"
  by (simp add: chan_inv_def close_peer_def)

lemma chan_inv_wait:
  assumes "chan_inv c"
  shows "chan_inv (c\<lparr>chan_signal := snd (object_wait t m (chan_signal c))\<rparr>)"
    and "chan_inv (c\<lparr>chan_signal := fst (object_wait_port p k m (chan_signal c))\<rparr>)"
  using assms signal_inv_object_wait [of "chan_signal c" t m]
    signal_inv_object_wait_port [of "chan_signal c" p k m]
  by (auto simp: chan_inv_def object_wait_def object_wait_port_def signal_wait_def)

subsection \<open>First-in first-out order\<close>

interpretation chan_fifo: fifo chan_queue chan_inv
    "\<lambda>msg c. (fst (chan_send msg c), fst (snd (chan_send msg c)))"
    "\<lambda>c. (case fst (chan_read mb mh c) of Inl _ \<Rightarrow> None | Inr m \<Rightarrow> Some m, fst (snd (chan_read mb mh c)))"
  for mb mh
proof
  fix c :: KChannelInner and msg c'
  assume inv: "chan_inv c"
  show "chan_queue c' = chan_queue c @ [msg]"
    if "(fst (chan_send msg c), fst (snd (chan_send msg c))) = (True, c')"
    using that by (auto simp: chan_send_def split_beta Let_def split: if_splits)
  show "chan_queue c' = chan_queue c"
    if "(fst (chan_send msg c), fst (snd (chan_send msg c))) = (False, c')"
    using that by (auto simp: chan_send_def split_beta Let_def split: if_splits)
  show "chan_inv (snd (fst (chan_send msg c), fst (snd (chan_send msg c))))"
    using chan_inv_send [OF inv] by (cases "chan_send msg c") auto
next
  fix c :: KChannelInner and msg c'
  let ?d = "(case fst (chan_read mb mh c) of Inl _ \<Rightarrow> None | Inr m \<Rightarrow> Some m, fst (snd (chan_read mb mh c)))"
  assume inv: "chan_inv c"
  show "chan_queue c = msg # chan_queue c'" if "?d = (Some msg, c')"
    using that by (auto simp: chan_read_def split_beta Let_def split: if_splits list.splits sum.splits)
  show "chan_queue c' = chan_queue c" if "?d = (None, c')"
    using that by (auto simp: chan_read_def split_beta Let_def split: if_splits list.splits sum.splits)
  show "chan_inv (snd ?d)"
    using chan_inv_read [OF inv] by (cases "chan_read mb mh c") auto
qed

text \<open>A run of an endpoint: messages offered by the peer (\<open>Inl\<close>) and reads by the owner (\<open>Inr\<close>).\<close>

fun chan_run ::
  "(ChannelMessage + usize \<times> usize) list \<Rightarrow> KChannelInner \<Rightarrow>
     ChannelMessage list \<times> ChannelMessage list \<times> KChannelInner" where
  "chan_run [] c = ([], [], c)"
| "chan_run (Inl msg # ops) c =
     (let (ok, c', _) = chan_send msg c; (ins, outs, c'') = chan_run ops c'
      in (if ok then msg # ins else ins, outs, c''))"
| "chan_run (Inr (mb, mh) # ops) c =
     (let (r, c', _) = chan_read mb mh c; (ins, outs, c'') = chan_run ops c'
      in (ins, (case r of Inl _ \<Rightarrow> outs | Inr m \<Rightarrow> m # outs), c''))"

lemma chan_run_inv: "chan_inv c \<Longrightarrow> chan_inv (snd (snd (chan_run ops c)))"
proof (induction ops c rule: chan_run.induct)
  case (2 msg ops c)
  obtain ok c' evs where s: "chan_send msg c = (ok, c', evs)" by (cases "chan_send msg c")
  from "2.IH" [of "(ok, c', evs)" ok "(c', evs)" c' evs] chan_inv_send [OF "2.prems" s] s
  show ?case by (simp add: split_beta)
next
  case (3 mb mh ops c)
  obtain r c' evs where s: "chan_read mb mh c = (r, c', evs)" by (cases "chan_read mb mh c")
  from "3.IH" [of "(r, c', evs)" r "(c', evs)" c' evs] chan_inv_read [OF "3.prems" s] s
  show ?case by (simp add: split_beta)
qed simp

lemma chan_run_order:
  "chan_inv c \<Longrightarrow> fst (snd (chan_run ops c)) @ chan_queue (snd (snd (chan_run ops c))) =
     chan_queue c @ fst (chan_run ops c)"
proof (induction ops c rule: chan_run.induct)
  case (2 msg ops c)
  obtain ok c' evs where s: "chan_send msg c = (ok, c', evs)" by (cases "chan_send msg c")
  from "2.IH" [of "(ok, c', evs)" ok "(c', evs)" c' evs] chan_inv_send [OF "2.prems" s] s
    chan_fifo.enq_accept [OF "2.prems", of msg c'] chan_fifo.enq_refuse [OF "2.prems", of msg c']
  show ?case by (cases ok) (simp_all add: split_beta)
next
  case (3 mb mh ops c)
  obtain r c' evs where s: "chan_read mb mh c = (r, c', evs)" by (cases "chan_read mb mh c")
  from "3.IH" [of "(r, c', evs)" r "(c', evs)" c' evs] chan_inv_read [OF "3.prems" s] s
    chan_fifo.deq_Some [OF "3.prems", of mb mh _ c'] chan_fifo.deq_None [OF "3.prems", of mb mh c']
  show ?case by (cases r) (simp_all add: split_beta)
qed simp

text \<open>
  C17.  A channel delivers in order.  For every interleaving of sends and of reads with any buffer
  sizes, starting from a new channel, the messages read followed by the messages still queued are
  exactly the messages whose send reported success, in the order of the sends; and the endpoint
  shows \<open>READABLE\<close> exactly when a message is queued.
\<close>

theorem channel_delivers_in_order:
  "fst (snd (chan_run ops channel_default)) @ chan_queue (snd (snd (chan_run ops channel_default))) =
     fst (chan_run ops channel_default) \<and>
   (intersects (signal_status (chan_signal (snd (snd (chan_run ops channel_default))))) READABLE \<longleftrightarrow>
     chan_queue (snd (snd (chan_run ops channel_default))) \<noteq> [])"
proof -
  have "chan_queue channel_default = []" by (simp add: channel_default_def)
  with chan_run_order [OF chan_inv_default, of ops] chan_run_inv [OF chan_inv_default, of ops]
  show ?thesis unfolding chan_inv_def by simp
qed

subsection \<open>Capacity\<close>

lemma chan_send_accepts:
  "chan_open c \<Longrightarrow> length (chan_queue c) \<le> CHANNEL_CAPACITY \<Longrightarrow>
     fst (chan_send msg c) \<and> chan_open (fst (snd (chan_send msg c))) \<and>
     length (chan_queue (fst (snd (chan_send msg c)))) = Suc (length (chan_queue c))"
  by (simp add: chan_send_def split_beta Let_def)

lemma chan_fill:
  "chan_open c \<Longrightarrow> length (chan_queue c) + n \<le> Suc CHANNEL_CAPACITY \<Longrightarrow>
   (let (ins, outs, c') = chan_run (replicate n (Inl msg)) c in
      chan_open c' \<and> ins = replicate n msg \<and> length (chan_queue c') = length (chan_queue c) + n)"
proof (induction n arbitrary: c)
  case (Suc n)
  have acc: "fst (chan_send msg c) \<and> chan_open (fst (snd (chan_send msg c))) \<and>
     length (chan_queue (fst (snd (chan_send msg c)))) = Suc (length (chan_queue c))"
    using Suc.prems by (intro chan_send_accepts) auto
  with Suc.IH [of "fst (snd (chan_send msg c))"] Suc.prems(2) show ?case
    by (simp add: split_beta Let_def)
qed simp

text \<open>
  C36.  The capacity of a channel.  In every run from a new channel the queue holds at most
  \<open>CHANNEL_CAPACITY + 1\<close> messages; a send is refused exactly when the endpoint is closed or
  more than \<open>CHANNEL_CAPACITY\<close> messages are queued, and a refused send changes nothing; and the
  bound is reached: the first \<open>CHANNEL_CAPACITY + 1\<close> messages sent to a new channel are all
  accepted, one more than the constant says.
\<close>

theorem channel_capacity:
  "length (chan_queue (snd (snd (chan_run ops channel_default)))) \<le> Suc CHANNEL_CAPACITY \<and>
   (fst (chan_send msg c) \<longleftrightarrow> chan_open c \<and> length (chan_queue c) \<le> CHANNEL_CAPACITY) \<and>
   (fst (chan_send msg c) \<or> chan_send msg c = (False, c, [])) \<and>
   length (chan_queue (snd (snd (chan_run (replicate (Suc CHANNEL_CAPACITY) (Inl msg)) channel_default)))) =
     Suc CHANNEL_CAPACITY"
proof -
  have "chan_open channel_default" "chan_queue channel_default = []"
    by (simp_all add: channel_default_def)
  then have "length (chan_queue (snd (snd (chan_run (replicate (Suc CHANNEL_CAPACITY) (Inl msg))
      channel_default)))) = Suc CHANNEL_CAPACITY"
    using chan_fill [of channel_default "Suc CHANNEL_CAPACITY" msg] by (simp add: split_beta del: replicate_Suc)
  moreover have "length (chan_queue (snd (snd (chan_run ops channel_default)))) \<le> Suc CHANNEL_CAPACITY"
    using chan_run_inv [OF chan_inv_default, of ops] by (simp add: chan_inv_def)
  ultimately show ?thesis by (auto simp: chan_send_def split_beta Let_def)
qed

text \<open>
  Reading an endpoint.  With no message queued a read reports \<open>Empty\<close> on an open endpoint and
  \<open>Closed\<close> on a closed one; with a message queued, closed or not, it reports the sizes needed
  and keeps the message when the buffers are too small, and otherwise returns that message and
  leaves the rest, readable exactly while messages remain.  So the messages sent before the peer
  closed can still be drained.
\<close>

lemma channel_read_branches:
  assumes "chan_inv c" and "chan_read mb mh c = (r, c', evs)"
  shows "case chan_queue c of
      [] \<Rightarrow> r = Inl (if chan_open c then Empty else Closed) \<and> c' = c \<and> evs = []
    | m # ms \<Rightarrow>
        if length (msg_data m) > mb \<or> handles_len m > mh
        then r = Inl (Size (length (msg_data m)) (handles_len m)) \<and> c' = c \<and> evs = []
        else r = Inr m \<and> chan_queue c' = ms \<and> chan_open c' = chan_open c \<and>
             (intersects (signal_status (chan_signal c')) READABLE \<longleftrightarrow> ms \<noteq> [])"
proof (cases "chan_queue c")
  case Nil
  with assms(2) show ?thesis by (auto simp: chan_read_def)
next
  case (Cons m ms)
  have "chan_inv c'" using chan_inv_read [OF assms] .
  show ?thesis
  proof (cases "length (msg_data m) > mb \<or> handles_len m > mh")
    case True
    with assms(2) Cons show ?thesis by (auto simp: chan_read_def)
  next
    case False
    with assms(2) Cons have "r = Inr m"
        and c': "c' = fst (set_chan_signal READABLE (ms \<noteq> []) (c\<lparr>chan_queue := ms\<rparr>))"
      by (auto simp: chan_read_def split_beta Let_def)
    moreover have "intersects (signal_status (chan_signal c')) READABLE \<longleftrightarrow> ms \<noteq> []"
      using \<open>chan_inv c'\<close> unfolding chan_inv_def by (simp add: c')
    ultimately show ?thesis using Cons False by simp
  qed
qed

end
