(* ===== verification/Interrupts.thy ===== *)
theory Interrupts
  imports Signals
begin

text \<open>
  Interrupt objects: \<open>KInterruptHandle\<close> of \<open>kernel/src/interrupts/mod.rs\<close>.  Each operation is one
  critical section; \<open>uptime()\<close> is read inside it and is an argument here.
\<close>

datatype InterruptWaiter = NoWaiter | ThreadWaiter tref | PortWaiter portref u64

record KInterruptHandle =
  waiting_ack :: bool
  pending :: bool
  waiter :: InterruptWaiter

definition interrupt_new :: KInterruptHandle where
  "interrupt_new = \<lparr>waiting_ack = False, pending = False, waiter = NoWaiter\<rparr>"

definition interrupt_notification :: "u64 \<Rightarrow> nat \<Rightarrow> PortNotification" where
  "interrupt_notification k uptime = \<lparr>notif_key = k, notif_ty = Interrupt uptime\<rparr>"

definition trigger :: "nat \<Rightarrow> KInterruptHandle \<Rightarrow> KInterruptHandle \<times> kevent list" where
  "trigger uptime i =
     (if pending i \<or> waiting_ack i then (i\<lparr>pending := True\<rparr>, [])
      else case waiter i of
        NoWaiter \<Rightarrow> (i\<lparr>pending := True\<rparr>, [])
      | ThreadWaiter t \<Rightarrow> (i\<lparr>pending := True, waiter := NoWaiter\<rparr>, [Wake t])
      | PortWaiter p k \<Rightarrow> (i, [Notify p (interrupt_notification k uptime)]))"

text \<open>
  One pass of the loop of \<open>KInterruptHandle::wait\<close> by thread \<open>t\<close>: the error of \<open>kassert!\<close>, the
  result, or going to sleep as the registered waiter.
\<close>

datatype wait_result = WaitError | WaitDone | WaitBlock

definition interrupt_try_wait :: "tref \<Rightarrow> KInterruptHandle \<Rightarrow> wait_result \<times> KInterruptHandle" where
  "interrupt_try_wait t i =
     (if waiter i \<noteq> NoWaiter then (WaitError, i)
      else let i' = i\<lparr>waiting_ack := False\<rparr> in
        if pending i' then (WaitDone, i'\<lparr>pending := False\<rparr>)
        else (WaitBlock, i'\<lparr>waiter := ThreadWaiter t\<rparr>))"

definition set_port :: "nat \<Rightarrow> portref \<Rightarrow> u64 \<Rightarrow> KInterruptHandle \<Rightarrow> KInterruptHandle \<times> kevent list" where
  "set_port uptime p k i =
     (let (i', evs) =
        (if pending i \<and> \<not> waiting_ack i
         then (i\<lparr>waiting_ack := True\<rparr>, [Notify p (interrupt_notification k uptime)])
         else (i, []))
      in (i'\<lparr>waiter := PortWaiter p k\<rparr>, evs))"

definition ack :: "nat \<Rightarrow> KInterruptHandle \<Rightarrow> KInterruptHandle \<times> kevent list" where
  "ack uptime i =
     (let i' = i\<lparr>waiting_ack := False\<rparr> in
      if \<not> pending i' then (i', [])
      else let (w, evs) =
             (case waiter i' of
                NoWaiter \<Rightarrow> (NoWaiter, [])
              | ThreadWaiter t \<Rightarrow> (NoWaiter, [Wake t])
              | PortWaiter p k \<Rightarrow> (PortWaiter p k, [Notify p (interrupt_notification k uptime)]))
           in (i'\<lparr>waiter := w, waiting_ack := True\<rparr>, evs))"

lemmas interrupt_defs = trigger_def interrupt_try_wait_def set_port_def ack_def Let_def

subsection \<open>Reachable states\<close>

text \<open>
  The handle with the threads that wait on it: \<open>asleep\<close> are the threads blocked inside \<open>wait\<close>
  and not yet woken.
\<close>

datatype int_op = Trigger nat | Wait tref | SetPort nat portref u64 | Ack nat

fun woken_threads :: "kevent list \<Rightarrow> tref set" where
  "woken_threads [] = {}"
| "woken_threads (Wake t # evs) = insert t (woken_threads evs)"
| "woken_threads (Notify _ _ # evs) = woken_threads evs"

fun int_exec :: "int_op \<Rightarrow> KInterruptHandle \<times> tref set \<Rightarrow> (KInterruptHandle \<times> tref set) \<times> kevent list" where
  "int_exec (Trigger u) (i, asleep) =
     (let (i', evs) = trigger u i in ((i', asleep - woken_threads evs), evs))"
| "int_exec (Wait t) (i, asleep) =
     (case interrupt_try_wait t i of
        (WaitBlock, i') \<Rightarrow> ((i', insert t asleep), [])
      | (_, i') \<Rightarrow> ((i', asleep), []))"
| "int_exec (SetPort u p k) (i, asleep) =
     (let (i', evs) = set_port u p k i in ((i', asleep - woken_threads evs), evs))"
| "int_exec (Ack u) (i, asleep) =
     (let (i', evs) = ack u i in ((i', asleep - woken_threads evs), evs))"

inductive int_reach :: "KInterruptHandle \<times> tref set \<Rightarrow> bool" where
  Start: "int_reach (interrupt_new, {})"
| Step: "int_reach s \<Longrightarrow> int_reach (fst (int_exec opn s))"

text \<open>A handle on which \<open>set_port\<close> is never called, as the drivers that call \<open>wait\<close> use it.\<close>

inductive int_reach_threads :: "KInterruptHandle \<times> tref set \<Rightarrow> bool" where
  Start': "int_reach_threads (interrupt_new, {})"
| Step': "int_reach_threads s \<Longrightarrow> (\<nexists>u p k. opn = SetPort u p k) \<Longrightarrow> int_reach_threads (fst (int_exec opn s))"

definition int_inv :: "KInterruptHandle \<Rightarrow> bool" where
  "int_inv i \<longleftrightarrow>
     (case waiter i of
        ThreadWaiter t \<Rightarrow> \<not> pending i \<and> \<not> waiting_ack i
      | _ \<Rightarrow> True)"

lemma int_inv_exec: "int_inv (fst s) \<Longrightarrow> int_inv (fst (fst (int_exec opn s)))"
  by (cases s; cases opn)
     (auto simp: int_inv_def interrupt_defs split: InterruptWaiter.splits if_splits)

lemma int_inv_reach: "int_reach s \<Longrightarrow> int_inv (fst s)"
  by (induction rule: int_reach.induct)
     (simp_all add: int_inv_exec, simp add: int_inv_def interrupt_new_def)

text \<open>
  C32.  A thread waiting for an interrupt sleeps only while there is none.  In every reachable state
  of an interrupt object, if a thread is registered then no interrupt is pending and none awaits
  acknowledgement; the next trigger wakes that thread, clears the registration, and leaves the
  interrupt pending, so that when the thread runs again \<open>wait\<close> returns at once.
\<close>

theorem interrupt_wakes_waiter:
  assumes "int_reach (i, asleep)" and "waiter i = ThreadWaiter t"
  shows "\<not> pending i \<and> \<not> waiting_ack i \<and> snd (trigger u i) = [Wake t] \<and>
     fst (interrupt_try_wait t' (fst (trigger u i))) = WaitDone"
proof -
  have "int_inv i" using int_inv_reach [OF assms(1)] by simp
  with assms(2) show ?thesis by (simp add: int_inv_def interrupt_defs)
qed

theorem interrupt_wakes_waiter_witness:
  "waiter (snd (interrupt_try_wait 3 interrupt_new)) = ThreadWaiter 3 \<and>
   snd (trigger 9 (snd (interrupt_try_wait 3 interrupt_new))) = [Wake 3]"
proof -
  let ?i = "snd (interrupt_try_wait 3 interrupt_new)"
  have "int_reach (fst (int_exec (Wait 3) (interrupt_new, {})))" by (intro Step Start)
  then have "int_reach (?i, {3})" by (simp add: interrupt_try_wait_def interrupt_new_def)
  moreover have w: "waiter ?i = ThreadWaiter 3" by (simp add: interrupt_try_wait_def interrupt_new_def)
  ultimately show ?thesis using interrupt_wakes_waiter [of ?i "{3}" 3 9] by simp
qed

text \<open>The threads asleep are exactly the registered one, as long as no port takes its place.\<close>

definition threads_inv :: "KInterruptHandle \<times> tref set \<Rightarrow> bool" where
  "threads_inv s \<longleftrightarrow> int_inv (fst s) \<and>
     (case waiter (fst s) of
        NoWaiter \<Rightarrow> snd s = {}
      | ThreadWaiter t \<Rightarrow> snd s = {t}
      | PortWaiter _ _ \<Rightarrow> False)"

lemma threads_inv_exec:
  "threads_inv s \<Longrightarrow> (\<nexists>u p k. opn = SetPort u p k) \<Longrightarrow> threads_inv (fst (int_exec opn s))"
  by (cases s; cases opn)
     (auto simp: threads_inv_def int_inv_def interrupt_defs split: InterruptWaiter.splits if_splits)

lemma threads_inv_reach: "int_reach_threads s \<Longrightarrow> threads_inv s"
proof (induction rule: int_reach_threads.induct)
  case Start'
  then show ?case by (simp add: threads_inv_def interrupt_new_def int_inv_def)
next
  case (Step' s opn)
  then show ?case by (blast intro: threads_inv_exec)
qed

text \<open>
  C37.  On a handle used through \<open>wait\<close> alone no sleeper is forgotten: every thread asleep in \<open>wait\<close>
  is the registered waiter, which the next trigger wakes.  A call of \<open>set_port\<close> breaks this: it
  replaces the registered thread without waking it, which then sleeps and is registered nowhere.
\<close>

theorem interrupt_sleepers_registered:
  "(int_reach_threads (i, asleep) \<longrightarrow> t \<in> asleep \<longrightarrow> waiter i = ThreadWaiter t) \<and>
   (let s = fst (int_exec (SetPort u p k) (fst (int_exec (Wait t) (interrupt_new, {}))))
    in t \<in> snd s \<and> (\<forall>t'. waiter (fst s) \<noteq> ThreadWaiter t'))"
proof (intro conjI impI)
  assume "int_reach_threads (i, asleep)" "t \<in> asleep"
  with threads_inv_reach [of "(i, asleep)"] show "waiter i = ThreadWaiter t"
    by (cases "waiter i") (auto simp: threads_inv_def)
qed (simp add: interrupt_defs interrupt_new_def)

theorem interrupt_sleepers_registered_witness:
  "waiter (snd (interrupt_try_wait 3 interrupt_new)) = ThreadWaiter 3"
proof -
  have "int_reach_threads (fst (int_exec (Wait 3) (interrupt_new, {})))"
    by (rule Step' [OF Start']) simp
  then have "int_reach_threads (snd (interrupt_try_wait 3 interrupt_new), {3})"
    by (simp add: interrupt_try_wait_def interrupt_new_def)
  with interrupt_sleepers_registered [of "snd (interrupt_try_wait 3 interrupt_new)" "{3}" 3 0 0 0]
  show ?thesis by simp
qed

text \<open>A port registered while an interrupt is pending is notified again by every acknowledgement.\<close>

fun ack_times :: "nat \<Rightarrow> nat \<Rightarrow> KInterruptHandle \<Rightarrow> KInterruptHandle \<times> kevent list" where
  "ack_times uptime 0 i = (i, [])"
| "ack_times uptime (Suc n) i =
     (let (i', evs) = ack uptime i; (i'', evs') = ack_times uptime n i' in (i'', evs @ evs'))"

lemma ack_repeats:
  "pending i \<Longrightarrow> waiter i = PortWaiter p k \<Longrightarrow>
     snd (ack_times u n i) = replicate n (Notify p (interrupt_notification k u))"
  by (induction n arbitrary: i) (simp_all add: split_beta ack_def Let_def)

text \<open>
  C38.  One pending interrupt is delivered without end.  If an interrupt was triggered before the port
  was set, \<open>set_port\<close> notifies the port once, and then each acknowledgement notifies it again
  although nothing was triggered in between: \<open>n\<close> acknowledgements of one interrupt make
  \<open>n + 1\<close> notifications, because no operation on the port's path clears \<open>pending\<close>.
\<close>

theorem interrupt_ack_repeats:
  "let i = fst (trigger u interrupt_new); (i', evs) = set_port u p k i in
   snd (ack_times u n i') = replicate n (Notify p (interrupt_notification k u)) \<and>
   evs = [Notify p (interrupt_notification k u)]"
  by (simp add: ack_repeats trigger_def interrupt_new_def set_port_def Let_def)

end
