(* ===== verification/Paging.thy ===== *)
theory Paging
  imports Prelude
begin

text \<open>
  Pages and page ranges: \<open>kernel/src/paging/page.rs\<close> and the constants and address conversions of
  \<open>kernel/src/paging/mod.rs\<close>.  A \<open>Page<S>\<close> is its address; the checks of \<open>Page::new\<close> are
  \<open>page_new\<close>.
\<close>

subsection \<open>Page sizes and pages\<close>

datatype page_size = Size4KB | Size2MB | Size1GB

definition page_shift :: "page_size \<Rightarrow> nat" where
  "page_shift S = (case S of Size4KB \<Rightarrow> 12 | Size2MB \<Rightarrow> 21 | Size1GB \<Rightarrow> 30)"

definition PAGE_SIZE :: "page_size \<Rightarrow> nat" where
  "PAGE_SIZE S = (case S of Size4KB \<Rightarrow> 0x1000 | Size2MB \<Rightarrow> 0x200000 | Size1GB \<Rightarrow> 0x40000000)"

lemma PAGE_SIZE_shift: "PAGE_SIZE S = 2 ^ page_shift S"
  by (cases S) (simp_all add: PAGE_SIZE_def page_shift_def)

type_synonym page = nat

definition page_new :: "page_size \<Rightarrow> nat \<Rightarrow> page option" where
  "page_new S address = do {
     rassert (low_bits (page_shift S) address = 0);
     let lvl4 = low_bits 9 (shr 39 address);
     let sign = shr 48 address;
     rassert (sign = 0 \<and> lvl4 \<le> 255 \<or> sign = 0xFFFF \<and> lvl4 > 255);
     rassert (address \<noteq> 0);
     Some address
   }"

definition page_containing :: "page_size \<Rightarrow> nat \<Rightarrow> page option" where
  "page_containing S address = page_new S (clear_low (page_shift S) address)"

text \<open>The addresses that \<open>Page::new\<close> accepts: aligned, not zero and canonical.\<close>

definition canonical :: "nat \<Rightarrow> bool" where
  "canonical a \<longleftrightarrow> a < 2 ^ 47 \<or> (2 ^ 64 - 2 ^ 47 \<le> a \<and> a < 2 ^ 64)"

lemma sign_zero_iff: "shr 48 a = 0 \<and> low_bits 9 (shr 39 a) \<le> 255 \<longleftrightarrow> a < 2 ^ 47"
proof
  assume "shr 48 a = 0 \<and> low_bits 9 (shr 39 a) \<le> 255"
  then have lt: "a < 2 ^ 48" and le: "(a div 2 ^ 39) mod 512 \<le> 255"
    by (simp_all add: shr_def low_bits_def div_eq_0_iff)
  have "a div 2 ^ 39 < 512" using lt by (simp add: less_mult_imp_div_less)
  with le have "a div 2 ^ 39 < 256" by simp
  then show "a < 2 ^ 47" by simp
next
  assume lt: "a < 2 ^ 47"
  then have "a div 2 ^ 39 < 256" by (simp add: less_mult_imp_div_less)
  with lt show "shr 48 a = 0 \<and> low_bits 9 (shr 39 a) \<le> 255"
    by (simp add: shr_def low_bits_def)
qed

lemma sign_ones_iff:
  assumes "a < 2 ^ 64"
  shows "shr 48 a = 0xFFFF \<and> low_bits 9 (shr 39 a) > 255 \<longleftrightarrow> 2 ^ 64 - 2 ^ 47 \<le> a"
proof -
  define q where "q = a div 2 ^ 39"
  have q48: "shr 48 a = q div 512" by (simp add: shr_def q_def div_mult2_eq [symmetric])
  have q39: "low_bits 9 (shr 39 a) = q mod 512" by (simp add: shr_def low_bits_def q_def)
  have lim: "q < 2 ^ 25" using assms by (simp add: q_def less_mult_imp_div_less)
  have "2 ^ 64 - 2 ^ 47 \<le> a \<longleftrightarrow> 2 ^ 25 - 2 ^ 8 \<le> q"
    using less_eq_div_iff_mult_less_eq [of "2 ^ 39" "2 ^ 25 - 2 ^ 8" a] by (simp add: q_def)
  moreover have "q div 512 = 0xFFFF \<and> q mod 512 > 255 \<longleftrightarrow> 2 ^ 25 - 2 ^ 8 \<le> q"
  proof -
    obtain d r where "q = 512 * d + r" "r < 512" "q div 512 = d" "q mod 512 = r"
      by (metis mod_less_divisor mult_div_mod_eq zero_less_numeral)
    with lim have "d \<le> 65535" by simp
    then consider "d = 65535" | "d \<le> 65534" by linarith
    then show ?thesis using \<open>q = 512 * d + r\<close> \<open>r < 512\<close> \<open>q div 512 = d\<close> \<open>q mod 512 = r\<close> by cases auto
  qed
  ultimately show ?thesis by (simp only: q48 q39)
qed

lemma page_new_Some:
  assumes "a < 2 ^ 64"
  shows "page_new S a = Some p \<longleftrightarrow> p = a \<and> PAGE_SIZE S dvd a \<and> canonical a \<and> a \<noteq> 0"
proof -
  have "(shr 48 a = 0 \<and> low_bits 9 (shr 39 a) \<le> 255 \<or> shr 48 a = 0xFFFF \<and> low_bits 9 (shr 39 a) > 255)
      \<longleftrightarrow> canonical a"
    using sign_zero_iff [of a] sign_ones_iff [OF assms] assms unfolding canonical_def by blast
  then show ?thesis
    unfolding page_new_def PAGE_SIZE_shift low_bits_0_iff [symmetric] Let_def
    by (auto simp: bind_eq_Some_conv)
qed

subsection \<open>Address constants\<close>

definition EndUserMem :: nat where "EndUserMem = 0x0000FFFFFFFFFFFF"
definition PerCpuMem :: nat where "PerCpuMem = 0xffffAC0000000000"
definition PhysMapOffset :: nat where "PhysMapOffset = 0xffffE00000000000"
definition EndPhysMapOffset :: nat where "EndPhysMapOffset = 0xffffEFFFFFFFFFFF"
definition KernelHeap :: nat where "KernelHeap = 0xffffFF0000000000"
definition KernelStart :: nat where "KernelStart = 0xffffFF8000000000"

definition virt_addr_for_phys :: "nat \<Rightarrow> nat \<Rightarrow> nat option" where
  "virt_addr_for_phys mem_offset phys = add_usize phys mem_offset"

definition phys_addr_for_virt :: "nat \<Rightarrow> nat \<Rightarrow> nat option" where
  "phys_addr_for_virt mem_offset virt = sub_usize virt mem_offset"

lemma phys_virt_roundtrip:
  "virt_addr_for_phys off p = Some v \<Longrightarrow> phys_addr_for_virt off v = Some p"
  by (auto simp: virt_addr_for_phys_def phys_addr_for_virt_def rust_arith)

subsection \<open>Page ranges\<close>

record PageRange =
  range_base :: nat
  range_count :: nat

definition page_range_new :: "nat \<Rightarrow> nat \<Rightarrow> PageRange" where
  "page_range_new base count = \<lparr>range_base = base, range_count = count\<rparr>"

definition page_range_empty :: PageRange where
  "page_range_empty = page_range_new 0 0"

text \<open>\<open>Iterator::next\<close>, and the list of pages of the whole iteration.\<close>

definition page_range_next :: "page_size \<Rightarrow> PageRange \<Rightarrow> (page option \<times> PageRange) option" where
  "page_range_next S r =
     (if range_count r > 0 then do {
        res \<leftarrow> page_new S (range_base r);
        base \<leftarrow> add_usize (range_base r) (PAGE_SIZE S);
        Some (Some res, \<lparr>range_base = base, range_count = range_count r - 1\<rparr>)
      } else Some (None, r))"

function page_range_pages :: "page_size \<Rightarrow> PageRange \<Rightarrow> page list option" where
  "page_range_pages S r = do {
     (p, r') \<leftarrow> page_range_next S r;
     case p of
       None \<Rightarrow> Some []
     | Some pg \<Rightarrow> do { pgs \<leftarrow> page_range_pages S r'; Some (pg # pgs) }
   }"
  by pat_completeness auto

termination
  by (relation "measure (\<lambda>(S, r). range_count r)")
     (auto simp: page_range_next_def bind_eq_Some_conv split: if_splits)

declare page_range_pages.simps [simp del]

lemma page_range_pages_eq:
  assumes "\<And>i. i < n \<Longrightarrow> page_new S (base + i * PAGE_SIZE S) = Some (base + i * PAGE_SIZE S)"
    and "base + n * PAGE_SIZE S < usize_bound"
  shows "page_range_pages S \<lparr>range_base = base, range_count = n\<rparr> =
     Some (map (\<lambda>i. base + i * PAGE_SIZE S) [0 ..< n])"
  using assms
proof (induction n arbitrary: base)
  case 0
  then show ?case by (simp add: page_range_pages.simps page_range_next_def)
next
  case (Suc n)
  have "page_new S (base + PAGE_SIZE S + i * PAGE_SIZE S) = Some (base + PAGE_SIZE S + i * PAGE_SIZE S)"
    if "i < n" for i
    using Suc.prems(1) [of "Suc i"] that by (simp add: ac_simps)
  with Suc.IH [of "base + PAGE_SIZE S"] Suc.prems(2)
  have "page_range_pages S \<lparr>range_base = base + PAGE_SIZE S, range_count = n\<rparr> =
     Some (map (\<lambda>i. base + PAGE_SIZE S + i * PAGE_SIZE S) [0 ..< n])"
    by (simp add: ac_simps)
  moreover have "map (\<lambda>i. base + i * PAGE_SIZE S) [0 ..< Suc n] =
      base # map (\<lambda>i. base + PAGE_SIZE S + i * PAGE_SIZE S) [0 ..< n]"
    by (simp only: upt_conv_Cons [OF zero_less_Suc] map_Suc_upt [symmetric])
       (simp add: ac_simps comp_def)
  moreover have "page_new S base = Some base" using Suc.prems(1) [of 0] by simp
  ultimately show ?case
    using Suc.prems(2)
    by (simp add: page_range_pages.simps [of S "\<lparr>range_base = base, range_count = Suc n\<rparr>"]
        page_range_next_def add_usize_def)
qed

subsection \<open>Splitting a range into large pages\<close>

record chunks =
  s4kb :: PageRange
  s2mb :: PageRange
  gb :: PageRange
  e2mb :: PageRange
  e4kb :: PageRange

text \<open>
  The four normalisation steps have two shapes.  \<open>align_start\<close> cuts the part of \<open>[start, stop)\<close>
  below the next multiple of \<open>2 ^ n\<close> off the front, \<open>align_end\<close> the part above the last one off
  the back; the range cut off is counted in pages of \<open>2 ^ k\<close> bytes.
\<close>

definition align_start :: "bool \<Rightarrow> nat \<Rightarrow> page_size \<Rightarrow> nat \<Rightarrow> nat \<Rightarrow> (PageRange \<times> nat) option" where
  "align_start nonempty n S start stop =
     (if low_bits n start > 0 \<and> (nonempty \<longrightarrow> start \<noteq> stop) then do {
        next_bound \<leftarrow> add_usize (clear_low n start) (2 ^ n);
        let new_start = min next_bound stop;
        len \<leftarrow> sub_usize new_start start;
        Some (page_range_new start (len div PAGE_SIZE S), new_start)
      } else Some (page_range_empty, start))"

definition align_end :: "nat \<Rightarrow> page_size \<Rightarrow> nat \<Rightarrow> nat \<Rightarrow> (PageRange \<times> nat) option" where
  "align_end n S start stop =
     (if low_bits n stop > 0 \<and> start \<noteq> stop then do {
        let new_end = max (clear_low n stop) start;
        len \<leftarrow> sub_usize stop new_end;
        Some (page_range_new new_end (len div PAGE_SIZE S), new_end)
      } else Some (page_range_empty, stop))"

definition get_chunked_page_range :: "nat \<Rightarrow> nat \<Rightarrow> chunks option" where
  "get_chunked_page_range start stop = do {
     rassert (low_bits 12 start = 0);
     rassert (low_bits 12 stop = 0);
     (r1, start1) \<leftarrow> align_start False 21 Size4KB start stop;
     (r5, stop1) \<leftarrow> align_end 21 Size4KB start1 stop;
     (r2, start2) \<leftarrow> align_start True 30 Size2MB start1 stop1;
     (r4, stop2) \<leftarrow> align_end 30 Size2MB start2 stop1;
     r3 \<leftarrow> (if start2 < stop2 \<and> start2 \<noteq> stop2 then do {
              len \<leftarrow> sub_usize stop2 start2;
              Some (page_range_new start2 (len div PAGE_SIZE Size1GB))
            } else Some page_range_empty);
     Some \<lparr>s4kb = r1, s2mb = r2, gb = r3, e2mb = r4, e4kb = r5\<rparr>
   }"

text \<open>The bytes of a range of pages, and what it means to be a range from \<open>a\<close> to \<open>b\<close>.\<close>

definition range_bytes :: "page_size \<Rightarrow> PageRange \<Rightarrow> nat set" where
  "range_bytes S r = {range_base r ..< range_base r + range_count r * PAGE_SIZE S}"

definition covers :: "page_size \<Rightarrow> PageRange \<Rightarrow> nat \<Rightarrow> nat \<Rightarrow> bool" where
  "covers S r a b \<longleftrightarrow>
     (if range_count r = 0 then a = b
      else range_base r = a \<and> a + range_count r * PAGE_SIZE S = b \<and> PAGE_SIZE S dvd a)"

lemma covers_bytes: "covers S r a b \<Longrightarrow> range_bytes S r = {a ..< b}"
  by (auto simp: covers_def range_bytes_def split: if_splits)

lemma covers_le: "covers S r a b \<Longrightarrow> a \<le> b"
  by (auto simp: covers_def split: if_splits)

lemma covers_count: "covers S r a b \<Longrightarrow> range_count r * PAGE_SIZE S = b - a"
  by (auto simp: covers_def split: if_splits)

lemma covers_new:
  assumes "a \<le> b" "PAGE_SIZE S dvd a" "PAGE_SIZE S dvd b"
  shows "covers S (page_range_new a ((b - a) div PAGE_SIZE S)) a b"
proof -
  have "PAGE_SIZE S dvd b - a" using assms by (simp add: dvd_diff_nat)
  then have eq: "(b - a) div PAGE_SIZE S * PAGE_SIZE S = b - a" by simp
  show ?thesis
  proof (cases "(b - a) div PAGE_SIZE S = 0")
    case True
    with eq assms(1) have "a = b" by simp
    with True show ?thesis by (simp add: covers_def page_range_new_def)
  next
    case False
    with eq assms show ?thesis by (simp add: covers_def page_range_new_def)
  qed
qed

lemma covers_empty [simp]: "covers S page_range_empty a a"
  by (simp add: covers_def page_range_empty_def page_range_new_def)

lemma PAGE_SIZE_dvd_pow: "page_shift S \<le> n \<Longrightarrow> PAGE_SIZE S dvd 2 ^ n"
  by (simp add: PAGE_SIZE_shift le_imp_power_dvd)

lemma dvd_clear_low: "page_shift S \<le> n \<Longrightarrow> PAGE_SIZE S dvd clear_low n x"
  by (rule dvd_trans [OF PAGE_SIZE_dvd_pow clear_low_dvd])

lemma align_start_covers:
  assumes "start \<le> stop" "PAGE_SIZE S dvd start" "PAGE_SIZE S dvd stop" "page_shift S \<le> n"
    and "stop + 2 ^ n \<le> usize_bound"
  shows "\<exists>r start'. align_start ne n S start stop = Some (r, start') \<and> covers S r start start' \<and>
     start \<le> start' \<and> start' \<le> stop \<and> PAGE_SIZE S dvd start' \<and> (2 ^ n dvd start' \<or> start' = stop)"
proof (cases "low_bits n start > 0 \<and> (ne \<longrightarrow> start \<noteq> stop)")
  case False
  then have "2 ^ n dvd start \<or> start = stop" by (auto simp: low_bits_0_iff [symmetric])
  with False assms show ?thesis by (auto simp: align_start_def)
next
  case True
  define nb where "nb = clear_low n start + 2 ^ n"
  have "clear_low n start < start"
    using True clear_low_plus_low_bits [of n start] by simp
  then have "nb < usize_bound" using assms(1,5) by (simp add: nb_def)
  have "start < nb" using less_clear_low_Suc [of start n] by (simp add: nb_def)
  have al: "2 ^ n dvd nb" by (simp add: nb_def)
  have "PAGE_SIZE S dvd nb" using PAGE_SIZE_dvd_pow [OF assms(4)] al by (rule dvd_trans)
  then have "PAGE_SIZE S dvd min nb stop" "2 ^ n dvd min nb stop \<or> min nb stop = stop"
      "start \<le> min nb stop" "min nb stop \<le> stop"
    using assms(1,3) al \<open>start < nb\<close> by (auto simp: min_def)
  moreover from this have "covers S (page_range_new start ((min nb stop - start) div PAGE_SIZE S)) start (min nb stop)"
    using assms(2) by (intro covers_new)
  moreover have "align_start ne n S start stop =
      Some (page_range_new start ((min nb stop - start) div PAGE_SIZE S), min nb stop)"
    using True \<open>nb < usize_bound\<close> \<open>start < nb\<close> assms(1)
    by (simp add: align_start_def nb_def [symmetric] add_usize_def sub_usize_def Let_def)
  ultimately show ?thesis by blast
qed

lemma align_end_covers:
  assumes "start \<le> stop" "PAGE_SIZE S dvd start" "PAGE_SIZE S dvd stop" "page_shift S \<le> n"
    and "2 ^ n dvd start \<or> start = stop"
  shows "\<exists>r stop'. align_end n S start stop = Some (r, stop') \<and> covers S r stop' stop \<and>
     start \<le> stop' \<and> stop' \<le> stop \<and> PAGE_SIZE S dvd stop' \<and> (2 ^ n dvd stop' \<or> start = stop')"
proof (cases "low_bits n stop > 0 \<and> start \<noteq> stop")
  case False
  then have "2 ^ n dvd stop \<or> start = stop" by (auto simp: low_bits_0_iff [symmetric])
  with False assms show ?thesis by (auto simp: align_end_def)
next
  case True
  define ne where "ne = max (clear_low n stop) start"
  have "start \<le> ne" "ne \<le> stop" "PAGE_SIZE S dvd ne" "2 ^ n dvd ne \<or> start = ne"
    using assms dvd_clear_low [OF assms(4), of stop] by (auto simp: ne_def max_def)
  moreover from this have "covers S (page_range_new ne ((stop - ne) div PAGE_SIZE S)) ne stop"
    using assms(3) by (intro covers_new)
  moreover have "align_end n S start stop = Some (page_range_new ne ((stop - ne) div PAGE_SIZE S), ne)"
    using True \<open>ne \<le> stop\<close> by (simp add: align_end_def ne_def [symmetric] sub_usize_def Let_def)
  ultimately show ?thesis by blast
qed

lemma chunked_covers:
  assumes "start \<le> stop" "0x1000 dvd start" "0x1000 dvd stop" "stop + 2 ^ 30 \<le> usize_bound"
  shows "\<exists>c a b d e. get_chunked_page_range start stop = Some c \<and>
     covers Size4KB (s4kb c) start a \<and> covers Size2MB (s2mb c) a b \<and> covers Size1GB (gb c) b d \<and>
     covers Size2MB (e2mb c) d e \<and> covers Size4KB (e4kb c) e stop"
proof -
  have k: "PAGE_SIZE Size4KB = 0x1000" "PAGE_SIZE Size2MB = 2 ^ 21" "PAGE_SIZE Size1GB = 2 ^ 30"
    by (simp_all add: PAGE_SIZE_def)
  obtain r1 s1 where 1: "align_start False 21 Size4KB start stop = Some (r1, s1)" "covers Size4KB r1 start s1"
      "s1 \<le> stop" "PAGE_SIZE Size4KB dvd s1" "2 ^ 21 dvd s1 \<or> s1 = stop"
    using align_start_covers [of start stop Size4KB 21 False] assms by (auto simp: k page_shift_def)
  obtain r5 e1 where 5: "align_end 21 Size4KB s1 stop = Some (r5, e1)" "covers Size4KB r5 e1 stop"
      "s1 \<le> e1" "e1 \<le> stop" "2 ^ 21 dvd e1 \<or> s1 = e1"
    using align_end_covers [of s1 stop Size4KB 21] 1 assms by (auto simp: k page_shift_def)
  have al1: "2 ^ 21 dvd s1 \<and> 2 ^ 21 dvd e1 \<or> s1 = e1"
    using 1(3,5) 5(3,4,5) by auto
  obtain r2 s2 where 2: "align_start True 30 Size2MB s1 e1 = Some (r2, s2)" "covers Size2MB r2 s1 s2"
      "s2 \<le> e1" "2 ^ 30 dvd s2 \<or> s2 = e1" "2 ^ 21 dvd s2 \<or> s2 = e1"
  proof (cases "s1 = e1")
    case True
    then show ?thesis using that [of page_range_empty s1] by (simp add: align_start_def)
  next
    case False
    with al1 show ?thesis
      using align_start_covers [of s1 e1 Size2MB 30 True] 5 assms(4) that
      by (auto simp: k page_shift_def)
  qed
  obtain r4 e2 where 4: "align_end 30 Size2MB s2 e1 = Some (r4, e2)" "covers Size2MB r4 e2 e1"
      "s2 \<le> e2" "2 ^ 30 dvd e2 \<or> s2 = e2"
  proof (cases "s2 = e1")
    case True
    then show ?thesis using that [of page_range_empty e1] by (simp add: align_end_def)
  next
    case False
    then have "s1 \<noteq> e1" using 2(3) covers_le [OF 2(2)] by simp
    with al1 False show ?thesis
      using align_end_covers [of s2 e1 Size2MB 30] 2 that by (auto simp: k page_shift_def)
  qed
  have 3: "covers Size1GB (if s2 < e2 then page_range_new s2 ((e2 - s2) div PAGE_SIZE Size1GB) else page_range_empty) s2 e2"
  proof (cases "s2 < e2")
    case True
    with 2(4) 4(4) covers_le [OF 4(2)] have "PAGE_SIZE Size1GB dvd s2" "PAGE_SIZE Size1GB dvd e2"
      by (auto simp: k)
    with True covers_new [of s2 e2 Size1GB] show ?thesis by simp
  next
    case False
    with 4(3) have "s2 = e2" by simp
    then show ?thesis by simp
  qed
  have "get_chunked_page_range start stop = Some \<lparr>s4kb = r1, s2mb = r2,
      gb = (if s2 < e2 then page_range_new s2 ((e2 - s2) div PAGE_SIZE Size1GB) else page_range_empty),
      e2mb = r4, e4kb = r5\<rparr>"
    using assms(2,3) 1(1) 5(1) 2(1) 4(1)
    by (simp add: get_chunked_page_range_def low_bits_0_iff sub_usize_def)
  with 1(2) 2(2) 3 4(2) 5(2) show ?thesis by (auto intro!: exI)
qed

text \<open>
  C24.  Splitting a range into large pages.  For page-aligned bounds \<open>start \<le> stop\<close> (and no overflow
  past the end of the address space) \<open>get_chunked_page_range\<close> returns five ranges that cover
  exactly the bytes of \<open>[start, stop)\<close>, without overlap (their sizes add up to the length), in
  increasing order of address, each aligned to its page size.
\<close>

theorem chunked_range_partition:
  assumes "start \<le> stop" "0x1000 dvd start" "0x1000 dvd stop" "stop + 2 ^ 30 \<le> 2 ^ 64"
  shows "\<exists>c. get_chunked_page_range start stop = Some c \<and>
     range_bytes Size4KB (s4kb c) \<union> range_bytes Size2MB (s2mb c) \<union> range_bytes Size1GB (gb c) \<union>
       range_bytes Size2MB (e2mb c) \<union> range_bytes Size4KB (e4kb c) = {start ..< stop} \<and>
     range_count (s4kb c) * 0x1000 + range_count (s2mb c) * 0x200000 + range_count (gb c) * 0x40000000 +
       range_count (e2mb c) * 0x200000 + range_count (e4kb c) * 0x1000 = stop - start \<and>
     (\<forall>(S, r) \<in> {(Size4KB, s4kb c), (Size2MB, s2mb c), (Size1GB, gb c), (Size2MB, e2mb c), (Size4KB, e4kb c)}.
        range_count r > 0 \<longrightarrow> PAGE_SIZE S dvd range_base r)"
proof -
  from chunked_covers [OF assms] obtain c a b d e where c: "get_chunked_page_range start stop = Some c"
    and cov: "covers Size4KB (s4kb c) start a" "covers Size2MB (s2mb c) a b" "covers Size1GB (gb c) b d"
      "covers Size2MB (e2mb c) d e" "covers Size4KB (e4kb c) e stop" by blast
  note le = cov [THEN covers_le]
  have "range_bytes Size4KB (s4kb c) \<union> range_bytes Size2MB (s2mb c) \<union> range_bytes Size1GB (gb c) \<union>
       range_bytes Size2MB (e2mb c) \<union> range_bytes Size4KB (e4kb c) = {start ..< stop}"
    using cov [THEN covers_bytes] le by (auto simp: ivl_disj_un_two)
  moreover have "range_count (s4kb c) * 0x1000 + range_count (s2mb c) * 0x200000 +
       range_count (gb c) * 0x40000000 + range_count (e2mb c) * 0x200000 +
       range_count (e4kb c) * 0x1000 = stop - start"
    using cov [THEN covers_count] le by (simp add: PAGE_SIZE_def)
  moreover have "PAGE_SIZE S dvd range_base r" if "covers S r x y" "range_count r > 0" for S r x y
    using that by (auto simp: covers_def)
  ultimately show ?thesis using c cov by auto
qed

theorem chunked_range_partition_witness:
  "\<exists>c. get_chunked_page_range 0x1ff000 0x40201000 = Some c \<and>
     range_bytes Size4KB (s4kb c) \<union> range_bytes Size2MB (s2mb c) \<union> range_bytes Size1GB (gb c) \<union>
       range_bytes Size2MB (e2mb c) \<union> range_bytes Size4KB (e4kb c) = {0x1ff000 ..< 0x40201000}"
  using chunked_range_partition [of "0x1ff000" "0x40201000"] by (auto simp: dvd_def)

end
