(* ===== verification/Frame_Allocator.thy ===== *)
theory Frame_Allocator
  imports Paging "HOL-Library.Multiset"
begin

text \<open>
  The physical frame allocator: \<open>kernel/src/paging/page_allocator.rs\<close>, with the constants of
  \<open>kernel/src/memory.rs\<close>.  The free lists are threaded through the first bytes of the free pages;
  here each is the list of the bases it links, head first.  Nothing reads the fields \<open>order\<close> and
  \<open>prev_node\<close> that the code stores in the pages.
\<close>

datatype MemoryType = CONVENTIONAL | OtherMemory nat

record MemoryDescriptor =
  desc_ty :: MemoryType
  phys_start :: nat
  page_count :: nat

definition RESERVED_32BIT_MEM_PAGES :: nat where
  "RESERVED_32BIT_MEM_PAGES = 32"

definition MAX_ORDER :: nat where
  "MAX_ORDER = 18"

record PageFrameAllocator =
  free_lists :: "nat \<Rightarrow> nat list"
  reserved_32bit :: "nat list"
  captured_0x8000 :: bool
  total_free :: nat

record AllocatedPageOrder =
  order :: nat
  base :: nat

definition pages_in_order :: "nat \<Rightarrow> nat" where
  "pages_in_order k = 2 ^ k"

definition insert_free_of_order :: "nat \<Rightarrow> nat \<Rightarrow> PageFrameAllocator \<Rightarrow> PageFrameAllocator" where
  "insert_free_of_order b k a = a\<lparr>free_lists := (free_lists a)(k := b # free_lists a k)\<rparr>"

text \<open>The order that one iteration of \<open>insert_free_of_range\<close> picks.\<close>

definition range_order :: "nat \<Rightarrow> nat \<Rightarrow> nat option" where
  "range_order start_addr pages_left = do {
     pages_order \<leftarrow> ilog2 pages_left;
     address_order \<leftarrow> ilog2 (start_addr div 0x1000);
     Some (min (min pages_order address_order) MAX_ORDER)
   }"

lemma range_order_le: "range_order s n = Some k \<Longrightarrow> 2 ^ k \<le> n \<and> 0 < n \<and> k \<le> MAX_ORDER"
proof -
  assume r: "range_order s n = Some k"
  then have n: "0 < n" and k: "k \<le> floor_log2 n" "k \<le> MAX_ORDER"
    by (auto simp: range_order_def ilog2_def bind_eq_Some_conv split: if_splits)
  have "(2::nat) ^ k \<le> 2 ^ floor_log2 n" using k(1) by (rule power_increasing) simp
  also have "\<dots> \<le> n" using n by (rule floor_log2_le)
  finally show ?thesis using n k(2) by simp
qed

function insert_free_of_range :: "nat \<Rightarrow> nat \<Rightarrow> PageFrameAllocator \<Rightarrow> PageFrameAllocator option" where
  "insert_free_of_range start_addr pages_left a =
     (if pages_left = 0 then Some a
      else do {
        k \<leftarrow> range_order start_addr pages_left;
        let a1 = insert_free_of_order start_addr k a;
        pages_left1 \<leftarrow> sub_usize pages_left (pages_in_order k);
        bytes \<leftarrow> mul_usize (pages_in_order k) 0x1000;
        start1 \<leftarrow> add_usize start_addr bytes;
        insert_free_of_range start1 pages_left1 a1
      })"
  by pat_completeness auto

termination
  by (relation "measure (\<lambda>(s, n, a). n)")
     (auto simp: pages_in_order_def rust_arith dest!: range_order_le)

declare insert_free_of_range.simps [simp del]

function request_page_of_order ::
  "nat \<Rightarrow> PageFrameAllocator \<Rightarrow> (AllocatedPageOrder option \<times> PageFrameAllocator) option" where
  "request_page_of_order k a =
     (if k > MAX_ORDER then Some (None, a)
      else case free_lists a k of
        block # rest \<Rightarrow>
          Some (Some \<lparr>order = k, base = block\<rparr>, a\<lparr>free_lists := (free_lists a)(k := rest)\<rparr>)
      | [] \<Rightarrow> do {
          (large, a1) \<leftarrow> request_page_of_order (k + 1) a;
          case large of
            None \<Rightarrow> Some (None, a1)
          | Some large_block \<Rightarrow> do {
              start \<leftarrow> add_usize (base large_block) (pages_in_order k * 0x1000);
              a2 \<leftarrow> insert_free_of_range start (pages_in_order (k + 1) - pages_in_order k) a1;
              Some (Some \<lparr>order = k, base = base large_block\<rparr>, a2)
            }
        })"
  by pat_completeness auto

termination
  by (relation "measure (\<lambda>(k, a). Suc MAX_ORDER - k)") auto

declare request_page_of_order.simps [simp del]

definition free_32bit_reserved_page :: "nat \<Rightarrow> PageFrameAllocator \<Rightarrow> PageFrameAllocator" where
  "free_32bit_reserved_page p a = a\<lparr>reserved_32bit := p # reserved_32bit a\<rparr>"

definition free_page_of_order :: "AllocatedPageOrder \<Rightarrow> PageFrameAllocator \<Rightarrow> PageFrameAllocator" where
  "free_page_of_order pages a = insert_free_of_order (base pages) (order pages) a"

definition frame_free_page :: "page \<Rightarrow> PageFrameAllocator \<Rightarrow> PageFrameAllocator" where
  "frame_free_page p a = insert_free_of_order p 0 a"

definition allocate_page :: "PageFrameAllocator \<Rightarrow> (page option \<times> PageFrameAllocator) option" where
  "allocate_page a = do {
     (r, a1) \<leftarrow> request_page_of_order 0 a;
     case r of
       None \<Rightarrow> Some (None, a1)
     | Some block \<Rightarrow> do { p \<leftarrow> page_new Size4KB (base block); Some (Some p, a1) }
   }"

definition allocate_page_32bit :: "PageFrameAllocator \<Rightarrow> (page option \<times> PageFrameAllocator) option" where
  "allocate_page_32bit a =
     (case reserved_32bit a of
        [] \<Rightarrow> Some (None, a)
      | block # rest \<Rightarrow> do {
          p \<leftarrow> page_new Size4KB block;
          Some (Some p, a\<lparr>reserved_32bit := rest\<rparr>)
        })"

definition allocate_pages :: "nat \<Rightarrow> PageFrameAllocator \<Rightarrow> (page option \<times> PageFrameAllocator) option" where
  "allocate_pages n a = do {
     k \<leftarrow> ilog2 n;
     (r, a1) \<leftarrow>
       (if pages_in_order k = n then do {
          (r, a1) \<leftarrow> request_page_of_order k a;
          Some (map_option base r, a1)
        } else do {
          (large, a1) \<leftarrow> request_page_of_order (k + 1) a;
          case large of
            None \<Rightarrow> Some (None, a1)
          | Some large_block \<Rightarrow> do {
              start \<leftarrow> add_usize (base large_block) (n * 0x1000);
              a2 \<leftarrow> insert_free_of_range start (pages_in_order (k + 1) - n) a1;
              Some (Some (base large_block), a2)
            }
        });
     case r of
       None \<Rightarrow> Some (None, a1)
     | Some b \<Rightarrow> do { p \<leftarrow> page_new Size4KB b; Some (Some p, a1) }
   }"

fun frame_free_pages_from :: "nat \<Rightarrow> page \<Rightarrow> nat \<Rightarrow> PageFrameAllocator \<Rightarrow> PageFrameAllocator option" where
  "frame_free_pages_from i p 0 a = Some a"
| "frame_free_pages_from i p (Suc n) a = do {
     q \<leftarrow> page_new Size4KB (p + i * 0x1000);
     frame_free_pages_from (Suc i) p n (frame_free_page q a)
   }"

definition frame_free_pages :: "page \<Rightarrow> nat \<Rightarrow> PageFrameAllocator \<Rightarrow> PageFrameAllocator option" where
  "frame_free_pages p n a = frame_free_pages_from 0 p n a"

text \<open>\<open>PageFrameAllocator::new\<close>: the loop that captures the reserved pages, then the rest.\<close>

definition capture_entry ::
  "nat \<Rightarrow> MemoryDescriptor \<Rightarrow> PageFrameAllocator \<Rightarrow> (nat \<times> PageFrameAllocator) option" where
  "capture_entry free_found entry a = do {
     bytes \<leftarrow> mul_usize (page_count entry) 0x1000;
     stop \<leftarrow> add_usize (phys_start entry) bytes;
     let has_8000 = (phys_start entry \<le> 0x8000 \<and> 0x8000 < stop);
     let a1 = (if has_8000 then a\<lparr>captured_0x8000 := True\<rparr> else a);
     pages \<leftarrow> (if has_8000 then sub_usize (page_count entry) 1 else Some (page_count entry));
     let taken_amount = min pages (RESERVED_32BIT_MEM_PAGES - free_found);
     let found = free_found + taken_amount;
     let a2 = fold free_32bit_reserved_page
       (filter (\<lambda>p. p \<noteq> 0x8000) (take taken_amount (step_by 0x1000 (phys_start entry) stop))) a1;
     if found = RESERVED_32BIT_MEM_PAGES then do {
       let amount_left = page_count entry - taken_amount;
       total \<leftarrow> add_usize (total_free a2) amount_left;
       a3 \<leftarrow> insert_free_of_range (phys_start entry + taken_amount * 0x1000) amount_left
         (a2\<lparr>total_free := total\<rparr>);
       Some (found, a3)
     } else Some (found, a2)
   }"

primrec capture_reserved ::
  "MemoryDescriptor list \<Rightarrow> nat \<Rightarrow> PageFrameAllocator \<Rightarrow> (MemoryDescriptor list \<times> PageFrameAllocator) option" where
  "capture_reserved [] free_found a = None"
| "capture_reserved (entry # rest) free_found a = do {
     (found, a1) \<leftarrow> capture_entry free_found entry a;
     if found = RESERVED_32BIT_MEM_PAGES then Some (rest, a1) else capture_reserved rest found a1
   }"

primrec insert_entries :: "MemoryDescriptor list \<Rightarrow> PageFrameAllocator \<Rightarrow> PageFrameAllocator option" where
  "insert_entries [] a = Some a"
| "insert_entries (entry # rest) a = do {
     total \<leftarrow> add_usize (total_free a) (page_count entry);
     a1 \<leftarrow> insert_free_of_range (phys_start entry) (page_count entry) (a\<lparr>total_free := total\<rparr>);
     insert_entries rest a1
   }"

definition frame_allocator_empty :: PageFrameAllocator where
  "frame_allocator_empty =
     \<lparr>free_lists = (\<lambda>_. []), reserved_32bit = [], captured_0x8000 = False, total_free = 0\<rparr>"

definition frame_allocator_new :: "MemoryDescriptor list \<Rightarrow> PageFrameAllocator option" where
  "frame_allocator_new mmap = do {
     let free = filter (\<lambda>e. desc_ty e = CONVENTIONAL) mmap;
     (rest, a) \<leftarrow> capture_reserved free 0 frame_allocator_empty;
     insert_entries rest a
   }"

subsection \<open>The frames that an allocator holds\<close>

definition range_pages :: "nat \<Rightarrow> nat \<Rightarrow> nat multiset" where
  "range_pages b n = mset (map (\<lambda>i. b + i * 0x1000) [0 ..< n])"

definition free_frames :: "PageFrameAllocator \<Rightarrow> nat multiset" where
  "free_frames a = (\<Sum>k \<le> MAX_ORDER. \<Sum>b \<in># mset (free_lists a k). range_pages b (2 ^ k))"

lemma range_pages_0 [simp]: "range_pages b 0 = {#}"
  by (simp add: range_pages_def)

lemma range_pages_Suc: "range_pages b (Suc n) = add_mset (b + n * 0x1000) (range_pages b n)"
  by (simp add: range_pages_def)

lemma range_pages_add: "range_pages b (m + n) = range_pages b m + range_pages (b + m * 0x1000) n"
  by (induction n) (simp_all add: range_pages_Suc add_mult_distrib)

lemma in_range_pages: "p \<in># range_pages b n \<longleftrightarrow> (\<exists>i < n. p = b + i * 0x1000)"
  by (auto simp: range_pages_def)

lemma count_range_pages: "count (range_pages b n) p \<le> 1"
proof -
  have "distinct (map (\<lambda>i. b + i * 0x1000) [0 ..< n])" by (simp add: distinct_map inj_on_def)
  then show ?thesis unfolding range_pages_def distinct_count_atmost_1 by simp
qed

lemma free_frames_update:
  assumes "k \<le> MAX_ORDER"
  shows "free_frames (a\<lparr>free_lists := (free_lists a)(k := bs)\<rparr>) + (\<Sum>b \<in># mset (free_lists a k). range_pages b (2 ^ k)) =
    free_frames a + (\<Sum>b \<in># mset bs. range_pages b (2 ^ k))"
proof -
  let ?f = "\<lambda>l k. \<Sum>b \<in># mset (l k). range_pages b (2 ^ k)"
  have "(\<Sum>j \<le> MAX_ORDER. ?f ((free_lists a)(k := bs)) j) = ?f ((free_lists a)(k := bs)) k +
      (\<Sum>j \<in> {.. MAX_ORDER} - {k}. ?f ((free_lists a)(k := bs)) j)"
    using assms by (intro sum.remove) auto
  moreover have "(\<Sum>j \<le> MAX_ORDER. ?f (free_lists a) j) = ?f (free_lists a) k +
      (\<Sum>j \<in> {.. MAX_ORDER} - {k}. ?f (free_lists a) j)"
    using assms by (intro sum.remove) auto
  moreover have "(\<Sum>j \<in> {.. MAX_ORDER} - {k}. ?f ((free_lists a)(k := bs)) j) =
      (\<Sum>j \<in> {.. MAX_ORDER} - {k}. ?f (free_lists a) j)"
    by (rule sum.cong) auto
  ultimately show ?thesis by (simp add: free_frames_def)
qed

lemma free_frames_other [simp]:
  "free_frames (a\<lparr>total_free := t\<rparr>) = free_frames a"
  "free_frames (a\<lparr>reserved_32bit := r\<rparr>) = free_frames a"
  "free_frames (a\<lparr>captured_0x8000 := c\<rparr>) = free_frames a"
  by (simp_all add: free_frames_def)

lemma free_frames_insert:
  assumes "k \<le> MAX_ORDER"
  shows "free_frames (insert_free_of_order b k a) = range_pages b (2 ^ k) + free_frames a"
  using free_frames_update [OF assms, of a "b # free_lists a k"]
  by (simp add: insert_free_of_order_def)

lemma free_frames_pop:
  assumes "k \<le> MAX_ORDER" "free_lists a k = b # bs"
  shows "free_frames a = range_pages b (2 ^ k) + free_frames (a\<lparr>free_lists := (free_lists a)(k := bs)\<rparr>)"
  using free_frames_update [OF assms(1), of a bs] by (simp add: assms(2) add.commute eq_commute)

lemma insert_order_reserved [simp]: "reserved_32bit (insert_free_of_order b k a) = reserved_32bit a"
  by (simp add: insert_free_of_order_def)

text \<open>Putting a range back terminates, does not panic, and adds exactly the pages of the range.\<close>

lemma insert_range_frames:
  assumes "0x1000 \<le> s \<or> n = 0" "s + n * 0x1000 < usize_bound"
  shows "\<exists>a'. insert_free_of_range s n a = Some a' \<and> free_frames a' = range_pages s n + free_frames a \<and>
     reserved_32bit a' = reserved_32bit a"
  using assms
proof (induction n arbitrary: s a rule: less_induct)
  case (less n)
  show ?case
  proof (cases "n = 0")
    case True
    then show ?thesis by (simp add: insert_free_of_range.simps)
  next
    case False
    with less.prems have "s div 0x1000 \<noteq> 0" by auto
    with False obtain k where k: "range_order s n = Some k"
      by (auto simp: range_order_def ilog2_def)
    note le = range_order_le [OF k]
    define a1 where "a1 = insert_free_of_order s k a"
    have step: "insert_free_of_range s n a = insert_free_of_range (s + 2 ^ k * 0x1000) (n - 2 ^ k) a1"
      using False k le less.prems(2)
      by (simp add: insert_free_of_range.simps [of s n a] a1_def pages_in_order_def
          sub_usize_def mul_usize_def add_usize_def)
    have "s + 2 ^ k * 0x1000 + (n - 2 ^ k) * 0x1000 = s + n * 0x1000"
      using le by (simp add: algebra_simps)
    with less.IH [of "n - 2 ^ k" "s + 2 ^ k * 0x1000" a1] less.prems le obtain a' where
      "insert_free_of_range (s + 2 ^ k * 0x1000) (n - 2 ^ k) a1 = Some a'"
      "free_frames a' = range_pages (s + 2 ^ k * 0x1000) (n - 2 ^ k) + free_frames a1"
      "reserved_32bit a' = reserved_32bit a1" by auto
    moreover have "range_pages s n = range_pages s (2 ^ k) + range_pages (s + 2 ^ k * 0x1000) (n - 2 ^ k)"
      using range_pages_add [of s "2 ^ k" "n - 2 ^ k"] le by simp
    ultimately show ?thesis
      using step le by (simp add: a1_def free_frames_insert)
  qed
qed

definition frame_ok :: "nat \<Rightarrow> bool" where
  "frame_ok p \<longleftrightarrow> 0x1000 dvd p \<and> 0x1000 \<le> p \<and> p + 0x1000 \<le> 2 ^ 47"

definition frames_ok :: "PageFrameAllocator \<Rightarrow> bool" where
  "frames_ok a \<longleftrightarrow> (\<forall>p. p \<in># free_frames a \<longrightarrow> frame_ok p)"

lemma block_ok:
  assumes "\<forall>p. p \<in># range_pages b n \<longrightarrow> frame_ok p" "0 < n"
  shows "0x1000 \<le> b" "b + n * 0x1000 \<le> 2 ^ 47" "frame_ok b"
proof -
  have "b \<in># range_pages b n" "b + (n - 1) * 0x1000 \<in># range_pages b n"
    using assms(2) by (auto simp: in_range_pages intro: exI [of _ 0] exI [of _ "n - 1"])
  then have "frame_ok b" "frame_ok (b + (n - 1) * 0x1000)" using assms(1) by blast+
  then show "0x1000 \<le> b" "b + n * 0x1000 \<le> 2 ^ 47" "frame_ok b"
    using assms(2) by (auto simp: frame_ok_def algebra_simps diff_mult_distrib)
qed

lemma frame_ok_page_new: "frame_ok p \<Longrightarrow> page_new Size4KB p = Some p"
  by (subst page_new_Some) (auto simp: frame_ok_def PAGE_SIZE_def canonical_def)

lemma request_frames:
  "frames_ok a \<Longrightarrow> \<exists>r a'. request_page_of_order k a = Some (r, a') \<and> reserved_32bit a' = reserved_32bit a \<and>
     (case r of
        None \<Rightarrow> a' = a
      | Some blk \<Rightarrow> order blk = k \<and> free_frames a = range_pages (base blk) (2 ^ k) + free_frames a')"
proof (induction k a rule: request_page_of_order.induct)
  case (1 k a)
  show ?case
  proof (cases "k > MAX_ORDER")
    case True
    then show ?thesis by (simp add: request_page_of_order.simps)
  next
    case False
    show ?thesis
    proof (cases "free_lists a k")
      case (Cons b bs)
      with False free_frames_pop [of k a b bs] show ?thesis
        by (simp add: request_page_of_order.simps)
    next
      case Nil
      from "1.IH" [OF False Nil "1.prems"] obtain r a1 where
        r: "request_page_of_order (k + 1) a = Some (r, a1)" "reserved_32bit a1 = reserved_32bit a"
          "case r of None \<Rightarrow> a1 = a | Some blk \<Rightarrow>
             order blk = k + 1 \<and> free_frames a = range_pages (base blk) (2 ^ (k + 1)) + free_frames a1"
        by blast
      show ?thesis
      proof (cases r)
        case None
        with r Nil False show ?thesis by (simp add: request_page_of_order.simps [of k a])
      next
        case (Some blk)
        define b where "b = base blk"
        have fr: "free_frames a = range_pages b (2 ^ k) + range_pages (b + 2 ^ k * 0x1000) (2 ^ k) + free_frames a1"
          using r(3) Some range_pages_add [of b "2 ^ k" "2 ^ k"] by (simp add: b_def mult_2)
        have "\<forall>p. p \<in># range_pages b (2 ^ k + 2 ^ k) \<longrightarrow> frame_ok p"
          using "1.prems" fr by (simp add: frames_ok_def range_pages_add)
        from block_ok [OF this] have b: "0x1000 \<le> b" "b + (2 ^ k + 2 ^ k) * 0x1000 \<le> 2 ^ 47" by auto
        then obtain a2 where "insert_free_of_range (b + 2 ^ k * 0x1000) (2 ^ k) a1 = Some a2"
            "free_frames a2 = range_pages (b + 2 ^ k * 0x1000) (2 ^ k) + free_frames a1"
            "reserved_32bit a2 = reserved_32bit a1"
          using insert_range_frames [of "b + 2 ^ k * 0x1000" "2 ^ k" a1] by (auto simp: algebra_simps)
        with r Some Nil False b fr show ?thesis
          by (simp add: request_page_of_order.simps [of k a] pages_in_order_def b_def [symmetric]
              add_usize_def ac_simps)
      qed
    qed
  qed
qed

lemma request_None:
  "request_page_of_order k a = Some (None, a') \<Longrightarrow> k \<le> j \<Longrightarrow> j \<le> MAX_ORDER \<Longrightarrow> free_lists a j = []"
proof (induction k a rule: request_page_of_order.induct)
  case (1 k a)
  have k: "\<not> k > MAX_ORDER" using "1.prems"(2,3) by simp
  with "1.prems"(1) have nil: "free_lists a k = []"
    by (cases "free_lists a k") (simp_all add: request_page_of_order.simps [of k a])
  with k "1.prems"(1) have "request_page_of_order (k + 1) a = Some (None, a')"
    by (auto simp: request_page_of_order.simps [of k a] bind_eq_Some_conv split: option.splits)
  with "1.IH" [OF k nil] "1.prems"(2,3) nil show ?case by (cases "j = k") auto
qed

lemma no_free_frames: "(\<And>j. j \<le> MAX_ORDER \<Longrightarrow> free_lists a j = []) \<Longrightarrow> free_frames a = {#}"
  by (simp add: free_frames_def)

subsection \<open>The contract of a page allocator\<close>

text \<open>The trait \<open>PageAllocator\<close>: what its clients rely on.\<close>

locale page_allocator =
  fixes alloc :: "'a \<Rightarrow> (page option \<times> 'a) option"
    and free :: "page \<Rightarrow> 'a \<Rightarrow> 'a"
    and avail :: "'a \<Rightarrow> page multiset"
    and inv :: "'a \<Rightarrow> bool"
    and ok :: "page \<Rightarrow> bool"
  assumes alloc_total: "inv a \<Longrightarrow> \<exists>r a'. alloc a = Some (r, a')"
    and alloc_Some: "inv a \<Longrightarrow> alloc a = Some (Some p, a') \<Longrightarrow> avail a = add_mset p (avail a') \<and> inv a'"
    and alloc_None: "inv a \<Longrightarrow> alloc a = Some (None, a') \<Longrightarrow> avail a = {#} \<and> a' = a"
    and free_avail: "avail (free p a) = add_mset p (avail a)"
    and free_inv: "inv a \<Longrightarrow> ok p \<Longrightarrow> p \<notin># avail a \<Longrightarrow> inv (free p a)"
    and avail_once: "inv a \<Longrightarrow> p \<in># avail a \<Longrightarrow> ok p \<and> count (avail a) p = 1"
begin

lemma alloc_fresh:
  assumes "inv a" "alloc a = Some (Some p, a')"
  shows "p \<notin># avail a'" "ok p" "p \<in># avail a"
proof -
  have eq: "avail a = add_mset p (avail a')" using alloc_Some [OF assms] by simp
  then show in_a: "p \<in># avail a" by simp
  from avail_once [OF assms(1) in_a] eq show "p \<notin># avail a'" "ok p"
    by (simp_all add: not_in_iff)
qed

lemma alloc_free:
  assumes "inv a" "alloc a = Some (Some p, a')"
  shows "inv (free p a')" "avail (free p a') = avail a"
  using alloc_fresh [OF assms] alloc_Some [OF assms] by (auto simp: free_avail intro: free_inv)

fun alloc_many :: "nat \<Rightarrow> 'a \<Rightarrow> (page list \<times> 'a) option" where
  "alloc_many 0 a = Some ([], a)"
| "alloc_many (Suc n) a = do {
     (r, a') \<leftarrow> alloc a;
     case r of
       None \<Rightarrow> Some ([], a')
     | Some p \<Rightarrow> do { (ps, a'') \<leftarrow> alloc_many n a'; Some (p # ps, a'') }
   }"

lemma alloc_many:
  "inv a \<Longrightarrow> \<exists>ps a'. alloc_many n a = Some (ps, a') \<and> avail a = mset ps + avail a' \<and> inv a' \<and>
     distinct ps \<and> (length ps = n \<or> avail a' = {#})"
proof (induction n arbitrary: a)
  case (Suc n)
  from alloc_total [OF Suc.prems] obtain r a1 where r: "alloc a = Some (r, a1)" by blast
  show ?case
  proof (cases r)
    case None
    with r alloc_None [OF Suc.prems] Suc.prems show ?thesis by auto
  next
    case (Some p)
    with r alloc_Some [OF Suc.prems] have a1: "avail a = add_mset p (avail a1)" "inv a1" by auto
    from Suc.IH [OF a1(2)] obtain ps a' where "alloc_many n a1 = Some (ps, a')"
        "avail a1 = mset ps + avail a'" "inv a'" "distinct ps" "length ps = n \<or> avail a' = {#}" by blast
    moreover have "p \<notin># avail a1" using alloc_fresh [OF Suc.prems] r Some by simp
    ultimately show ?thesis using r Some a1 by auto
  qed
qed simp

end

definition frame_inv :: "PageFrameAllocator \<Rightarrow> bool" where
  "frame_inv a \<longleftrightarrow> (\<forall>p. p \<in># free_frames a \<longrightarrow> frame_ok p \<and> count (free_frames a) p = 1)"

lemma frame_inv_ok: "frame_inv a \<Longrightarrow> frames_ok a"
  by (simp add: frame_inv_def frames_ok_def)

lemma frame_inv_subset:
  assumes "frame_inv a" "free_frames a = X + free_frames a'"
  shows "frame_inv a'"
  unfolding frame_inv_def
proof (intro allI impI)
  fix p
  assume p: "p \<in># free_frames a'"
  with assms have "frame_ok p" "count X p + count (free_frames a') p = 1"
    by (auto simp: frame_inv_def)
  moreover have "count (free_frames a') p \<noteq> 0" using p by (simp add: not_in_iff [symmetric])
  ultimately show "frame_ok p \<and> count (free_frames a') p = 1" by linarith
qed

lemma free_frames_free [simp]: "free_frames (frame_free_page p a) = add_mset p (free_frames a)"
  by (simp add: frame_free_page_def free_frames_insert range_pages_def)

lemma allocate_page_frames:
  assumes "frame_inv a"
  shows "\<exists>r a'. allocate_page a = Some (r, a') \<and> reserved_32bit a' = reserved_32bit a \<and>
     (case r of None \<Rightarrow> a' = a \<and> free_frames a = {#} | Some p \<Rightarrow> free_frames a = add_mset p (free_frames a'))"
proof -
  from request_frames [OF frame_inv_ok [OF assms], of 0] obtain r a' where
    r: "request_page_of_order 0 a = Some (r, a')" "reserved_32bit a' = reserved_32bit a"
      "case r of None \<Rightarrow> a' = a | Some blk \<Rightarrow> order blk = 0 \<and> free_frames a = range_pages (base blk) (2 ^ 0) + free_frames a'"
    by blast
  show ?thesis
  proof (cases r)
    case None
    then have "free_frames a = {#}" using request_None [of 0 a a'] r(1) by (intro no_free_frames) auto
    with r None show ?thesis by (simp add: allocate_page_def)
  next
    case (Some blk)
    then have fr: "free_frames a = add_mset (base blk) (free_frames a')"
      using r(3) by (simp add: range_pages_def)
    then have "frame_ok (base blk)" using assms by (simp add: frame_inv_def)
    with r Some fr show ?thesis by (simp add: allocate_page_def frame_ok_page_new)
  qed
qed

interpretation frames: page_allocator allocate_page frame_free_page free_frames frame_inv frame_ok
proof
  fix a p a'
  assume inv: "frame_inv a"
  note al = allocate_page_frames [OF inv]
  show "\<exists>r a'. allocate_page a = Some (r, a')" using al by blast
  show "free_frames a = add_mset p (free_frames a') \<and> frame_inv a'" if "allocate_page a = Some (Some p, a')"
    using al that frame_inv_subset [OF inv, of "{#p#}" a'] by auto
  show "free_frames a = {#} \<and> a' = a" if "allocate_page a = Some (None, a')" using al that by auto
  show "frame_inv (frame_free_page p a)" if "frame_ok p" "p \<notin># free_frames a"
    using inv that by (auto simp: frame_inv_def not_in_iff)
  show "frame_ok p \<and> count (free_frames a) p = 1" if "p \<in># free_frames a"
    using inv that by (simp add: frame_inv_def)
qed simp

lemma allocate_pages_frames:
  assumes inv: "frame_inv a" and "0 < n" "n \<le> 2 ^ MAX_ORDER"
  shows "\<exists>r a'. allocate_pages n a = Some (r, a') \<and>
     (case r of None \<Rightarrow> a' = a | Some p \<Rightarrow> free_frames a = range_pages p n + free_frames a')"
proof -
  define k where "k = floor_log2 n"
  have kn: "2 ^ k \<le> n" "n < 2 ^ Suc k"
    using floor_log2_le [OF assms(2)] less_floor_log2 [OF assms(2)] by (auto simp: k_def)
  have il: "ilog2 n = Some k" using assms(2) by (simp add: ilog2_def k_def)
  have head_ok: "page_new Size4KB b = Some b" if "free_frames a = range_pages b m + X" "0 < m" for b m X
  proof -
    have "\<forall>p. p \<in># range_pages b m \<longrightarrow> frame_ok p" using inv that(1) by (simp add: frame_inv_def)
    from block_ok(3) [OF this that(2)] show ?thesis by (rule frame_ok_page_new)
  qed
  show ?thesis
  proof (cases "2 ^ k = n")
    case True
    from request_frames [OF frame_inv_ok [OF inv], of k] obtain r a' where
      r: "request_page_of_order k a = Some (r, a')"
        "case r of None \<Rightarrow> a' = a | Some blk \<Rightarrow> order blk = k \<and> free_frames a = range_pages (base blk) (2 ^ k) + free_frames a'"
      by blast
    then show ?thesis
      using True il head_ok [of _ "2 ^ k"] by (cases r) (auto simp: allocate_pages_def pages_in_order_def)
  next
    case False
    from request_frames [OF frame_inv_ok [OF inv], of "k + 1"] obtain r a1 where
      r: "request_page_of_order (k + 1) a = Some (r, a1)"
        "case r of None \<Rightarrow> a1 = a | Some blk \<Rightarrow>
           order blk = k + 1 \<and> free_frames a = range_pages (base blk) (2 ^ (k + 1)) + free_frames a1"
      by blast
    show ?thesis
    proof (cases r)
      case None
      with r il False show ?thesis by (simp add: allocate_pages_def pages_in_order_def)
    next
      case (Some blk)
      define b where "b = base blk"
      define m where "m = 2 ^ (k + 1) - n"
      have nm: "2 ^ (k + 1) = n + m" using kn by (simp add: m_def)
      have fr: "free_frames a = range_pages b (n + m) + free_frames a1" using r(2) Some nm by (simp add: b_def)
      then have "\<forall>p. p \<in># range_pages b (n + m) \<longrightarrow> frame_ok p" using inv by (simp add: frame_inv_def)
      from block_ok [OF this] assms(2) have b: "0x1000 \<le> b" "b + (n + m) * 0x1000 \<le> 2 ^ 47" by auto
      then obtain a2 where "insert_free_of_range (b + n * 0x1000) m a1 = Some a2"
          "free_frames a2 = range_pages (b + n * 0x1000) m + free_frames a1"
        using insert_range_frames [of "b + n * 0x1000" m a1] by (auto simp: algebra_simps)
      moreover have "page_new Size4KB b = Some b" using head_ok [OF fr] assms(2) by simp
      moreover have "pages_in_order k \<noteq> n" "pages_in_order (k + 1) - n = m"
        using False by (simp_all add: pages_in_order_def m_def)
      ultimately show ?thesis
        using r Some il b fr
        by (simp add: allocate_pages_def b_def [symmetric] add_usize_def range_pages_add)
    qed
  qed
qed

subsection \<open>Frames in circulation\<close>

text \<open>
  The allocator with the frames that are handed out.  A client frees only what it holds; every
  other interleaving of calls is allowed.
\<close>

inductive frame_step ::
  "PageFrameAllocator \<times> page multiset \<Rightarrow> PageFrameAllocator \<times> page multiset \<Rightarrow> bool" where
  AllocPage: "allocate_page a = Some (Some p, a') \<Longrightarrow> frame_step (a, out) (a', add_mset p out)"
| AllocPages: "allocate_pages n a = Some (Some p, a') \<Longrightarrow> 0 < n \<Longrightarrow> n \<le> 2 ^ MAX_ORDER \<Longrightarrow>
     frame_step (a, out) (a', range_pages p n + out)"
| FreePage: "p \<in># out \<Longrightarrow> frame_step (a, out) (frame_free_page p a, out - {#p#})"

definition circulation_inv :: "page multiset \<Rightarrow> PageFrameAllocator \<times> page multiset \<Rightarrow> bool" where
  "circulation_inv frs s \<longleftrightarrow>
     free_frames (fst s) + snd s = frs \<and> (\<forall>p. p \<in># frs \<longrightarrow> frame_ok p \<and> count frs p = 1)"

lemma circulation_frame_inv: "circulation_inv frs s \<Longrightarrow> frame_inv (fst s)"
proof -
  assume inv: "circulation_inv frs s"
  have "frame_ok p \<and> count (free_frames (fst s)) p = 1" if p: "p \<in># free_frames (fst s)" for p
  proof -
    from inv p have "frame_ok p" "count (free_frames (fst s)) p + count (snd s) p = 1"
      by (auto simp: circulation_inv_def)
    moreover have "count (free_frames (fst s)) p \<noteq> 0" using p by (simp add: not_in_iff [symmetric])
    ultimately show ?thesis by linarith
  qed
  then show ?thesis by (simp add: frame_inv_def)
qed

lemma circulation_step:
  assumes "frame_step s s'" "circulation_inv frs s"
  shows "circulation_inv frs s'"
  using assms(1)
proof cases
  case (AllocPage a p a' out)
  with assms(2) circulation_frame_inv [OF assms(2)] frames.alloc_Some [of a p a'] show ?thesis
    by (auto simp: circulation_inv_def)
next
  case (AllocPages n a p a' out)
  with assms(2) circulation_frame_inv [OF assms(2)] allocate_pages_frames [of a n] show ?thesis
    by (auto simp: circulation_inv_def ac_simps)
next
  case (FreePage p out a)
  with assms(2) show ?thesis by (auto simp: circulation_inv_def)
qed

text \<open>
  C5.  Frames are neither lost nor shared.  Start from an allocator whose free frames are pairwise
  different, page aligned and inside the lower half of the address space, and run any
  sequence of single and multiple page allocations and of frees of frames that are held.  Then
  the free frames and the frames handed out together are always the frames of the start, each
  exactly once; no frame is both free and held or held twice; and neither allocation panics in
  the state reached: it returns a frame, or reports exhaustion, which for a single page means that
  no frame is free.
\<close>

theorem frames_conserved:
  assumes "frame_inv a" and "frame_step\<^sup>*\<^sup>* (a, {#}) (a', out)"
  shows "free_frames a' + out = free_frames a \<and> (\<forall>p. count (free_frames a' + out) p \<le> 1) \<and>
     (\<exists>r b. allocate_page a' = Some (r, b) \<and> (r = None \<longrightarrow> free_frames a' = {#})) \<and>
     (\<forall>n. 0 < n \<longrightarrow> n \<le> 2 ^ MAX_ORDER \<longrightarrow> allocate_pages n a' \<noteq> None)"
proof -
  have start: "circulation_inv (free_frames a) (a, {#})" using assms(1) by (simp add: circulation_inv_def frame_inv_def)
  have reach: "circulation_inv (free_frames a) (a', out)"
    using assms(2)
    by (induction rule: rtranclp_induct2) (use start in \<open>auto intro: circulation_step\<close>)
  then have inv: "frame_inv a'" using circulation_frame_inv by fastforce
  have "count (free_frames a) p \<le> 1" for p
    using assms(1) by (cases "p \<in># free_frames a") (auto simp: frame_inv_def not_in_iff)
  with reach have "free_frames a' + out = free_frames a \<and> (\<forall>p. count (free_frames a' + out) p \<le> 1)"
    by (simp add: circulation_inv_def del: count_union)
  moreover have "\<exists>r b. allocate_page a' = Some (r, b) \<and> (r = None \<longrightarrow> free_frames a' = {#})"
    using allocate_page_frames [OF inv] by (auto split: option.splits)
  moreover have "allocate_pages n a' \<noteq> None" if "0 < n" "n \<le> 2 ^ MAX_ORDER" for n
    using allocate_pages_frames [OF inv that] by auto
  ultimately show ?thesis by blast
qed

definition four_frames :: PageFrameAllocator where
  "four_frames = insert_free_of_order 0x4000 2 frame_allocator_empty"

lemma four_frames_free: "free_frames four_frames = {#0x4000, 0x5000, 0x6000, 0x7000#}"
proof -
  have "free_frames frame_allocator_empty = {#}" by (simp add: free_frames_def frame_allocator_empty_def)
  then show ?thesis
    by (simp add: four_frames_def free_frames_insert MAX_ORDER_def range_pages_def upt_rec)
qed

theorem frames_conserved_witness:
  "\<exists>p a'. allocate_page four_frames = Some (Some p, a') \<and> free_frames a' + {#p#} = free_frames four_frames"
proof -
  have inv: "frame_inv four_frames" by (auto simp: frame_inv_def four_frames_free frame_ok_def)
  from allocate_page_frames [OF inv] obtain p a' where al: "allocate_page four_frames = Some (Some p, a')"
    by (auto simp: four_frames_free split: option.splits)
  then have "frame_step\<^sup>*\<^sup>* (four_frames, {#}) (a', {#p#})" by (blast intro: AllocPage)
  from frames_conserved [OF inv this] al show ?thesis by auto
qed

subsection \<open>Building the allocator from the memory map\<close>

definition desc_pages :: "MemoryDescriptor \<Rightarrow> page multiset" where
  "desc_pages e = range_pages (phys_start e) (page_count e)"

definition desc_ok :: "MemoryDescriptor \<Rightarrow> bool" where
  "desc_ok e \<longleftrightarrow> 0x1000 \<le> phys_start e \<and> phys_start e + page_count e * 0x1000 < 2 ^ 64 \<and>
     \<not> (phys_start e \<le> 0x8000 \<and> 0x8000 < phys_start e + page_count e * 0x1000)"

lemma fold_reserved:
  "fold free_32bit_reserved_page ps a = a\<lparr>reserved_32bit := rev ps @ reserved_32bit a\<rparr>"
  by (induction ps arbitrary: a) (simp_all add: free_32bit_reserved_page_def)

lemma take_step_by:
  assumes "m \<le> n"
  shows "take m (step_by 0x1000 s (s + n * 0x1000)) = map (\<lambda>i. s + i * 0x1000) [0 ..< m]"
proof -
  have "(n * 0x1000 + 0x1000 - 1) div 0x1000 = n" by (simp add: div_nat_eqI)
  with assms show ?thesis by (simp add: step_by_def take_map take_upt)
qed

lemma insert_range_other:
  "insert_free_of_range s n a = Some a' \<Longrightarrow> total_free a' = total_free a \<and> captured_0x8000 a' = captured_0x8000 a"
proof (induction s n a rule: insert_free_of_range.induct)
  case (1 s n a)
  show ?case
  proof (cases "n = 0")
    case True
    with "1.prems" show ?thesis by (simp add: insert_free_of_range.simps)
  next
    case False
    with "1.prems" obtain k where k: "range_order s n = Some k"
      by (auto simp: insert_free_of_range.simps [of s n a] bind_eq_Some_conv)
    with False "1.prems" have le: "pages_in_order k \<le> n" "pages_in_order k * 0x1000 < usize_bound"
        "s + pages_in_order k * 0x1000 < usize_bound" and
      rec: "insert_free_of_range (s + pages_in_order k * 0x1000) (n - pages_in_order k)
        (insert_free_of_order s k a) = Some a'"
      by (auto simp: insert_free_of_range.simps [of s n a] bind_eq_Some_conv rust_arith)
    with "1.IH" [OF False k refl, of "n - pages_in_order k" "pages_in_order k * 0x1000"
        "s + pages_in_order k * 0x1000"]
    show ?thesis by (simp add: rust_arith insert_free_of_order_def)
  qed
qed

lemmas insert_range_total = insert_range_other [THEN conjunct1]
lemmas insert_range_captured = insert_range_other [THEN conjunct2]

text \<open>What one descriptor without the page at \<open>0x8000\<close> contributes.\<close>

lemma capture_entry_ok:
  assumes "desc_ok e" "f \<le> 32" "total_free a + page_count e < 2 ^ 64"
  defines "m \<equiv> min (page_count e) (32 - f)"
  shows "\<exists>a'. capture_entry f e a = Some (f + m, a') \<and>
     length (reserved_32bit a') = length (reserved_32bit a) + m \<and> total_free a' \<le> total_free a + page_count e \<and>
     mset (reserved_32bit a') + free_frames a' = desc_pages e + mset (reserved_32bit a) + free_frames a"
proof -
  define s n where "s = phys_start e" and "n = page_count e"
  have sn: "0x1000 \<le> s" "s + n * 0x1000 < 2 ^ 64" "\<not> (s \<le> 0x8000 \<and> 0x8000 < s + n * 0x1000)"
    using assms(1) by (auto simp: desc_ok_def s_def n_def)
  define ps where "ps = map (\<lambda>i. s + i * 0x1000) [0 ..< m]"
  have m: "m \<le> n" "f + m \<le> 32" using assms(2) by (auto simp: m_def n_def)
  have "p \<noteq> 0x8000" if "p \<in> set ps" for p
  proof -
    from that obtain i where "i < m" "p = s + i * 0x1000" by (auto simp: ps_def)
    moreover from this m have "s + i * 0x1000 < s + n * 0x1000" by simp
    ultimately show ?thesis using sn(3) by auto
  qed
  then have fil: "filter (\<lambda>p. p \<noteq> 0x8000) ps = ps" by (simp add: filter_id_conv)
  have ps_range: "mset ps = range_pages s m" by (simp add: ps_def range_pages_def)
  define a2 where "a2 = a\<lparr>reserved_32bit := rev ps @ reserved_32bit a\<rparr>"
  have split: "range_pages s n = range_pages s m + range_pages (s + m * 0x1000) (n - m)"
    using range_pages_add [of s m "n - m"] m by simp
  have "s + m * 0x1000 + (n - m) * 0x1000 = s + n * 0x1000" using m by (simp add: algebra_simps)
  with sn insert_range_frames [of "s + m * 0x1000" "n - m" "a2\<lparr>total_free := total_free a + (n - m)\<rparr>"]
  obtain a3 where a3: "insert_free_of_range (s + m * 0x1000) (n - m) (a2\<lparr>total_free := total_free a + (n - m)\<rparr>) = Some a3"
      "free_frames a3 = range_pages (s + m * 0x1000) (n - m) + free_frames a2" "reserved_32bit a3 = reserved_32bit a2"
    by auto
  have eqs: "mul_usize n 0x1000 = Some (n * 0x1000)" "add_usize s (n * 0x1000) = Some (s + n * 0x1000)"
      "(s \<le> 0x8000 \<and> 0x8000 < s + n * 0x1000) = False" "min n (32 - f) = m"
      "add_usize (total_free a2) (n - m) = Some (total_free a + (n - m))"
    using sn assms(3) by (simp_all add: mul_usize_def add_usize_def a2_def m_def n_def)
  have cap: "capture_entry f e a = Some (f + m, if f + m = 32 then a3 else a2)"
    unfolding capture_entry_def s_def [symmetric] n_def [symmetric] RESERVED_32BIT_MEM_PAGES_def
    by (simp only: eqs bind.bind_lunit Let_def if_False take_step_by [OF m(1)] ps_def [symmetric]
        fil fold_reserved a2_def [symmetric] a3(1)) simp
  have a2: "reserved_32bit a2 = rev ps @ reserved_32bit a" "free_frames a2 = free_frames a"
      "total_free a2 = total_free a" "length ps = m"
    by (simp_all add: a2_def ps_def)
  have a3_le: "total_free a3 \<le> total_free a + n" using insert_range_total [OF a3(1)] by simp
  have desc: "desc_pages e = range_pages s n" by (simp add: desc_pages_def s_def n_def)
  show ?thesis
  proof (cases "f + m = 32")
    case True
    with cap have "capture_entry f e a = Some (f + m, a3)" by simp
    moreover have "mset (reserved_32bit a3) + free_frames a3 =
        desc_pages e + mset (reserved_32bit a) + free_frames a"
      by (simp only: a3(2,3) a2(1,2) desc split mset_append mset_rev ps_range ac_simps)
    ultimately show ?thesis using a3_le a2(1,4) a3(3) n_def by auto
  next
    case False
    then have "m = n" using assms(2) by (auto simp: m_def n_def)
    from cap False have "capture_entry f e a = Some (f + m, a2)" by simp
    moreover have "mset (reserved_32bit a2) + free_frames a2 =
        desc_pages e + mset (reserved_32bit a) + free_frames a"
      by (simp only: a2(1,2) desc mset_append mset_rev ps_range \<open>m = n\<close>)
    ultimately show ?thesis using a2(1,3,4) by auto
  qed
qed

lemma capture_reserved_ok:
  "\<forall>e \<in> set es. desc_ok e \<Longrightarrow> f < 32 \<Longrightarrow> 32 \<le> f + (\<Sum>e \<leftarrow> es. page_count e) \<Longrightarrow>
   total_free a + (\<Sum>e \<leftarrow> es. page_count e) < 2 ^ 64 \<Longrightarrow>
   \<exists>rest a'. capture_reserved es f a = Some (rest, a') \<and> set rest \<subseteq> set es \<and>
     length (reserved_32bit a') = length (reserved_32bit a) + (32 - f) \<and>
     total_free a' + (\<Sum>e \<leftarrow> rest. page_count e) \<le> total_free a + (\<Sum>e \<leftarrow> es. page_count e) \<and>
     mset (reserved_32bit a') + free_frames a' + (\<Sum>e \<leftarrow> rest. desc_pages e) =
       mset (reserved_32bit a) + free_frames a + (\<Sum>e \<leftarrow> es. desc_pages e)"
proof (induction es arbitrary: f a)
  case (Cons e es)
  define m where "m = min (page_count e) (32 - f)"
  from capture_entry_ok [of e f a] Cons.prems obtain a1 where
    a1: "capture_entry f e a = Some (f + m, a1)" "length (reserved_32bit a1) = length (reserved_32bit a) + m"
      "total_free a1 \<le> total_free a + page_count e"
      "mset (reserved_32bit a1) + free_frames a1 = desc_pages e + mset (reserved_32bit a) + free_frames a"
    unfolding m_def by auto
  show ?case
  proof (cases "f + m = 32")
    case True
    then have "32 - f = m" by simp
    with True a1 show ?thesis
      by (auto simp: RESERVED_32BIT_MEM_PAGES_def ac_simps)
  next
    case False
    then have m: "m = page_count e" "f + m < 32" using Cons.prems(2) by (auto simp: m_def)
    with Cons.IH [of "f + m" a1] Cons.prems a1(3) obtain rest a' where
      "capture_reserved es (f + m) a1 = Some (rest, a')" "set rest \<subseteq> set es"
      "length (reserved_32bit a') = length (reserved_32bit a1) + (32 - (f + m))"
      "total_free a' + (\<Sum>e \<leftarrow> rest. page_count e) \<le> total_free a1 + (\<Sum>e \<leftarrow> es. page_count e)"
      "mset (reserved_32bit a') + free_frames a' + (\<Sum>e \<leftarrow> rest. desc_pages e) =
       mset (reserved_32bit a1) + free_frames a1 + (\<Sum>e \<leftarrow> es. desc_pages e)"
      by auto
    with False m a1 show ?thesis by (auto simp: RESERVED_32BIT_MEM_PAGES_def ac_simps)
  qed
qed simp

lemma insert_entries_ok:
  "\<forall>e \<in> set es. desc_ok e \<Longrightarrow> total_free a + (\<Sum>e \<leftarrow> es. page_count e) < 2 ^ 64 \<Longrightarrow>
   \<exists>a'. insert_entries es a = Some a' \<and> reserved_32bit a' = reserved_32bit a \<and>
     free_frames a' = free_frames a + (\<Sum>e \<leftarrow> es. desc_pages e)"
proof (induction es arbitrary: a)
  case (Cons e es)
  define a0 where "a0 = a\<lparr>total_free := total_free a + page_count e\<rparr>"
  from Cons.prems insert_range_frames [of "phys_start e" "page_count e" a0] obtain a1 where
    a1: "insert_free_of_range (phys_start e) (page_count e) a0 = Some a1"
      "free_frames a1 = desc_pages e + free_frames a" "reserved_32bit a1 = reserved_32bit a"
    by (auto simp: desc_ok_def desc_pages_def a0_def)
  moreover have "total_free a1 = total_free a + page_count e"
    using insert_range_total [OF a1(1)] by (simp add: a0_def)
  ultimately show ?case
    using Cons.IH [of a1] Cons.prems by (auto simp: add_usize_def a0_def ac_simps)
qed simp




end
