(* ===== verification/Page_Table.thy ===== *)
theory Page_Table
  imports Frame_Allocator
begin

text \<open>
  Page tables: \<open>kernel/src/paging/page_table.rs\<close> and \<open>page_directory.rs\<close>.  The tables live in
  physical memory, a map from the address of a table to its 512 entries; a \<open>PageTable<L>\<close> is the
  address of a table with its level.  The trait \<open>Mapper\<close> is implemented once per level by a macro
  and a blanket instance; here the level is an argument and \<open>target\<close> is the level whose entries
  map pages of the wanted size (1 for 4 KiB, 2 for 2 MiB, 3 for 1 GiB).
\<close>

subsection \<open>Entries\<close>

record PageDirectoryEntry =
  present :: bool
  read_write :: bool
  user_super :: bool
  write_through :: bool
  cache_disabled :: bool
  accessed :: bool
  dirty :: bool
  larger_pages :: bool
  global :: bool
  available :: "3 word"
  internal_address :: nat

definition zero_entry :: PageDirectoryEntry where
  "zero_entry = \<lparr>present = False, read_write = False, user_super = False, write_through = False,
     cache_disabled = False, accessed = False, dirty = False, larger_pages = False,
     global = False, available = 0, internal_address = 0\<rparr>"

definition get_address :: "PageDirectoryEntry \<Rightarrow> nat" where
  "get_address e = internal_address e * 2 ^ 12"

text \<open>The generated setter of a 40-bit field panics when the value does not fit.\<close>

definition set_address :: "nat \<Rightarrow> PageDirectoryEntry \<Rightarrow> PageDirectoryEntry option" where
  "set_address a e = do {
     rassert (shr 12 a < 2 ^ 40);
     Some (e\<lparr>internal_address := shr 12 a\<rparr>)
   }"

lemma set_get_address:
  assumes "0x1000 dvd a" "a < 2 ^ 52"
  shows "\<exists>e'. set_address a e = Some e' \<and> get_address e' = a \<and> present e' = present e \<and>
    larger_pages e' = larger_pages e"
proof -
  have "a div 4096 * 4096 = a" using assms(1) by simp
  moreover have "a div 4096 < 2 ^ 40" using assms(2) by (simp add: less_mult_imp_div_less)
  ultimately show ?thesis by (simp add: set_address_def get_address_def shr_def)
qed

subsection \<open>Flags and errors\<close>

type_synonym MemoryMappingFlags = u8

definition WRITEABLE :: MemoryMappingFlags where "WRITEABLE = push_bit 0 1"
definition USERSPACE :: MemoryMappingFlags where "USERSPACE = push_bit 1 1"
definition flags_all :: MemoryMappingFlags where "flags_all = WRITEABLE OR USERSPACE"

definition flags_contains :: "MemoryMappingFlags \<Rightarrow> MemoryMappingFlags \<Rightarrow> bool" where
  "flags_contains fs f \<longleftrightarrow> fs AND f = f"

datatype MapMemoryError = MemAlreadyMapped (map_from: nat) (map_to: nat) (map_current: nat)

datatype UnMapMemoryError = MemNotMapped nat | PathNotFound nat

subsection \<open>Tables\<close>

record phys =
  tables :: "nat \<Rightarrow> nat \<Rightarrow> PageDirectoryEntry"
  frames :: PageFrameAllocator

definition write_entry :: "nat \<Rightarrow> nat \<Rightarrow> PageDirectoryEntry \<Rightarrow> phys \<Rightarrow> phys" where
  "write_entry t i e m = m\<lparr>tables := (tables m)(t := (tables m t)(i := e))\<rparr>"

definition all_entries_empty :: "phys \<Rightarrow> nat \<Rightarrow> bool" where
  "all_entries_empty m t \<longleftrightarrow> list_all (\<lambda>i. \<not> present (tables m t i)) [0 ..< 512]"

definition calculate_index :: "nat \<Rightarrow> nat \<Rightarrow> nat" where
  "calculate_index lvl address = low_bits 9 (shr (lvl * 9 + 3) address)"

definition level_size :: "nat \<Rightarrow> page_size" where
  "level_size lvl = (if lvl = 1 then Size4KB else if lvl = 2 then Size2MB else Size1GB)"

definition LARGER_PAGES :: "nat \<Rightarrow> bool" where
  "LARGER_PAGES lvl \<longleftrightarrow> lvl \<noteq> 1"

text \<open>\<open>PageTable::new\<close>: a frame from the allocator, which zeroes it.\<close>

definition page_table_new :: "phys \<Rightarrow> (nat \<times> phys) option" where
  "page_table_new m = do {
     (r, fs) \<leftarrow> allocate_page (frames m);
     p \<leftarrow> r;
     Some (p, m\<lparr>frames := fs, tables := (tables m)(p := (\<lambda>_. zero_entry))\<rparr>)
   }"

definition map_inner ::
  "nat \<Rightarrow> nat \<Rightarrow> page \<Rightarrow> page \<Rightarrow> MemoryMappingFlags \<Rightarrow> phys \<Rightarrow> ((MapMemoryError + nat) \<times> phys) option" where
  "map_inner lvl t vp pp flags m =
     (let i = calculate_index lvl vp; e = tables m t i in
      if present e then Some (Inl (MemAlreadyMapped vp pp (get_address e)), m)
      else do {
        e' \<leftarrow> set_address pp (e\<lparr>present := True, larger_pages := LARGER_PAGES lvl,
          read_write := flags_contains flags WRITEABLE, user_super := flags_contains flags USERSPACE\<rparr>);
        Some (Inr vp, write_entry t i e' m)
      })"

definition unmap_inner :: "nat \<Rightarrow> nat \<Rightarrow> page \<Rightarrow> phys \<Rightarrow> ((UnMapMemoryError + nat) \<times> phys) option" where
  "unmap_inner lvl t vp m =
     (let i = calculate_index lvl vp; e = tables m t i in
      if \<not> present e then Some (Inl (MemNotMapped vp), m)
      else do {
        rassert (larger_pages e = LARGER_PAGES lvl);
        e' \<leftarrow> set_address 0 (e\<lparr>present := False\<rparr>);
        Some (Inr vp, write_entry t i e' m)
      })"

definition address_of_inner :: "nat \<Rightarrow> nat \<Rightarrow> page \<Rightarrow> phys \<Rightarrow> page option option" where
  "address_of_inner lvl t vp m =
     (let e = tables m t (calculate_index lvl vp) in
      if present e \<and> LARGER_PAGES lvl = larger_pages e
      then map_option Some (page_new (level_size lvl) (get_address e))
      else Some None)"

text \<open>The next table on the way down, created when the entry is not present.\<close>

definition next_table :: "nat \<Rightarrow> nat \<Rightarrow> phys \<Rightarrow> (nat \<times> phys) option" where
  "next_table t i m =
     (let e = tables m t i in
      if present e then do {
        rassert (\<not> larger_pages e);
        Some (get_address e, m)
      } else do {
        (n, m1) \<leftarrow> page_table_new m;
        e' \<leftarrow> set_address n ((tables m1 t i)\<lparr>present := True, larger_pages := False,
          read_write := True, user_super := True\<rparr>);
        Some (n, write_entry t i e' m1)
      })"

text \<open>After an unmap: give a table without entries back.\<close>

definition clean_up :: "nat \<Rightarrow> nat \<Rightarrow> nat \<Rightarrow> phys \<Rightarrow> phys option" where
  "clean_up t i n m =
     (if all_entries_empty m n then do {
        pg \<leftarrow> page_new Size4KB n;
        e' \<leftarrow> set_address 0 ((tables m t i)\<lparr>present := False\<rparr>);
        let m1 = write_entry t i e' m;
        Some (m1\<lparr>frames := frame_free_page pg (frames m1)\<rparr>)
      } else Some m)"

primrec pt_map ::
  "nat \<Rightarrow> nat \<Rightarrow> nat \<Rightarrow> page \<Rightarrow> page \<Rightarrow> MemoryMappingFlags \<Rightarrow> phys \<Rightarrow> ((MapMemoryError + nat) \<times> phys) option" where
  "pt_map 0 target t vp pp flags m = None"
| "pt_map (Suc l) target t vp pp flags m =
     (if Suc l = target then map_inner target t vp pp flags m
      else do {
        (n, m1) \<leftarrow> next_table t (calculate_index (Suc l) vp) m;
        pt_map l target n vp pp flags m1
      })"

primrec pt_unmap :: "nat \<Rightarrow> nat \<Rightarrow> nat \<Rightarrow> page \<Rightarrow> phys \<Rightarrow> ((UnMapMemoryError + nat) \<times> phys) option" where
  "pt_unmap 0 target t vp m = None"
| "pt_unmap (Suc l) target t vp m =
     (if Suc l = target then unmap_inner target t vp m
      else
        let i = calculate_index (Suc l) vp; e = tables m t i in
        if \<not> present e then Some (Inl (MemNotMapped vp), m)
        else do {
          rassert (\<not> larger_pages e);
          (r, m1) \<leftarrow> pt_unmap l target (get_address e) vp m;
          m2 \<leftarrow> clean_up t i (get_address e) m1;
          Some (r, m2)
        })"

primrec pt_address_of :: "nat \<Rightarrow> nat \<Rightarrow> nat \<Rightarrow> page \<Rightarrow> phys \<Rightarrow> page option option" where
  "pt_address_of 0 target t vp m = None"
| "pt_address_of (Suc l) target t vp m =
     (if Suc l = target then address_of_inner target t vp m
      else
        let e = tables m t (calculate_index (Suc l) vp) in
        if present e then do {
          rassert (\<not> larger_pages e);
          pt_address_of l target (get_address e) vp m
        } else Some None)"

definition identity_map ::
  "nat \<Rightarrow> nat \<Rightarrow> page \<Rightarrow> MemoryMappingFlags \<Rightarrow> phys \<Rightarrow> ((MapMemoryError + nat) \<times> phys) option" where
  "identity_map target t pg flags m = pt_map 4 target t pg pg flags m"

definition get_phys_addr_from_vaddr :: "nat \<Rightarrow> nat \<Rightarrow> phys \<Rightarrow> nat option option" where
  "get_phys_addr_from_vaddr t address m = do {
     vp \<leftarrow> page_containing Size4KB address;
     r \<leftarrow> pt_address_of 4 1 t vp m;
     Some (map_option (\<lambda>p. p + address mod 0x1000) r)
   }"

text \<open>
  \<open>PageTable::new_with_global\<close>: a level-4 table that shares the kernel's level-3 tables, whose
  addresses are an argument.
\<close>

definition set_global :: "nat \<Rightarrow> nat \<times> nat \<Rightarrow> phys \<Rightarrow> phys option" where
  "set_global t at m =
     (let i = calculate_index 4 (fst at) in do {
        e' \<leftarrow> set_address (snd at)
          ((tables m t i)\<lparr>present := True, read_write := True, user_super := False\<rparr>);
        Some (write_entry t i e' m)
      })"

definition new_with_global :: "nat \<Rightarrow> nat \<Rightarrow> nat \<Rightarrow> nat \<Rightarrow> phys \<Rightarrow> (nat \<times> phys) option" where
  "new_with_global offset_map kernel_data kernel_heap per_cpu m = do {
     (t, m1) \<leftarrow> page_table_new m;
     m2 \<leftarrow> set_global t (PhysMapOffset, offset_map) m1;
     m3 \<leftarrow> set_global t (KernelStart, kernel_data) m2;
     m4 \<leftarrow> set_global t (KernelHeap, kernel_heap) m3;
     m5 \<leftarrow> set_global t (PerCpuMem, per_cpu) m4;
     Some (t, m5)
   }"

subsection \<open>Well-formed tables form a tree\<close>

definition node :: "(nat \<Rightarrow> nat \<Rightarrow> PageDirectoryEntry) \<Rightarrow> nat \<Rightarrow> nat \<Rightarrow> bool" where
  "node tb t i \<longleftrightarrow> i < 512 \<and> present (tb t i) \<and> \<not> larger_pages (tb t i)"

definition leaf_ok :: "(nat \<Rightarrow> nat \<Rightarrow> PageDirectoryEntry) \<Rightarrow> nat \<Rightarrow> bool" where
  "leaf_ok tb t \<longleftrightarrow> (\<forall>i. present (tb t i) \<longrightarrow> \<not> larger_pages (tb t i) \<and>
     page_new Size4KB (get_address (tb t i)) = Some (get_address (tb t i)))"

text \<open>\<open>tree tb l t T\<close>: the level-\<open>l\<close> table at \<open>t\<close> and the tables below it are the set \<open>T\<close>, each used once.\<close>

fun tree :: "(nat \<Rightarrow> nat \<Rightarrow> PageDirectoryEntry) \<Rightarrow> nat \<Rightarrow> nat \<Rightarrow> nat set \<Rightarrow> bool" where
  "tree tb 0 t T \<longleftrightarrow> False"
| "tree tb (Suc 0) t T \<longleftrightarrow> frame_ok t \<and> leaf_ok tb t \<and> T = {t}"
| "tree tb (Suc (Suc l)) t T \<longleftrightarrow> frame_ok t \<and>
     (\<exists>S. T = insert t (\<Union>i \<in> {i. node tb t i}. S i) \<and>
       (\<forall>i. node tb t i \<longrightarrow> tree tb (Suc l) (get_address (tb t i)) (S i) \<and> t \<notin> S i) \<and>
       (\<forall>i j. node tb t i \<longrightarrow> node tb t j \<longrightarrow> i \<noteq> j \<longrightarrow> S i \<inter> S j = {}))"

lemma index_less [simp]: "calculate_index l v < 512"
  using low_bits_less [of 9] by (simp add: calculate_index_def)

lemma tree_root: "tree tb l t T \<Longrightarrow> t \<in> T \<and> frame_ok t"
  by (cases "(tb, l, t, T)" rule: tree.cases) auto

lemma tree_frame_ok: "tree tb l t T \<Longrightarrow> x \<in> T \<Longrightarrow> frame_ok x"
  by (induction tb l t T arbitrary: x rule: tree.induct) fastforce+

lemma tree_cong: "tree tb l t T \<Longrightarrow> (\<And>x. x \<in> T \<Longrightarrow> tb' x = tb x) \<Longrightarrow> tree tb' l t T"
proof (induction tb l t T rule: tree.induct)
  case (2 tb t T)
  then show ?case by (simp add: leaf_ok_def)
next
  case (3 tb l t T)
  from "3.prems"(1) obtain S where fo: "frame_ok t" and T: "T = insert t (\<Union>i \<in> {i. node tb t i}. S i)"
    and S: "\<forall>i. node tb t i \<longrightarrow> tree tb (Suc l) (get_address (tb t i)) (S i) \<and> t \<notin> S i"
    and D: "\<forall>i j. node tb t i \<longrightarrow> node tb t j \<longrightarrow> i \<noteq> j \<longrightarrow> S i \<inter> S j = {}" by auto
  have eq: "tb' t = tb t" using "3.prems"(2) T by simp
  then have nodes: "node tb' t = node tb t" by (simp add: node_def fun_eq_iff)
  have "tree tb' (Suc l) (get_address (tb t i)) (S i)" if "node tb t i" for i
    using "3.IH" [OF that] S that "3.prems"(2) T by blast
  then show ?case using fo T S D by (auto simp: nodes eq intro!: exI [of _ S])
qed simp

lemma tree_zero:
  assumes "frame_ok t" "\<And>i. i < 512 \<Longrightarrow> \<not> present (tb t i)" "\<And>i. \<not> i < 512 \<Longrightarrow> \<not> present (tb t i)"
  shows "tree tb (Suc l) t {t}"
  using assms by (cases l) (auto simp: node_def leaf_ok_def intro!: exI [of _ "\<lambda>_. {}"])

lemma tree_empty:
  assumes "tree tb (Suc l) t T" "\<And>i. i < 512 \<Longrightarrow> \<not> present (tb t i)"
  shows "T = {t}"
  using assms by (cases l) (auto simp: node_def)

text \<open>Replacing the subtree below entry \<open>i\<close>, or adding one there.\<close>

definition below :: "(nat \<Rightarrow> nat \<Rightarrow> PageDirectoryEntry) \<Rightarrow> nat \<Rightarrow> nat \<Rightarrow> (nat \<Rightarrow> nat set) \<Rightarrow> nat set" where
  "below tb t i S = (if node tb t i then S i else {})"

definition parts :: "(nat \<Rightarrow> nat \<Rightarrow> PageDirectoryEntry) \<Rightarrow> nat \<Rightarrow> nat \<Rightarrow> (nat \<Rightarrow> nat set) \<Rightarrow> bool" where
  "parts tb l t S \<longleftrightarrow>
     (\<forall>i. node tb t i \<longrightarrow> tree tb l (get_address (tb t i)) (S i) \<and> t \<notin> S i) \<and>
     (\<forall>i j. node tb t i \<longrightarrow> node tb t j \<longrightarrow> i \<noteq> j \<longrightarrow> S i \<inter> S j = {})"

definition whole :: "(nat \<Rightarrow> nat \<Rightarrow> PageDirectoryEntry) \<Rightarrow> nat \<Rightarrow> (nat \<Rightarrow> nat set) \<Rightarrow> nat set" where
  "whole tb t S = insert t (\<Union>i \<in> {i. node tb t i}. S i)"

lemma tree_parts: "tree tb (Suc (Suc l)) t T \<longleftrightarrow> frame_ok t \<and> (\<exists>S. T = whole tb t S \<and> parts tb (Suc l) t S)"
  by (simp only: tree.simps parts_def whole_def)

lemma partsD:
  assumes "parts tb l t S" "node tb t i"
  shows "tree tb l (get_address (tb t i)) (S i)" "t \<notin> S i"
    "node tb t j \<Longrightarrow> i \<noteq> j \<Longrightarrow> S i \<inter> S j = {}"
  using assms unfolding parts_def by blast+

lemma partsI:
  assumes "\<And>i. node tb t i \<Longrightarrow> tree tb l (get_address (tb t i)) (S i)" "\<And>i. node tb t i \<Longrightarrow> t \<notin> S i"
    and "\<And>i j. node tb t i \<Longrightarrow> node tb t j \<Longrightarrow> i \<noteq> j \<Longrightarrow> S i \<inter> S j = {}"
  shows "parts tb l t S"
  using assms unfolding parts_def by blast

lemma whole_minus_below:
  assumes "parts tb l t S"
  shows "whole tb t S - below tb t i S = insert t (\<Union>j \<in> {j. node tb t j \<and> j \<noteq> i}. S j)"
proof (cases "node tb t i")
  case True
  have "S j \<inter> S i = {}" if "node tb t j" "j \<noteq> i" for j
    using partsD(3) [OF assms True that(1)] that(2) by blast
  with True partsD(2) [OF assms True] show ?thesis unfolding whole_def below_def by auto
next
  case False
  then have "{j. node tb t j \<and> j \<noteq> i} = {j. node tb t j}" by blast
  with False show ?thesis unfolding whole_def below_def by simp
qed

lemma subtree_cong:
  assumes parts: "parts tb l t S" and j: "node tb t j" "j \<noteq> i"
    and same: "\<And>x. x \<in> whole tb t S - below tb t i S - {t} \<Longrightarrow> tb' x = tb x"
    and root: "tb' t j = tb t j"
  shows "tree tb' l (get_address (tb' t j)) (S j)"
proof -
  have "S j \<subseteq> whole tb t S - below tb t i S - {t}"
    unfolding whole_minus_below [OF parts] using j partsD(2) [OF parts j(1)] by blast
  then show ?thesis
    unfolding root by (intro tree_cong [OF partsD(1) [OF parts j(1)]]) (use same in blast)
qed

lemma parts_replace:
  assumes parts: "parts tb l t S"
    and same: "\<And>x. x \<in> whole tb t S - below tb t i S - {t} \<Longrightarrow> tb' x = tb x"
    and root: "\<And>j. j \<noteq> i \<Longrightarrow> tb' t j = tb t j"
    and new: "node tb' t i" "tree tb' l (get_address (tb' t i)) N" "t \<notin> N"
    and disj: "N \<inter> (whole tb t S - below tb t i S) = {}"
  shows "parts tb' l t (S(i := N))" "whole tb' t (S(i := N)) = (whole tb t S - below tb t i S) \<union> N"
proof -
  have nodes: "node tb' t j \<longleftrightarrow> node tb t j" if "j \<noteq> i" for j using root that by (simp add: node_def)
  have dj: "S j \<inter> N = {}" if "node tb t j" "j \<noteq> i" for j
    using disj that unfolding whole_minus_below [OF parts] by blast
  show "parts tb' l t (S(i := N))"
  proof (rule partsI)
    fix j
    assume j: "node tb' t j"
    show "tree tb' l (get_address (tb' t j)) ((S(i := N)) j)" "t \<notin> (S(i := N)) j"
      using j new(2,3) subtree_cong [OF parts _ _ same root, of j] nodes [of j] partsD(2) [OF parts, of j]
      by (cases "j = i"; simp)+
  next
    fix j k
    assume "node tb' t j" "node tb' t k" "j \<noteq> k"
    then show "(S(i := N)) j \<inter> (S(i := N)) k = {}"
      using nodes [of j] nodes [of k] dj [of j] dj [of k] partsD(3) [OF parts, of j k]
      by (cases "j = i"; cases "k = i"; simp add: Int_commute)
  qed
  have "whole tb' t (S(i := N)) = insert t (N \<union> (\<Union>j \<in> {j. node tb t j \<and> j \<noteq> i}. S j))"
  proof -
    have "{j. node tb' t j} = insert i {j. node tb t j \<and> j \<noteq> i}" using new(1) nodes by blast
    then show ?thesis unfolding whole_def by auto
  qed
  then show "whole tb' t (S(i := N)) = (whole tb t S - below tb t i S) \<union> N"
    unfolding whole_minus_below [OF parts] by blast
qed

lemma parts_remove:
  assumes parts: "parts tb l t S"
    and same: "\<And>x. x \<in> whole tb t S - below tb t i S - {t} \<Longrightarrow> tb' x = tb x"
    and root: "\<And>j. j \<noteq> i \<Longrightarrow> tb' t j = tb t j"
    and gone: "\<not> node tb' t i"
  shows "parts tb' l t S" "whole tb' t S = whole tb t S - below tb t i S"
proof -
  have nodes: "node tb' t j \<longleftrightarrow> node tb t j \<and> j \<noteq> i" for j
    using root gone by (cases "j = i") (simp_all add: node_def)
  show "parts tb' l t S"
  proof (rule partsI)
    fix j
    assume "node tb' t j"
    then show "tree tb' l (get_address (tb' t j)) (S j)" "t \<notin> S j"
      using subtree_cong [OF parts _ _ same root, of j] nodes [of j] partsD(2) [OF parts, of j] by auto
  next
    fix j k
    assume "node tb' t j" "node tb' t k" "j \<noteq> k"
    then show "S j \<inter> S k = {}" using nodes partsD(3) [OF parts, of j k] by blast
  qed
  show "whole tb' t S = whole tb t S - below tb t i S"
    unfolding whole_minus_below [OF parts] unfolding whole_def nodes ..
qed

subsection \<open>Looking up\<close>

definition same_path :: "nat \<Rightarrow> nat \<Rightarrow> nat \<Rightarrow> bool" where
  "same_path l v v' \<longleftrightarrow> (\<forall>j. 1 \<le> j \<and> j \<le> l \<longrightarrow> calculate_index j v = calculate_index j v')"

lemma lookup_cong:
  "tree (tables m) l t T \<Longrightarrow> (\<And>x. x \<in> T \<Longrightarrow> tables m' x = tables m x) \<Longrightarrow>
     pt_address_of l 1 t v m' = pt_address_of l 1 t v m"
proof (induction "tables m" l t T rule: tree.induct)
  case (2 t T)
  then show ?case by (simp add: address_of_inner_def)
next
  case (3 l t T)
  let ?i = "calculate_index (Suc (Suc l)) v"
  from "3.prems"(1) obtain S where T: "T = whole (tables m) t S" and S: "parts (tables m) (Suc l) t S"
    unfolding tree_parts by blast
  have eq: "tables m' t = tables m t" using "3.prems"(2) T by (simp add: whole_def)
  show ?case
  proof (cases "node (tables m) t ?i")
    case True
    with S have "tree (tables m) (Suc l) (get_address (tables m t ?i)) (S ?i)" by (simp add: parts_def)
    moreover have "x \<in> T" if "x \<in> S ?i" for x using that True T by (auto simp: whole_def)
    ultimately show ?thesis using "3.hyps" [OF True] "3.prems"(2) eq by (simp add: Let_def)
  next
    case False
    then have "\<not> present (tables m t ?i) \<or> larger_pages (tables m t ?i)" by (simp add: node_def)
    then show ?thesis using eq by (auto simp: Let_def)
  qed
qed simp

lemma lookup_zero:
  "(\<And>i. i < 512 \<Longrightarrow> \<not> present (tables m t i)) \<Longrightarrow> pt_address_of (Suc l) 1 t v m = Some None"
  by (cases l) (simp_all add: address_of_inner_def Let_def)

end
