(* ===== verification/Page_Table_Refinement.thy ===== *)
theory Page_Table_Refinement
  imports Page_Table
begin

text \<open>
  What the page table operations of theory \<open>Page_Table\<close> do to the address space: on a tree of
  tables that is disjoint from the free frames, mapping and unmapping a 4 KiB page change the
  translation of that page and of no other, and keep the tree.
\<close>

subsection \<open>Tables and frames together\<close>

abbreviation free_set :: "phys \<Rightarrow> nat set" where
  "free_set m \<equiv> set_mset (free_frames (frames m))"

definition pt_wf :: "phys \<Rightarrow> nat \<Rightarrow> nat \<Rightarrow> nat set \<Rightarrow> bool" where
  "pt_wf m l t T \<longleftrightarrow> tree (tables m) l t T \<and> frame_inv (frames m) \<and> T \<inter> free_set m = {}"

lemma lookup_node:
  "node (tables m) t (calculate_index (Suc (Suc l)) v) \<Longrightarrow>
     pt_address_of (Suc (Suc l)) 1 t v m =
       pt_address_of (Suc l) 1 (get_address (tables m t (calculate_index (Suc (Suc l)) v))) v m"
  by (simp add: node_def Let_def del: pt_address_of.simps(2) add: pt_address_of.simps(2) [of "Suc l"])

lemma lookup_absent:
  "\<not> present (tables m t (calculate_index (Suc (Suc l)) v)) \<Longrightarrow>
     pt_address_of (Suc (Suc l)) 1 t v m = Some None"
  by (simp add: Let_def)

lemma lookup_large:
  "present (tables m t (calculate_index (Suc (Suc l)) v)) \<Longrightarrow>
   larger_pages (tables m t (calculate_index (Suc (Suc l)) v)) \<Longrightarrow>
     pt_address_of (Suc (Suc l)) 1 t v m = None"
  by (simp add: Let_def)

declare pt_address_of.simps(2) [simp del]

lemma lookup_other:
  assumes parts: "parts (tables m) (Suc l) t S"
    and same: "\<And>x. x \<in> whole (tables m) t S - below (tables m) t i S - {t} \<Longrightarrow> tables m' x = tables m x"
    and root: "\<And>j. j \<noteq> i \<Longrightarrow> tables m' t j = tables m t j"
    and v: "calculate_index (Suc (Suc l)) v \<noteq> i"
  shows "pt_address_of (Suc (Suc l)) 1 t v m' = pt_address_of (Suc (Suc l)) 1 t v m"
proof -
  define j where "j = calculate_index (Suc (Suc l)) v"
  have eq: "tables m' t j = tables m t j" using root v by (simp add: j_def)
  have "pt_address_of (Suc l) 1 (get_address (tables m t j)) v m' =
      pt_address_of (Suc l) 1 (get_address (tables m t j)) v m" if n: "node (tables m) t j"
  proof (rule lookup_cong [OF partsD(1) [OF parts n]])
    fix x
    assume "x \<in> S j"
    then have "x \<in> whole (tables m) t S - below (tables m) t i S - {t}"
      unfolding whole_minus_below [OF parts] using n v partsD(2) [OF parts n] by (auto simp: j_def)
    then show "tables m' x = tables m x" by (rule same)
  qed
  note key = this
  have nodes: "node (tables m') t j \<longleftrightarrow> node (tables m) t j" using eq by (simp add: node_def)
  consider "node (tables m) t j" | "\<not> present (tables m t j)"
    | "present (tables m t j)" "larger_pages (tables m t j)" by (auto simp: node_def j_def)
  then show ?thesis
  proof cases
    case 1
    with key nodes eq show ?thesis
      using lookup_node [of m t l v] lookup_node [of m' t l v] unfolding j_def [symmetric] by simp
  next
    case 2
    with eq show ?thesis
      using lookup_absent [of m t l v] lookup_absent [of m' t l v] unfolding j_def [symmetric] by simp
  next
    case 3
    with eq show ?thesis
      using lookup_large [of m t l v] lookup_large [of m' t l v] unfolding j_def [symmetric] by simp
  qed
qed

text \<open>The table below entry \<open>i\<close>, found or created, with what is known about it.\<close>

definition descends ::
  "phys \<Rightarrow> nat \<Rightarrow> nat \<Rightarrow> nat \<Rightarrow> (nat \<Rightarrow> nat set) \<Rightarrow> nat \<Rightarrow> phys \<Rightarrow> nat set \<Rightarrow> bool" where
  "descends m l t i S n m1 N \<longleftrightarrow>
     pt_wf m1 (Suc l) n N \<and> t \<notin> N \<union> free_set m1 \<and>
     node (tables m1) t i \<and> get_address (tables m1 t i) = n \<and>
     (\<forall>j. j \<noteq> i \<longrightarrow> tables m1 t j = tables m t j) \<and>
     (\<forall>x. x \<notin> insert t (free_set m) \<longrightarrow> tables m1 x = tables m x) \<and>
     below (tables m) t i S \<subseteq> N \<and> N \<inter> (whole (tables m) t S - below (tables m) t i S) = {} \<and>
     N \<union> free_set m1 \<subseteq> below (tables m) t i S \<union> free_set m \<and> free_set m1 \<subseteq> free_set m \<and>
     (\<forall>v. calculate_index (Suc (Suc l)) v = i \<longrightarrow>
        pt_address_of (Suc (Suc l)) 1 t v m = pt_address_of (Suc l) 1 n v m1)"

lemma frame_ok_52: "frame_ok n \<Longrightarrow> 0x1000 dvd n \<and> n < 2 ^ 52"
  by (auto simp: frame_ok_def)

lemma next_table_descends:
  assumes wf: "pt_wf m (Suc (Suc l)) t (whole (tables m) t S)" and parts: "parts (tables m) (Suc l) t S"
    and nx: "next_table t i m = Some (n, m1)" and i: "i < 512"
  shows "\<exists>N. descends m l t i S n m1 N"
proof (cases "present (tables m t i)")
  case True
  with nx i have node: "node (tables m) t i" and n: "n = get_address (tables m t i)" and m1: "m1 = m"
    by (auto simp: next_table_def node_def Let_def bind_eq_Some_conv)
  have "S i \<inter> (whole (tables m) t S - S i) = {}" by blast
  moreover have "S i \<subseteq> whole (tables m) t S" using node by (auto simp: whole_def)
  moreover have "t \<in> whole (tables m) t S" by (simp add: whole_def)
  ultimately have "descends m l t i S n m1 (S i)"
    using wf node n m1 partsD(1,2) [OF parts node] lookup_node [of m t l]
    unfolding descends_def pt_wf_def below_def by (intro conjI allI impI) auto
  then show ?thesis by blast
next
  case False
  then have nb: "below (tables m) t i S = {}" by (simp add: below_def node_def)
  from nx False obtain m2 e where new: "page_table_new m = Some (n, m2)"
      and e: "set_address n ((tables m2 t i)\<lparr>present := True, larger_pages := False, read_write := True,
        user_super := True\<rparr>) = Some e" and m1: "m1 = write_entry t i e m2"
    by (auto simp: next_table_def Let_def bind_eq_Some_conv)
  from new obtain fs where al: "allocate_page (frames m) = Some (Some n, fs)"
      and m2: "m2 = m\<lparr>frames := fs, tables := (tables m)(n := (\<lambda>_. zero_entry))\<rparr>"
    by (auto simp: page_table_new_def bind_eq_Some_conv)
  have inv: "frame_inv (frames m)" using wf by (simp add: pt_wf_def)
  note fresh = frames.alloc_fresh [OF inv al] and fr = frames.alloc_Some [OF inv al]
  have free: "free_set m = insert n (set_mset (free_frames fs))" using fr by simp
  have tW: "t \<in> whole (tables m) t S" by (simp add: whole_def)
  with wf have tn: "t \<noteq> n" "t \<notin> free_set m" using fresh(3) by (auto simp: pt_wf_def)
  have ge: "get_address e = n" "present e" "\<not> larger_pages e"
    using set_get_address [of n "(tables m2 t i)\<lparr>present := True, larger_pages := False, read_write := True,
        user_super := True\<rparr>"] frame_ok_52 [OF fresh(2)] e by auto
  have tb: "tables m1 = (tables m)(n := (\<lambda>_. zero_entry), t := (tables m t)(i := e))" "frames m1 = fs"
    using tn by (auto simp: m1 m2 write_entry_def)
  have "tree (tables m1) (Suc l) n {n}"
    using fresh(2) tn by (intro tree_zero) (simp_all add: tb zero_entry_def)
  moreover have "pt_address_of (Suc l) 1 n v m1 = Some None" for v
    using tn by (intro lookup_zero) (simp add: tb zero_entry_def)
  moreover have "node (tables m1) t i" "get_address (tables m1 t i) = n"
    using ge i by (simp_all add: tb node_def)
  moreover have "n \<notin> whole (tables m) t S" using fresh(3) wf by (auto simp: pt_wf_def)
  ultimately have "descends m l t i S n m1 {n}"
    using fr fresh(1) free tn False lookup_absent [of m t l]
    unfolding descends_def pt_wf_def nb by (intro conjI allI impI) (auto simp: tb)
  then show ?thesis by blast
qed

text \<open>After the work in the subtree the whole is a tree again and only the subtree has changed.\<close>

lemma ascend:
  assumes wf: "pt_wf m (Suc (Suc l)) t (whole (tables m) t S)" and parts: "parts (tables m) (Suc l) t S"
    and d: "descends m l t i S n m1 N"
    and wf': "pt_wf m' (Suc l) n N'" "N' \<subseteq> N \<union> free_set m1" "free_set m' \<subseteq> N \<union> free_set m1"
    and same: "\<And>x. x \<notin> N \<union> free_set m1 \<Longrightarrow> tables m' x = tables m1 x"
  defines "T \<equiv> whole (tables m) t S" and "B \<equiv> below (tables m) t i S"
  shows "pt_wf m' (Suc (Suc l)) t (T - B \<union> N')" "T - B \<union> N' \<subseteq> T \<union> free_set m"
    "free_set m' \<subseteq> T \<union> free_set m"
    "\<And>x. x \<notin> T \<union> free_set m \<Longrightarrow> tables m' x = tables m x"
    "calculate_index (Suc (Suc l)) v \<noteq> i \<Longrightarrow>
       pt_address_of (Suc (Suc l)) 1 t v m' = pt_address_of (Suc (Suc l)) 1 t v m"
    "calculate_index (Suc (Suc l)) v = i \<Longrightarrow>
       pt_address_of (Suc (Suc l)) 1 t v m' = pt_address_of (Suc l) 1 n v m'"
proof -
  have d1: "t \<notin> N \<union> free_set m1" "node (tables m1) t i" "get_address (tables m1 t i) = n"
    and d2: "\<forall>j. j \<noteq> i \<longrightarrow> tables m1 t j = tables m t j"
    and d3: "\<forall>x. x \<notin> insert t (free_set m) \<longrightarrow> tables m1 x = tables m x"
    and d4: "B \<subseteq> N" "N \<inter> (T - B) = {}" "N \<union> free_set m1 \<subseteq> B \<union> free_set m" "free_set m1 \<subseteq> free_set m"
    using d unfolding descends_def T_def B_def by - (elim conjE, assumption)+
  have dis: "T \<inter> free_set m = {}" using wf by (simp add: pt_wf_def T_def)
  have tT: "t \<in> T" "frame_ok t" using wf tree_root unfolding pt_wf_def T_def by blast+
  have out: "x \<notin> N \<union> free_set m1" if "x \<in> T - B" for x
    using d4(2,4) dis that by blast
  have root: "tables m' t = tables m1 t" using same [OF d1(1)] .
  have keep: "tables m' x = tables m x" if "x \<in> T - B - {t}" for x
  proof -
    have "tables m' x = tables m1 x" using same out that by blast
    moreover have "x \<notin> insert t (free_set m)" using dis that by blast
    ultimately show ?thesis using d3 by simp
  qed
  have rootj: "tables m' t j = tables m t j" if "j \<noteq> i" for j using root d2 that by simp
  have nd: "node (tables m') t i" "get_address (tables m' t i) = n" using root d1 by (simp_all add: node_def)
  have tN: "t \<notin> N'" using d1(1) wf'(2) by blast
  have N'T: "N' \<inter> (T - B) = {}" using out wf'(2) by blast
  have tr: "tree (tables m') (Suc l) (get_address (tables m' t i)) N'" using wf'(1) nd by (simp add: pt_wf_def)
  note rep = parts_replace [OF parts keep [unfolded T_def B_def] rootj nd(1) tr tN N'T [unfolded T_def B_def]]
  have "tree (tables m') (Suc (Suc l)) t (T - B \<union> N')"
    unfolding tree_parts T_def B_def using tT(2) rep by blast
  moreover have "(T - B \<union> N') \<inter> free_set m' = {}"
    using wf'(1,3) out unfolding pt_wf_def by blast
  ultimately show "pt_wf m' (Suc (Suc l)) t (T - B \<union> N')" using wf'(1) unfolding pt_wf_def by blast
  have BT: "B \<subseteq> T" by (auto simp: B_def T_def below_def whole_def)
  then show "T - B \<union> N' \<subseteq> T \<union> free_set m" "free_set m' \<subseteq> T \<union> free_set m"
    using d4(3) wf'(2,3) by blast+
  show "tables m' x = tables m x" if x: "x \<notin> T \<union> free_set m" for x
  proof -
    have "x \<notin> N \<union> free_set m1" using x d4(3) BT by blast
    then have "tables m' x = tables m1 x" by (rule same)
    moreover have "x \<notin> insert t (free_set m)" using x tT(1) by blast
    ultimately show ?thesis using d3 by simp
  qed
  show "pt_address_of (Suc (Suc l)) 1 t v m' = pt_address_of (Suc (Suc l)) 1 t v m"
    if "calculate_index (Suc (Suc l)) v \<noteq> i"
    using lookup_other [OF parts keep [unfolded T_def B_def] rootj that] .
  show "pt_address_of (Suc (Suc l)) 1 t v m' = pt_address_of (Suc l) 1 n v m'"
    if "calculate_index (Suc (Suc l)) v = i"
    using nd that lookup_node [of m' t l v] by simp
qed

subsection \<open>Mapping a page\<close>

abbreviation lookup :: "nat \<Rightarrow> nat \<Rightarrow> page \<Rightarrow> phys \<Rightarrow> page option option" where
  "lookup l t v m \<equiv> pt_address_of l 1 t v m"

definition map_effect :: "nat \<Rightarrow> nat \<Rightarrow> page \<Rightarrow> page \<Rightarrow> MapMemoryError + nat \<Rightarrow> phys \<Rightarrow> phys \<Rightarrow> bool" where
  "map_effect l t v p r m m' \<longleftrightarrow>
     (case r of
        Inl e \<Rightarrow> (\<exists>c. e = MemAlreadyMapped v p c \<and> lookup l t v m = Some (Some c)) \<and>
          (\<forall>v'. lookup l t v' m' = lookup l t v' m)
      | Inr w \<Rightarrow> w = v \<and> lookup l t v m = Some None \<and> lookup l t v m' = Some (Some p) \<and>
          (\<forall>v'. \<not> same_path l v v' \<longrightarrow> lookup l t v' m' = lookup l t v' m))"

lemma leaf_lookup:
  "pt_address_of (Suc 0) (Suc 0) t v m = address_of_inner (Suc 0) t v m"
  by (simp add: pt_address_of.simps(2))

lemma set_address_eq: "a < 2 ^ 52 \<Longrightarrow> set_address a e = Some (e\<lparr>internal_address := a div 4096\<rparr>)"
  by (simp add: set_address_def shr_def less_mult_imp_div_less)

lemma same_path_Suc:
  "same_path (Suc (Suc l)) v v' \<longleftrightarrow>
     calculate_index (Suc (Suc l)) v = calculate_index (Suc (Suc l)) v' \<and> same_path (Suc l) v v'"
  by (auto simp: same_path_def le_Suc_eq)

lemma pt_map_leaf:
  assumes wf: "pt_wf m (Suc 0) t T" and map: "map_inner 1 t v p flags m = Some (r, m')"
    and p: "page_new Size4KB p = Some p" "p < 2 ^ 52" "0x1000 dvd p"
  shows "pt_wf m' (Suc 0) t T \<and> free_set m' = free_set m \<and> (\<forall>x. x \<noteq> t \<longrightarrow> tables m' x = tables m x) \<and>
     map_effect (Suc 0) t v p r m m'"
proof -
  define i where "i = calculate_index 1 v"
  from wf have lf: "leaf_ok (tables m) t" "frame_ok t" "T = {t}" by (auto simp: pt_wf_def)
  show ?thesis
  proof (cases "present (tables m t i)")
    case True
    with map have r: "r = Inl (MemAlreadyMapped v p (get_address (tables m t i)))" "m' = m"
      by (auto simp: map_inner_def i_def)
    moreover have "lookup (Suc 0) t v m = Some (Some (get_address (tables m t i)))"
      using True lf(1) by (simp add: leaf_lookup address_of_inner_def LARGER_PAGES_def leaf_ok_def level_size_def i_def)
    ultimately show ?thesis using wf by (simp add: map_effect_def)
  next
    case False
    then obtain e where e: "set_address p ((tables m t i)\<lparr>present := True, larger_pages := False,
          read_write := flags_contains flags WRITEABLE, user_super := flags_contains flags USERSPACE\<rparr>) = Some e"
        and m': "m' = write_entry t i e m" "r = Inr v"
      using map by (auto simp: map_inner_def i_def Let_def bind_eq_Some_conv LARGER_PAGES_def)
    have ge: "get_address e = p" "present e" "\<not> larger_pages e"
      using e p(2,3) by (auto simp: set_address_eq get_address_def)
    have tb: "tables m' = (tables m)(t := (tables m t)(i := e))" "frames m' = frames m"
      by (simp_all add: m' write_entry_def)
    have "leaf_ok (tables m') t" using lf(1) ge p(1) by (simp add: leaf_ok_def tb)
    then have "pt_wf m' (Suc 0) t T" using wf lf by (simp add: pt_wf_def tb)
    moreover have "lookup (Suc 0) t v m = Some None" "lookup (Suc 0) t v m' = Some (Some p)"
      using False ge p(1)
      by (simp_all add: leaf_lookup address_of_inner_def LARGER_PAGES_def level_size_def i_def tb)
    moreover have "lookup (Suc 0) t v' m' = lookup (Suc 0) t v' m" if "\<not> same_path (Suc 0) v v'" for v'
    proof -
      have "calculate_index 1 v' \<noteq> i" using that by (auto simp: same_path_def i_def le_Suc_eq)
      then show ?thesis by (simp add: leaf_lookup address_of_inner_def tb)
    qed
    ultimately show ?thesis using tb m' by (simp add: map_effect_def)
  qed
qed

lemma pt_map_ok:
  assumes p: "page_new Size4KB p = Some p" "p < 2 ^ 52" "0x1000 dvd p"
  shows "pt_wf m (Suc l) t T \<Longrightarrow> pt_map (Suc l) 1 t v p flags m = Some (r, m') \<Longrightarrow>
   \<exists>T'. pt_wf m' (Suc l) t T' \<and> T' \<subseteq> T \<union> free_set m \<and> free_set m' \<subseteq> T \<union> free_set m \<and>
     (\<forall>x. x \<notin> T \<union> free_set m \<longrightarrow> tables m' x = tables m x) \<and> map_effect (Suc l) t v p r m m'"
proof (induction l arbitrary: m t T)
  case 0
  have "T = {t}" using "0.prems"(1) by (simp add: pt_wf_def)
  with pt_map_leaf [OF "0.prems"(1) _ p, of v flags r m'] "0.prems" show ?case
    by (intro exI [of _ T]) auto
next
  case (Suc l)
  define i where "i = calculate_index (Suc (Suc l)) v"
  from Suc.prems(1) obtain S where T: "T = whole (tables m) t S" and parts: "parts (tables m) (Suc l) t S"
    unfolding pt_wf_def tree_parts by blast
  note wf = Suc.prems(1) [unfolded T]
  from Suc.prems(2) obtain n m1 where nx: "next_table t i m = Some (n, m1)"
      and rec: "pt_map (Suc l) 1 n v p flags m1 = Some (r, m')"
    by (auto simp: i_def bind_eq_Some_conv)
  from next_table_descends [OF wf parts nx] obtain N where d: "descends m l t i S n m1 N"
    by (auto simp: i_def)
  have wf1: "pt_wf m1 (Suc l) n N"
    and look: "\<And>v'. calculate_index (Suc (Suc l)) v' = i \<Longrightarrow> lookup (Suc (Suc l)) t v' m = lookup (Suc l) n v' m1"
    using d unfolding descends_def by blast+
  from Suc.IH [OF wf1 rec] obtain N' where N': "pt_wf m' (Suc l) n N'" "N' \<subseteq> N \<union> free_set m1"
      "free_set m' \<subseteq> N \<union> free_set m1" and same: "\<forall>x. x \<notin> N \<union> free_set m1 \<longrightarrow> tables m' x = tables m1 x"
      and eff: "map_effect (Suc l) n v p r m1 m'" by blast
  note asc = ascend [OF wf parts d N' same [rule_format]]
  have "map_effect (Suc (Suc l)) t v p r m m'"
  proof -
    have eq: "lookup (Suc (Suc l)) t v' m' = lookup (Suc (Suc l)) t v' m"
      if "calculate_index (Suc (Suc l)) v' = i \<Longrightarrow> lookup (Suc l) n v' m' = lookup (Suc l) n v' m1" for v'
      using that asc(5) [of v'] asc(6) [of v'] look [of v'] by (cases "calculate_index (Suc (Suc l)) v' = i") simp_all
    show ?thesis
      using eff eq asc(6) [of v] look [of v]
      by (auto simp: map_effect_def i_def same_path_Suc split: sum.splits)
  qed
  with asc(1,2,3,4) show ?case unfolding T by blast
qed

lemma page_table_new_total:
  assumes "frame_inv (frames m)" "free_frames (frames m) \<noteq> {#}"
  shows "\<exists>n m1. page_table_new m = Some (n, m1) \<and> frame_ok n \<and> free_frames (frames m) = add_mset n (free_frames (frames m1))"
proof -
  from frames.alloc_total [OF assms(1)] obtain r fs where al: "allocate_page (frames m) = Some (r, fs)" by blast
  with frames.alloc_None [OF assms(1), of fs] assms(2) obtain n where "r = Some n" by (cases r) auto
  with al frames.alloc_Some [OF assms(1), of n fs] frames.alloc_fresh [OF assms(1), of n fs] show ?thesis
    by (auto simp: page_table_new_def)
qed

lemma next_table_total:
  assumes "frame_inv (frames m)" "free_frames (frames m) \<noteq> {#}" "\<not> (present (tables m t i) \<and> larger_pages (tables m t i))"
  shows "\<exists>n m1. next_table t i m = Some (n, m1) \<and>
    size (free_frames (frames m)) \<le> Suc (size (free_frames (frames m1)))"
proof (cases "present (tables m t i)")
  case True
  with assms show ?thesis by (simp add: next_table_def Let_def)
next
  case False
  from page_table_new_total [OF assms(1,2)] obtain n m1 where new: "page_table_new m = Some (n, m1)" "frame_ok n"
      "free_frames (frames m) = add_mset n (free_frames (frames m1))" by blast
  from frame_ok_52 [OF new(2)] False new show ?thesis
    by (simp add: next_table_def Let_def write_entry_def set_address_eq)
qed

lemma pt_map_total:
  assumes p: "p < 2 ^ 52" "0x1000 dvd p"
  shows "pt_wf m (Suc l) t T \<Longrightarrow> lookup (Suc l) t v m \<noteq> None \<Longrightarrow> l \<le> size (free_frames (frames m)) \<Longrightarrow>
     \<exists>r m'. pt_map (Suc l) 1 t v p flags m = Some (r, m')"
proof (induction l arbitrary: m t T)
  case 0
  from p(1) show ?case by (auto simp: map_inner_def Let_def set_address_eq)
next
  case (Suc l)
  define i where "i = calculate_index (Suc (Suc l)) v"
  from Suc.prems(1) obtain S where T: "T = whole (tables m) t S" and parts: "parts (tables m) (Suc l) t S"
    unfolding pt_wf_def tree_parts by blast
  note wf = Suc.prems(1) [unfolded T]
  have "\<not> (present (tables m t i) \<and> larger_pages (tables m t i))"
    using Suc.prems(2) lookup_large [of m t l v] by (auto simp: i_def)
  moreover have "free_frames (frames m) \<noteq> {#}" using Suc.prems(3) by auto
  ultimately obtain n m1 where nx: "next_table t i m = Some (n, m1)"
      "size (free_frames (frames m)) \<le> Suc (size (free_frames (frames m1)))"
    using next_table_total [of m t i] Suc.prems(1) by (auto simp: pt_wf_def)
  from next_table_descends [OF wf parts nx(1)] obtain N where d: "descends m l t i S n m1 N"
    by (auto simp: i_def)
  have "pt_wf m1 (Suc l) n N" "lookup (Suc l) n v m1 \<noteq> None"
    using d Suc.prems(2) unfolding descends_def i_def by auto
  from Suc.IH [OF this] nx Suc.prems(3) show ?case by (simp add: i_def)
qed

subsection \<open>Unmapping a page\<close>

definition unmap_effect :: "nat \<Rightarrow> nat \<Rightarrow> page \<Rightarrow> UnMapMemoryError + nat \<Rightarrow> phys \<Rightarrow> phys \<Rightarrow> bool" where
  "unmap_effect l t v r m m' \<longleftrightarrow>
     (case r of
        Inl e \<Rightarrow> e = MemNotMapped v \<and> lookup l t v m = Some None
      | Inr w \<Rightarrow> w = v \<and> (\<exists>p. lookup l t v m = Some (Some p))) \<and>
     lookup l t v m' = Some None \<and>
     (\<forall>v'. \<not> same_path l v v' \<longrightarrow> lookup l t v' m' = lookup l t v' m)"

lemma pt_unmap_leaf:
  assumes wf: "pt_wf m (Suc 0) t T"
  shows "\<exists>r m'. unmap_inner 1 t v m = Some (r, m') \<and> pt_wf m' (Suc 0) t T \<and> free_set m' = free_set m \<and>
     (\<forall>x. x \<noteq> t \<longrightarrow> tables m' x = tables m x) \<and> unmap_effect (Suc 0) t v r m m'"
proof -
  define i where "i = calculate_index 1 v"
  from wf have lf: "leaf_ok (tables m) t" "frame_ok t" "T = {t}" by (auto simp: pt_wf_def)
  show ?thesis
  proof (cases "present (tables m t i)")
    case False
    then have "lookup (Suc 0) t v m = Some None" by (simp add: leaf_lookup address_of_inner_def i_def)
    with False wf show ?thesis by (auto simp: unmap_inner_def i_def unmap_effect_def)
  next
    case True
    define e where "e = (tables m t i)\<lparr>present := False, internal_address := 0\<rparr>"
    define m' where "m' = write_entry t i e m"
    have tb: "tables m' = (tables m)(t := (tables m t)(i := e))" "frames m' = frames m"
      by (simp_all add: m'_def write_entry_def)
    have e: "\<not> present e" by (simp add: e_def)
    have lg: "\<not> larger_pages (tables m t i)" using True lf(1) by (simp add: leaf_ok_def)
    then have un: "unmap_inner 1 t v m = Some (Inr v, m')"
      using True by (simp add: unmap_inner_def i_def LARGER_PAGES_def set_address_eq m'_def e_def Let_def)
    have "leaf_ok (tables m') t" using lf(1) e by (simp add: leaf_ok_def tb)
    then have "pt_wf m' (Suc 0) t T" using wf lf by (simp add: pt_wf_def tb)
    moreover have "lookup (Suc 0) t v m = Some (Some (get_address (tables m t i)))" "lookup (Suc 0) t v m' = Some None"
      using True lf(1) e
      by (simp_all add: leaf_lookup address_of_inner_def LARGER_PAGES_def level_size_def i_def tb leaf_ok_def)
    moreover have "lookup (Suc 0) t v' m' = lookup (Suc 0) t v' m" if "\<not> same_path (Suc 0) v v'" for v'
    proof -
      have "calculate_index 1 v' \<noteq> i" using that by (auto simp: same_path_def i_def le_Suc_eq)
      then show ?thesis by (simp add: leaf_lookup address_of_inner_def tb)
    qed
    ultimately show ?thesis using un tb by (auto simp: unmap_effect_def)
  qed
qed

text \<open>Giving an empty table back keeps the translation.\<close>

lemma clean_up_ok:
  assumes wf: "pt_wf m (Suc (Suc l)) t (whole (tables m) t S)" and parts: "parts (tables m) (Suc l) t S"
    and nd: "node (tables m) t i" "get_address (tables m t i) = n"
  shows "\<exists>m' T'. clean_up t i n m = Some m' \<and> pt_wf m' (Suc (Suc l)) t T' \<and> T' \<subseteq> whole (tables m) t S \<and>
     free_set m' \<subseteq> insert n (free_set m) \<and> (\<forall>x. x \<noteq> t \<longrightarrow> tables m' x = tables m x) \<and>
     (\<forall>v. lookup (Suc (Suc l)) t v m' = lookup (Suc (Suc l)) t v m)"
proof (cases "all_entries_empty m n")
  case False
  then have "clean_up t i n m = Some m" by (simp add: clean_up_def)
  with wf show ?thesis by blast
next
  case True
  then have empty: "\<not> present (tables m n j)" if "j < 512" for j
    using that by (auto simp: all_entries_empty_def list_all_iff)
  have tr: "tree (tables m) (Suc l) n (S i)" "t \<notin> S i" using partsD [OF parts nd(1)] nd(2) by auto
  have Si: "S i = {n}" using tree_empty [OF tr(1) empty] .
  then have bl: "below (tables m) t i S = {n}" using nd(1) by (simp add: below_def)
  have n: "frame_ok n" "n \<in> whole (tables m) t S" "n \<noteq> t"
    using tree_root [OF tr(1)] tr(2) Si nd(1) by (auto simp: whole_def)
  have nf: "n \<notin># free_frames (frames m)" using wf n(2) by (auto simp: pt_wf_def)
  define e where "e = (tables m t i)\<lparr>present := False, internal_address := 0\<rparr>"
  define m' where "m' = (write_entry t i e m)\<lparr>frames := frame_free_page n (frames m)\<rparr>"
  have tb: "tables m' = (tables m)(t := (tables m t)(i := e))" "frames m' = frame_free_page n (frames m)"
    by (simp_all add: m'_def write_entry_def)
  have ok: "clean_up t i n m = Some m'"
    using True frame_ok_page_new [OF n(1)]
    by (simp add: clean_up_def set_address_eq m'_def e_def write_entry_def)
  have same: "tables m' x = tables m x" if "x \<in> whole (tables m) t S - below (tables m) t i S - {t}" for x
    using that by (simp add: tb)
  have root: "tables m' t j = tables m t j" if "j \<noteq> i" for j using that by (simp add: tb)
  have gone: "\<not> node (tables m') t i" by (simp add: tb node_def e_def)
  note rem = parts_remove [OF parts same root gone]
  have fo: "frame_ok t" using wf by (simp add: pt_wf_def tree_parts)
  have "tree (tables m') (Suc (Suc l)) t (whole (tables m) t S - {n})"
    unfolding tree_parts using fo rem bl by auto
  moreover have "frame_inv (frames m')"
    using frames.free_inv [OF _ n(1) nf] wf by (simp add: tb pt_wf_def)
  moreover have "(whole (tables m) t S - {n}) \<inter> free_set m' = {}"
    using wf by (auto simp: tb pt_wf_def)
  ultimately have "pt_wf m' (Suc (Suc l)) t (whole (tables m) t S - {n})" by (simp add: pt_wf_def)
  moreover have "lookup (Suc (Suc l)) t v m' = lookup (Suc (Suc l)) t v m" for v
  proof (cases "calculate_index (Suc (Suc l)) v = i")
    case True
    have "\<not> present (tables m' t i)" by (simp add: tb e_def)
    moreover have "lookup (Suc l) n v m = Some None" using empty by (rule lookup_zero)
    ultimately show ?thesis using True nd lookup_node [of m t l v] lookup_absent [of m' t l v] by simp
  next
    case False
    show ?thesis by (rule lookup_other [OF parts same root False])
  qed
  ultimately show ?thesis using ok tb by (intro exI conjI) auto
qed

lemma pt_unmap_ok:
  "pt_wf m (Suc l) t T \<Longrightarrow> lookup (Suc l) t v m \<noteq> None \<Longrightarrow>
   \<exists>r m' T'. pt_unmap (Suc l) 1 t v m = Some (r, m') \<and> pt_wf m' (Suc l) t T' \<and> T' \<subseteq> T \<union> free_set m \<and>
     free_set m' \<subseteq> T \<union> free_set m \<and> (\<forall>x. x \<notin> T \<union> free_set m \<longrightarrow> tables m' x = tables m x) \<and>
     unmap_effect (Suc l) t v r m m'"
proof (induction l arbitrary: m t T)
  case 0
  have "T = {t}" using "0.prems"(1) by (simp add: pt_wf_def)
  with pt_unmap_leaf [OF "0.prems"(1), of v] show ?case by auto
next
  case (Suc l)
  define i where "i = calculate_index (Suc (Suc l)) v"
  from Suc.prems(1) obtain S where T: "T = whole (tables m) t S" and parts: "parts (tables m) (Suc l) t S"
    unfolding pt_wf_def tree_parts by blast
  note wf = Suc.prems(1) [unfolded T]
  show ?case
  proof (cases "present (tables m t i)")
    case False
    then have "lookup (Suc (Suc l)) t v m = Some None" using lookup_absent [of m t l v] by (simp add: i_def)
    moreover have "pt_unmap (Suc (Suc l)) 1 t v m = Some (Inl (MemNotMapped v), m)"
      using False by (simp add: i_def Let_def)
    ultimately show ?thesis using Suc.prems(1) by (auto simp: unmap_effect_def)
  next
    case True
    have small: "\<not> larger_pages (tables m t i)"
      using Suc.prems(2) True lookup_large [of m t l v] by (auto simp: i_def)
    define n where "n = get_address (tables m t i)"
    have nx: "next_table t i m = Some (n, m)" using True small by (simp add: next_table_def n_def Let_def)
    from next_table_descends [OF wf parts nx] obtain N where d: "descends m l t i S n m N"
      by (auto simp: i_def)
    have wf1: "pt_wf m (Suc l) n N"
      and look: "\<And>v'. calculate_index (Suc (Suc l)) v' = i \<Longrightarrow> lookup (Suc (Suc l)) t v' m = lookup (Suc l) n v' m"
      and tN: "t \<notin> N \<union> free_set m" "N \<union> free_set m \<subseteq> below (tables m) t i S \<union> free_set m"
      using d unfolding descends_def by blast+
    have "lookup (Suc l) n v m \<noteq> None" using look [of v] Suc.prems(2) by (simp add: i_def)
    from Suc.IH [OF wf1 this] obtain r m1 N' where un: "pt_unmap (Suc l) 1 n v m = Some (r, m1)"
        and N': "pt_wf m1 (Suc l) n N'" "N' \<subseteq> N \<union> free_set m" "free_set m1 \<subseteq> N \<union> free_set m"
        and same: "\<forall>x. x \<notin> N \<union> free_set m \<longrightarrow> tables m1 x = tables m x"
        and eff: "unmap_effect (Suc l) n v r m m1" by blast
    note asc = ascend [OF wf parts d N' same [rule_format]]
    let ?T1 = "whole (tables m) t S - below (tables m) t i S \<union> N'"
    from asc(1) obtain S1 where T1: "?T1 = whole (tables m1) t S1" and parts1: "parts (tables m1) (Suc l) t S1"
      unfolding pt_wf_def tree_parts by blast
    have "tables m1 t = tables m t" using same tN(1) by blast
    then have nd: "node (tables m1) t i" "get_address (tables m1 t i) = n"
      using True small by (auto simp: node_def i_def n_def)
    from clean_up_ok [OF asc(1) [unfolded T1] parts1 nd] obtain m' T' where
      cl: "clean_up t i n m1 = Some m'" and T': "pt_wf m' (Suc (Suc l)) t T'" "T' \<subseteq> ?T1"
        "free_set m' \<subseteq> insert n (free_set m1)"
      and rest: "\<forall>x. x \<noteq> t \<longrightarrow> tables m' x = tables m1 x" "\<forall>v. lookup (Suc (Suc l)) t v m' = lookup (Suc (Suc l)) t v m1"
      unfolding T1 by blast
    have "n \<in> N'" using tree_root N'(1) by (auto simp: pt_wf_def)
    then have nT: "n \<in> T \<union> free_set m" using asc(2) unfolding T by blast
    have "pt_unmap (Suc (Suc l)) 1 t v m = Some (r, m')"
      using True small un cl by (simp add: i_def n_def Let_def)
    moreover have "tables m' x = tables m x" if "x \<notin> T \<union> free_set m" for x
      using that asc(4) [of x] rest(1) unfolding T by (auto simp: whole_def)
    moreover have "unmap_effect (Suc (Suc l)) t v r m m'"
    proof -
      have eq: "lookup (Suc (Suc l)) t v' m' = lookup (Suc (Suc l)) t v' m"
        if "calculate_index (Suc (Suc l)) v' = i \<Longrightarrow> lookup (Suc l) n v' m1 = lookup (Suc l) n v' m" for v'
        using that asc(5) [of v'] asc(6) [of v'] look [of v'] rest(2)
        by (cases "calculate_index (Suc (Suc l)) v' = i") simp_all
      show ?thesis
        using eff eq asc(6) [of v] look [of v] rest(2)
        by (auto simp: unmap_effect_def i_def same_path_Suc split: sum.splits)
    qed
    ultimately show ?thesis using T' asc(2,3) nT unfolding T by blast
  qed
qed

subsection \<open>The four-level tables implement a map from pages to frames\<close>

lemma same_path_mod:
  assumes "same_path 4 v v'"
  shows "v div 2 ^ 12 mod 2 ^ 36 = v' div 2 ^ 12 mod 2 ^ 36"
proof -
  have ix: "calculate_index j v = calculate_index j v'" if "1 \<le> j" "j \<le> 4" for j
    using assms that by (simp add: same_path_def)
  have four: "x mod 2 ^ 36 = ((x div 2 ^ (9 * 3) mod 2 ^ 9 * 2 ^ 9 + x div 2 ^ (9 * 2) mod 2 ^ 9) * 2 ^ 9
      + x div 2 ^ (9 * 1) mod 2 ^ 9) * 2 ^ 9 + x div 2 ^ (9 * 0) mod 2 ^ 9" for x :: nat
    using mod_mult2_eq [of x "2 ^ 9" "2 ^ 27"] mod_mult2_eq [of "x div 2 ^ 9" "2 ^ 9" "2 ^ 18"]
      mod_mult2_eq [of "x div 2 ^ 18" "2 ^ 9" "2 ^ 9"]
    by (simp add: div_mult2_eq [symmetric])
  have part: "v div 2 ^ 12 div 2 ^ (9 * k) mod 2 ^ 9 = v' div 2 ^ 12 div 2 ^ (9 * k) mod 2 ^ 9" if "k < 4" for k
    using ix [of "Suc k"] that
    by (simp add: calculate_index_def low_bits_def shr_def div_mult2_eq [symmetric] power_add mult.commute)
  have p: "v div 2 ^ 12 div 2 ^ (9 * 0) mod 2 ^ 9 = v' div 2 ^ 12 div 2 ^ (9 * 0) mod 2 ^ 9"
    "v div 2 ^ 12 div 2 ^ (9 * 1) mod 2 ^ 9 = v' div 2 ^ 12 div 2 ^ (9 * 1) mod 2 ^ 9"
    "v div 2 ^ 12 div 2 ^ (9 * 2) mod 2 ^ 9 = v' div 2 ^ 12 div 2 ^ (9 * 2) mod 2 ^ 9"
    "v div 2 ^ 12 div 2 ^ (9 * 3) mod 2 ^ 9 = v' div 2 ^ 12 div 2 ^ (9 * 3) mod 2 ^ 9"
    by (rule part, simp)+
  show ?thesis
    by (simp only: four [of "v div 2 ^ 12"] four [of "v' div 2 ^ 12"] p)
qed

lemma page_newD:
  assumes "page_new S a = Some p"
  shows "PAGE_SIZE S dvd a" "a < 2 ^ 47 \<or> 2 ^ 64 - 2 ^ 47 \<le> a \<and> a < 2 ^ 64"
proof -
  have "shr 48 a = 0 \<or> shr 48 a = 0xFFFF"
    using assms unfolding page_new_def Let_def by (auto simp: bind_eq_Some_conv)
  then have "a < 2 ^ 64" by (auto simp: shr_def)
  with assms show "PAGE_SIZE S dvd a" "a < 2 ^ 47 \<or> 2 ^ 64 - 2 ^ 47 \<le> a \<and> a < 2 ^ 64"
    by (auto simp: page_new_Some canonical_def)
qed

lemma page_path_inj:
  assumes "page_new Size4KB v = Some v" "page_new Size4KB v' = Some v'"
  shows "same_path 4 v v' \<longleftrightarrow> v = v'"
proof
  assume sp: "same_path 4 v v'"
  have pg: "0x1000 dvd x" "x < 2 ^ 47 \<or> 2 ^ 64 - 2 ^ 47 \<le> x \<and> x < 2 ^ 64" if "page_new Size4KB x = Some x" for x
    using page_newD [OF that] by (auto simp: PAGE_SIZE_def)
  obtain q q' where q: "v = 0x1000 * q" "v' = 0x1000 * q'"
    using pg(1) [OF assms(1)] pg(1) [OF assms(2)] by (auto elim!: dvdE)
  have fold36: "x mod 2 ^ 36 = (if x < 2 ^ 35 then x else x - (2 ^ 52 - 2 ^ 36))"
    if "x < 2 ^ 35 \<or> 2 ^ 52 - 2 ^ 35 \<le> x \<and> x < 2 ^ 52" for x :: nat
  proof (cases "x < 2 ^ 35")
    case False
    define d where "d = x - 2 ^ 36 * (2 ^ 16 - 1)"
    have d: "x = d + 2 ^ 36 * (2 ^ 16 - 1)" "d < 2 ^ 36" using that False by (auto simp: d_def)
    have "x mod 2 ^ 36 = d" unfolding d(1) mod_mult_self2 using d(2) by (rule mod_less)
    then show ?thesis using False d(1) by simp
  qed simp
  have eq: "q mod 2 ^ 36 = q' mod 2 ^ 36" using same_path_mod [OF sp] q by simp
  have rq: "q < 2 ^ 35 \<or> 2 ^ 52 - 2 ^ 35 \<le> q \<and> q < 2 ^ 52" using pg(2) [OF assms(1)] q by auto
  have rq': "q' < 2 ^ 35 \<or> 2 ^ 52 - 2 ^ 35 \<le> q' \<and> q' < 2 ^ 52" using pg(2) [OF assms(2)] q by auto
  have "q = q'"
    using eq rq rq' unfolding fold36 [OF rq] fold36 [OF rq'] by (auto split: if_splits)
  then show "v = v'" using q by simp
qed (simp add: same_path_def)

text \<open>The address space a level-4 table describes: what each page is translated to.\<close>

definition space :: "nat \<Rightarrow> phys \<Rightarrow> page \<Rightarrow> page option" where
  "space t m v = (case lookup 4 t v m of Some r \<Rightarrow> r | None \<Rightarrow> None)"

abbreviation agree :: "(page \<Rightarrow> page option) \<Rightarrow> (page \<Rightarrow> page option) \<Rightarrow> bool" where
  "agree f g \<equiv> \<forall>v. page_new Size4KB v = Some v \<longrightarrow> f v = g v"

lemma map_page_refines:
  assumes "pt_wf m 4 t T" and v: "page_new Size4KB v = Some v" and p: "page_new Size4KB p = Some p" "p < 2 ^ 52"
    and "pt_address_of 4 1 t v m \<noteq> None" and "3 \<le> size (free_frames (frames m))"
  shows "\<exists>r m' T'. pt_map 4 1 t v p flags m = Some (r, m') \<and> pt_wf m' 4 t T' \<and> T' \<subseteq> T \<union> free_set m \<and>
     (case space t m v of
        None \<Rightarrow> r = Inr v \<and> agree (space t m') ((space t m)(v := Some p))
      | Some c \<Rightarrow> r = Inl (MemAlreadyMapped v p c) \<and> agree (space t m') (space t m))"
proof -
  have four: "4 = Suc 3" by simp
  have al: "0x1000 dvd p" using page_newD(1) [OF p(1)] by (simp add: PAGE_SIZE_def)
  from pt_map_total [OF p(2) al, of m 3 t T v flags] assms obtain r m' where
    map: "pt_map 4 1 t v p flags m = Some (r, m')" by auto
  from pt_map_ok [OF p al, of m 3 t T v flags r m'] assms(1) map obtain T' where
    T': "pt_wf m' 4 t T'" "T' \<subseteq> T \<union> free_set m" "map_effect 4 t v p r m m'" by auto
  have "case space t m v of
        None \<Rightarrow> r = Inr v \<and> agree (space t m') ((space t m)(v := Some p))
      | Some c \<Rightarrow> r = Inl (MemAlreadyMapped v p c) \<and> agree (space t m') (space t m)"
    using T'(3) page_path_inj [OF v] by (auto simp: map_effect_def space_def split: sum.splits option.splits)
  with map T' show ?thesis by blast
qed

lemma map_page_space:
  assumes "pt_wf m 4 t T" "page_new Size4KB v = Some v" "page_new Size4KB p = Some p" "p < 2 ^ 52"
    "pt_address_of 4 1 t v m \<noteq> None" "3 \<le> size (free_frames (frames m))"
  shows "\<exists>r m' T'. pt_map 4 1 t v p flags m = Some (r, m') \<and> pt_wf m' 4 t T' \<and>
     agree (space t m') (case space t m v of None \<Rightarrow> (space t m)(v := Some p) | Some _ \<Rightarrow> space t m)"
  using map_page_refines [OF assms, of flags] by (auto split: option.splits)

text \<open>
  C7. The four-level page tables implement a finite map from pages to frames. With three free
  frames left and no huge page on the path, mapping a 4 KiB page does not panic; a page that is
  not mapped becomes mapped to exactly the given frame and every other page keeps its
  translation; a page that is mapped is refused with its current frame and nothing changes. The
  tables stay a tree of frames that are not free.
\<close>

theorem page_table_map_refines:
  assumes "pt_wf m 4 t T" and v: "page_new Size4KB v = Some v" and p: "page_new Size4KB p = Some p" "p < 2 ^ 52"
    and "pt_address_of 4 1 t v m \<noteq> None" and "3 \<le> size (free_frames (frames m))"
  shows "\<exists>r m' T'. pt_map 4 1 t v p flags m = Some (r, m') \<and> pt_wf m' 4 t T' \<and> T' \<subseteq> T \<union> free_set m \<and>
     (case space t m v of
        None \<Rightarrow> r = Inr v \<and> agree (space t m') ((space t m)(v := Some p))
      | Some c \<Rightarrow> r = Inl (MemAlreadyMapped v p c) \<and> agree (space t m') (space t m))"
  using map_page_refines [OF assms] .

text \<open>A machine with four free frames and one empty level-4 table.\<close>

definition small_machine :: phys where
  "small_machine = \<lparr>tables = (\<lambda>_ _. zero_entry), frames = four_frames\<rparr>"

lemma small_machine_wf: "pt_wf small_machine 4 0x9000 {0x9000}"
proof -
  have "tree (\<lambda>_ _. zero_entry) (Suc 3) 0x9000 {0x9000}"
    by (rule tree_zero) (auto simp: frame_ok_def zero_entry_def)
  then have "tree (\<lambda>_ _. zero_entry) 4 0x9000 {0x9000}" by simp
  then show ?thesis
    by (auto simp: pt_wf_def small_machine_def frame_inv_def four_frames_free frame_ok_def)
qed

lemma small_machine_empty: "pt_address_of 4 (Suc 0) 0x9000 v small_machine = Some None"
  using lookup_zero [of small_machine "0x9000" 3 v] by (simp add: small_machine_def zero_entry_def)

lemma small_machine_free: "free_frames (frames small_machine) = {#0x4000, 0x5000, 0x6000, 0x7000#}"
  by (simp add: small_machine_def four_frames_free)

theorem page_table_map_refines_witness:
  "\<exists>m'. pt_map 4 1 0x9000 0x200000 0xB000 WRITEABLE small_machine = Some (Inr 0x200000, m') \<and>
     space 0x9000 m' 0x200000 = Some 0xB000 \<and> space 0x9000 m' 0x201000 = None"
proof -
  have pg: "page_new Size4KB 0x200000 = Some 0x200000" "page_new Size4KB 0x201000 = Some 0x201000"
    "page_new Size4KB 0xB000 = Some 0xB000"
    by (auto simp: page_new_Some canonical_def PAGE_SIZE_def)
  have none: "space 0x9000 small_machine v = None" for v
    by (simp add: space_def small_machine_empty)
  show ?thesis
    using page_table_map_refines [OF small_machine_wf pg(1,3), of WRITEABLE] pg(1,2)
    by (auto simp: none small_machine_empty small_machine_free)
qed



end
