(* ===== verification/Page_Mapper.thy ===== *)
theory Page_Mapper
  imports Page_Table_Refinement
begin

text \<open>
  Address spaces (\<open>kernel/src/paging/page_mapper.rs\<close>): memory objects (\<open>PageMapping\<close>, reference
  counted), the ordered list of mapped ranges of a process, inserting and removing mappings and the
  page fault handler that fills them in on demand.
\<close>

subsection \<open>Memory objects\<close>

datatype PageMappingType = MMAP nat | LazyMapping "page option list"

record PageMapping =
  pm_size :: nat
  pm_mapping :: PageMappingType

text \<open>Physical memory with the memory objects, their contents and strong counts by reference.\<close>

record vm =
  vm_phys :: phys
  store :: "nat \<Rightarrow> PageMapping"
  strong :: "nat \<Rightarrow> nat"

definition new_lazy :: "nat \<Rightarrow> PageMapping option" where
  "new_lazy sz = do {
     n \<leftarrow> add_usize sz 0xFFF;
     Some \<lparr>pm_size = sz, pm_mapping = LazyMapping (replicate (n div 0x1000) None)\<rparr>
   }"

primrec allocate_each :: "nat \<Rightarrow> PageFrameAllocator \<Rightarrow> (page option list \<times> PageFrameAllocator) option" where
  "allocate_each 0 a = Some ([], a)"
| "allocate_each (Suc n) a = do {
     (p, a1) \<leftarrow> allocate_page a;
     (ps, a2) \<leftarrow> allocate_each n a1;
     Some (p # ps, a2)
   }"

definition new_lazy_filled :: "nat \<Rightarrow> PageFrameAllocator \<Rightarrow> (PageMapping \<times> PageFrameAllocator) option" where
  "new_lazy_filled sz a = do {
     n \<leftarrow> add_usize sz 0xFFF;
     (ps, a') \<leftarrow> allocate_each (n div 0x1000) a;
     Some (\<lparr>pm_size = sz, pm_mapping = LazyMapping ps\<rparr>, a')
   }"

definition new_lazy_prealloc :: "page option list \<Rightarrow> PageMapping" where
  "new_lazy_prealloc pages = \<lparr>pm_size = length pages * 0x1000, pm_mapping = LazyMapping pages\<rparr>"

definition new_mmap :: "nat \<Rightarrow> nat \<Rightarrow> PageMapping option" where
  "new_mmap base_address sz = do {
     rassert (low_bits 12 base_address = 0);
     rassert (low_bits 12 sz = 0);
     Some \<lparr>pm_size = sz, pm_mapping = MMAP base_address\<rparr>
   }"

text \<open>A page of a memory object, allocated on first use.\<close>

definition lazy_page :: "nat \<Rightarrow> nat \<Rightarrow> vm \<Rightarrow> (page \<times> vm) option" where
  "lazy_page r i v =
     (case pm_mapping (store v r) of
        MMAP _ \<Rightarrow> None
      | LazyMapping pages \<Rightarrow>
          if i < length pages then
            (case pages ! i of
               Some p \<Rightarrow> Some (p, v)
             | None \<Rightarrow> do {
                 (al, fs) \<leftarrow> allocate_page (frames (vm_phys v));
                 p \<leftarrow> al;
                 Some (p, v\<lparr>vm_phys := (vm_phys v)\<lparr>frames := fs\<rparr>,
                   store := (store v)(r := (store v r)\<lparr>pm_mapping := LazyMapping (pages[i := Some p])\<rparr>)\<rparr>)
               })
          else None)"

definition base_top_stack :: "nat \<Rightarrow> vm \<Rightarrow> (nat \<times> vm) option" where
  "base_top_stack r v =
     (case pm_mapping (store v r) of
        MMAP _ \<Rightarrow> None
      | LazyMapping pages \<Rightarrow> do {
          i \<leftarrow> sub_usize (length pages) 1;
          lazy_page r i v
        })"

text \<open>Dropping a reference: the last one frees the frames of the object.\<close>

definition free_all :: "page option list \<Rightarrow> PageFrameAllocator \<Rightarrow> PageFrameAllocator" where
  "free_all ps a = fold (\<lambda>p. case p of Some q \<Rightarrow> frame_free_page q | None \<Rightarrow> id) ps a"

definition drop_mapping :: "nat \<Rightarrow> vm \<Rightarrow> vm" where
  "drop_mapping r v =
     (if strong v r = 1 then
        (case pm_mapping (store v r) of
           MMAP _ \<Rightarrow> v\<lparr>strong := (strong v)(r := 0)\<rparr>
         | LazyMapping ps \<Rightarrow> v\<lparr>strong := (strong v)(r := 0),
             vm_phys := (vm_phys v)\<lparr>frames := free_all ps (frames (vm_phys v))\<rparr>\<rparr>)
      else v\<lparr>strong := (strong v)(r := strong v r - 1)\<rparr>)"

subsection \<open>The mapped ranges\<close>

type_synonym mapped = "(nat \<times> nat) \<times> nat \<times> MemoryMappingFlags"

abbreviation m_start :: "mapped \<Rightarrow> nat" where "m_start m \<equiv> fst (fst m)"
abbreviation m_end :: "mapped \<Rightarrow> nat" where "m_end m \<equiv> snd (fst m)"

record PageMapperManager =
  page_mapper :: nat
  mappings :: "mapped list"

definition cmp_nat :: "nat \<Rightarrow> nat \<Rightarrow> ordering" where
  "cmp_nat a b = (if a < b then Less else if a = b then Equal else Greater)"

lemma cmp_nat_iff [simp]:
  "cmp_nat a b = Less \<longleftrightarrow> a < b" "cmp_nat a b = Equal \<longleftrightarrow> a = b" "cmp_nat a b = Greater \<longleftrightarrow> b < a"
  by (auto simp: cmp_nat_def)

definition insert_at :: "nat \<Rightarrow> 'a \<Rightarrow> 'a list \<Rightarrow> 'a list" where
  "insert_at i x xs = take i xs @ x # drop i xs"

definition mapper_new :: "nat \<Rightarrow> nat \<Rightarrow> nat \<Rightarrow> nat \<Rightarrow> vm \<Rightarrow> (PageMapperManager \<times> vm) option" where
  "mapper_new offset_map kernel_data kernel_heap per_cpu v = do {
     (t, p) \<leftarrow> new_with_global offset_map kernel_data kernel_heap per_cpu (vm_phys v);
     Some (\<lparr>page_mapper = t, mappings = []\<rparr>, v\<lparr>vm_phys := p\<rparr>)
   }"

text \<open>
  The place of a new range: \<open>Some None\<close> when it touches a mapped one, and the panic of
  \<open>unwrap_err\<close> when the search finds a range with the same start.
\<close>

definition find_place :: "nat \<Rightarrow> nat \<Rightarrow> mapped list \<Rightarrow> nat option option" where
  "find_place base_addr stop ms =
     (if list_ex (\<lambda>m. base_addr < m_end m \<and> m_start m \<le> stop) ms then Some None
      else (case binary_search_by (\<lambda>m. cmp_nat (m_start m) base_addr) ms of
              Inr _ \<Rightarrow> None
            | Inl idx \<Rightarrow> Some (Some idx)))"

definition insert_mapping_at ::
  "nat \<Rightarrow> nat \<Rightarrow> MemoryMappingFlags \<Rightarrow> PageMapperManager \<Rightarrow> vm \<Rightarrow> (bool \<times> PageMapperManager) option" where
  "insert_mapping_at base_addr r flags g v = do {
     rassert (low_bits 12 base_addr = 0);
     stop \<leftarrow> add_usize base_addr (pm_size (store v r));
     place \<leftarrow> find_place base_addr stop (mappings g);
     Some (case place of
       None \<Rightarrow> (False, g)
     | Some idx \<Rightarrow> (True, g\<lparr>mappings := insert_at idx ((base_addr, stop), r, flags) (mappings g)\<rparr>))
   }"

text \<open>Entering the pages of a memory object in the tables at once.\<close>

primrec map_pages :: "nat \<Rightarrow> MemoryMappingFlags \<Rightarrow> (nat \<times> nat) list \<Rightarrow> phys \<Rightarrow> phys option" where
  "map_pages t flags [] p = Some p"
| "map_pages t flags (x # xs) p = do {
     vp \<leftarrow> page_containing Size4KB (snd x);
     pp \<leftarrow> page_new Size4KB (fst x);
     (res, p1) \<leftarrow> pt_map 4 1 t vp pp flags p;
     rassert (\<not> isl res);
     map_pages t flags xs p1
   }"

definition object_pages :: "PageMapping \<Rightarrow> nat \<Rightarrow> nat \<Rightarrow> (nat \<times> nat) list" where
  "object_pages pm base_addr stop =
     (case pm_mapping pm of
        MMAP base_address \<Rightarrow>
          map (\<lambda>i. (base_address + i * 0x1000, step_by 0x1000 base_addr stop ! i)) [0 ..< length (step_by 0x1000 base_addr stop)]
      | LazyMapping pages \<Rightarrow>
          map (\<lambda>(a, i). (the a, i)) (filter (\<lambda>(a, i). a \<noteq> None) (zip pages (step_by 0x1000 base_addr stop))))"

definition insert_mapping_at_set ::
  "nat \<Rightarrow> nat \<Rightarrow> MemoryMappingFlags \<Rightarrow> PageMapperManager \<Rightarrow> vm \<Rightarrow> (bool \<times> PageMapperManager \<times> vm) option" where
  "insert_mapping_at_set base_addr r flags g v = do {
     rassert (low_bits 12 base_addr = 0);
     stop \<leftarrow> add_usize base_addr (pm_size (store v r));
     place \<leftarrow> find_place base_addr stop (mappings g);
     (case place of
        None \<Rightarrow> Some (False, g, v)
      | Some idx \<Rightarrow> do {
          p \<leftarrow> map_pages (page_mapper g) flags (object_pages (store v r) base_addr stop) (vm_phys v);
          Some (True, g\<lparr>mappings := insert_at idx ((base_addr, stop), r, flags) (mappings g)\<rparr>, v\<lparr>vm_phys := p\<rparr>)
        })
   }"

text \<open>
  The first gap between two neighbours that has room after a guard page.  Finding none is a panic,
  as is an end beyond the address range.
\<close>

fun find_gap :: "nat \<Rightarrow> mapped list \<Rightarrow> nat option" where
  "find_gap sz (l # r # ms) =
     (if m_end l + 0x1000 + sz \<ge> usize_bound then None
      else if m_end l + 0x1000 + sz \<le> m_start r then Some 0
      else map_option Suc (find_gap sz (r # ms)))"
| "find_gap sz ms = None"

definition insert_mapping ::
  "nat \<Rightarrow> MemoryMappingFlags \<Rightarrow> PageMapperManager \<Rightarrow> vm \<Rightarrow> (nat \<times> PageMapperManager) option" where
  "insert_mapping r flags g v = do {
     idx \<leftarrow> find_gap (pm_size (store v r)) (mappings g);
     base_addr \<leftarrow> add_usize (m_end (mappings g ! idx)) 0x1000;
     stop \<leftarrow> add_usize base_addr (pm_size (store v r));
     Some (base_addr, g\<lparr>mappings := insert_at (idx + 1) ((base_addr, stop), r, flags) (mappings g)\<rparr>)
   }"

definition insert_mapping_set ::
  "nat \<Rightarrow> MemoryMappingFlags \<Rightarrow> PageMapperManager \<Rightarrow> vm \<Rightarrow> (nat \<times> PageMapperManager \<times> vm) option" where
  "insert_mapping_set r flags g v = do {
     idx \<leftarrow> find_gap (pm_size (store v r)) (mappings g);
     base_addr \<leftarrow> add_usize (m_end (mappings g ! idx)) 0x1000;
     stop \<leftarrow> add_usize base_addr (pm_size (store v r));
     p \<leftarrow> map_pages (page_mapper g) flags (object_pages (store v r) base_addr stop) (vm_phys v);
     Some (base_addr, g\<lparr>mappings := insert_at (idx + 1) ((base_addr, stop), r, flags) (mappings g)\<rparr>, v\<lparr>vm_phys := p\<rparr>)
   }"

subsection \<open>Page faults\<close>

definition cmp_address :: "nat \<Rightarrow> mapped \<Rightarrow> ordering" where
  "cmp_address address m =
     (if m_start m > address then Greater else if m_end m \<le> address then Less else Equal)"

definition fault_page :: "nat \<Rightarrow> nat \<Rightarrow> vm \<Rightarrow> (page \<times> vm) option" where
  "fault_page r offset v =
     (case pm_mapping (store v r) of
        MMAP base_address \<Rightarrow> do {
          a \<leftarrow> add_usize base_address offset;
          p \<leftarrow> page_containing Size4KB a;
          Some (p, v)
        }
      | LazyMapping _ \<Rightarrow> lazy_page r (offset div 0x1000) v)"

definition page_fault_handler :: "nat \<Rightarrow> PageMapperManager \<Rightarrow> vm \<Rightarrow> (bool \<times> vm) option" where
  "page_fault_handler address g v =
     (if address > EndUserMem then Some (False, v)
      else case binary_search_by (cmp_address address) (mappings g) of
        Inl _ \<Rightarrow> Some (False, v)
      | Inr idx \<Rightarrow> do {
          let m = mappings g ! idx;
          (pp, v1) \<leftarrow> fault_page (fst (snd m)) (address - m_start m) v;
          vp \<leftarrow> page_containing Size4KB address;
          (_, p) \<leftarrow> pt_map 4 1 (page_mapper g) vp pp (snd (snd m)) (vm_phys v1);
          Some (True, v1\<lparr>vm_phys := p\<rparr>)
        })"

subsection \<open>Removing a mapping\<close>

text \<open>\<open>Iterator::cmp\<close>, which compares two ranges number by number.\<close>

fun iter_cmp :: "nat list \<Rightarrow> nat list \<Rightarrow> ordering" where
  "iter_cmp [] [] = Equal"
| "iter_cmp [] (_ # _) = Less"
| "iter_cmp (_ # _) [] = Greater"
| "iter_cmp (x # xs) (y # ys) = (if x = y then iter_cmp xs ys else cmp_nat x y)"

definition range_cmp :: "nat \<times> nat \<Rightarrow> nat \<times> nat \<Rightarrow> ordering" where
  "range_cmp a b = iter_cmp [fst a ..< snd a] [fst b ..< snd b]"

primrec unmap_pages :: "nat \<Rightarrow> nat list \<Rightarrow> phys \<Rightarrow> (UnMapMemoryError option \<times> phys) option" where
  "unmap_pages t [] p = Some (None, p)"
| "unmap_pages t (a # as) p = do {
     vp \<leftarrow> page_new Size4KB a;
     (res, p1) \<leftarrow> pt_unmap 4 1 t vp p;
     (case res of
        Inl (PathNotFound e) \<Rightarrow> Some (Some (PathNotFound e), p1)
      | _ \<Rightarrow> unmap_pages t as p1)
   }"

definition free_mapping ::
  "nat \<times> nat \<Rightarrow> PageMapperManager \<Rightarrow> vm \<Rightarrow> ((UnMapMemoryError + unit) \<times> PageMapperManager \<times> vm) option" where
  "free_mapping rg g v =
     (case binary_search_by (\<lambda>m. range_cmp (fst m) rg) (mappings g) of
        Inl _ \<Rightarrow> Some (Inl (MemNotMapped (fst rg)), g, v)
      | Inr idx \<Rightarrow> do {
          let m = mappings g ! idx;
          (e, p) \<leftarrow> unmap_pages (page_mapper g) (step_by 0x1000 (m_start m) (m_end m)) (vm_phys v);
          Some (case e of Some x \<Rightarrow> Inl x | None \<Rightarrow> Inr (),
            g\<lparr>mappings := take idx (mappings g) @ drop (Suc idx) (mappings g)\<rparr>,
            drop_mapping (fst (snd m)) (v\<lparr>vm_phys := p\<rparr>))
        })"

subsection \<open>The ranges stay ordered and disjoint\<close>

definition ordered :: "mapped list \<Rightarrow> bool" where
  "ordered ms \<longleftrightarrow> sorted_wrt (\<lambda>a b. m_end a \<le> m_start b) ms \<and> list_all (\<lambda>m. m_start m < m_end m) ms"

definition touches :: "nat \<Rightarrow> nat \<Rightarrow> mapped \<Rightarrow> bool" where
  "touches a b m \<longleftrightarrow> a < m_end m \<and> m_start m \<le> b"

lemma ordered_nth:
  assumes "ordered ms"
  shows "i < length ms \<Longrightarrow> m_start (ms ! i) < m_end (ms ! i)"
    "i < j \<Longrightarrow> j < length ms \<Longrightarrow> m_end (ms ! i) \<le> m_start (ms ! j)"
  using assms by (auto simp: ordered_def list_all_length sorted_wrt_iff_nth_less)

lemma search_start_sorted: "ordered ms \<Longrightarrow> search_sorted (\<lambda>m. cmp_nat (m_start m) a) ms"
  unfolding search_sorted_def
proof (intro allI impI)
  fix i j
  assume o: "ordered ms" and ij: "j < length ms" "i < j"
  have "m_start (ms ! i) < m_start (ms ! j)"
    using ordered_nth(1) [OF o, of i] ordered_nth(2) [OF o ij(2,1)] ij by simp
  then show "(cmp_nat (m_start (ms ! i)) a = Greater \<longrightarrow> cmp_nat (m_start (ms ! j)) a = Greater) \<and>
      (cmp_nat (m_start (ms ! j)) a = Less \<longrightarrow> cmp_nat (m_start (ms ! i)) a = Less)"
    by auto
qed

lemma search_address_sorted: "ordered ms \<Longrightarrow> search_sorted (cmp_address a) ms"
  unfolding search_sorted_def
proof (intro allI impI)
  fix i j
  assume o: "ordered ms" and ij: "j < length ms" "i < j"
  have "m_start (ms ! i) < m_end (ms ! i)" "m_end (ms ! i) \<le> m_start (ms ! j)" "m_start (ms ! j) < m_end (ms ! j)"
    using ordered_nth(1) [OF o] ordered_nth(2) [OF o ij(2,1)] ij by simp_all
  then show "(cmp_address a (ms ! i) = Greater \<longrightarrow> cmp_address a (ms ! j) = Greater) \<and>
      (cmp_address a (ms ! j) = Less \<longrightarrow> cmp_address a (ms ! i) = Less)"
    by (auto simp: cmp_address_def split: if_splits)
qed

lemma ordered_insert:
  assumes "ordered ms" "m_start x < m_end x" "i \<le> length ms"
    and "\<And>j. j < i \<Longrightarrow> m_end (ms ! j) \<le> m_start x"
    and "\<And>j. i \<le> j \<Longrightarrow> j < length ms \<Longrightarrow> m_end x \<le> m_start (ms ! j)"
  shows "ordered (insert_at i x ms)"
proof -
  have tk: "m_end m \<le> m_start x" if "m \<in> set (take i ms)" for m
    using that assms(3,4) by (auto simp: in_set_conv_nth)
  have dr: "m_end x \<le> m_start m" if "m \<in> set (drop i ms)" for m
    using that assms(5) by (auto simp: in_set_conv_nth)
  have "ordered (take i ms @ drop i ms)" using assms(1) by simp
  then show ?thesis
    using tk dr assms(2) unfolding ordered_def insert_at_def
    by (auto simp: sorted_wrt_append simp del: append_take_drop_id)
qed

lemma find_place_ok:
  assumes o: "ordered ms" and "a < b"
  shows "\<exists>place. find_place a b ms = Some place \<and> (place = None \<longleftrightarrow> list_ex (touches a b) ms) \<and>
     (\<forall>i. place = Some i \<longrightarrow> i \<le> length ms \<and> (\<forall>j < i. m_end (ms ! j) \<le> a) \<and>
        (\<forall>j. i \<le> j \<and> j < length ms \<longrightarrow> b \<le> m_start (ms ! j)))"
proof (cases "list_ex (touches a b) ms")
  case True
  then show ?thesis by (simp add: find_place_def touches_def [abs_def])
next
  case False
  have clear: "m_end (ms ! j) \<le> a \<or> b < m_start (ms ! j)" if "j < length ms" for j
    using False that unfolding list_ex_length touches_def by (meson linorder_not_le)
  note srt = search_start_sorted [OF o, of a]
  show ?thesis
  proof (cases "binary_search_by (\<lambda>m. cmp_nat (m_start m) a) ms")
    case (Inl i)
    from binary_search_by_Err [OF Inl srt] have i: "i \<le> length ms"
      "\<And>j. j < i \<Longrightarrow> m_start (ms ! j) < a" "\<And>j. i \<le> j \<Longrightarrow> j < length ms \<Longrightarrow> a < m_start (ms ! j)"
      by auto
    have "m_end (ms ! j) \<le> a" if "j < i" for j using i(1) i(2) [OF that] clear [of j] that assms(2) by auto
    moreover have "b \<le> m_start (ms ! j)" if "i \<le> j" "j < length ms" for j
      using i(3) [OF that] clear [OF that(2)] ordered_nth(1) [OF o that(2)] by auto
    ultimately show ?thesis using Inl False i(1) by (auto simp: find_place_def touches_def [abs_def])
  next
    case (Inr i)
    from binary_search_by_Ok [OF Inr srt] have i: "i < length ms" "m_start (ms ! i) = a"
      by auto
    with clear [OF i(1)] ordered_nth(1) [OF o i(1)] assms(2) show ?thesis by simp
  qed
qed

lemma find_gap_ok:
  assumes "find_gap sz ms = Some i"
  shows "Suc i < length ms \<and> m_end (ms ! i) + 0x1000 + sz \<le> m_start (ms ! Suc i) \<and>
    m_end (ms ! i) + 0x1000 + sz < usize_bound"
  using assms
proof (induction sz ms arbitrary: i rule: find_gap.induct)
  case (1 sz l r ms)
  then show ?case by (cases i) (auto split: if_splits)
qed simp_all

text \<open>The three ways to change the list keep it ordered.\<close>

lemma insert_gap_ordered:
  assumes o: "ordered ms" and gap: "find_gap sz ms = Some i" and "0 < sz"
  shows "ordered (insert_at (Suc i) ((m_end (ms ! i) + 0x1000, m_end (ms ! i) + 0x1000 + sz), x) ms)"
proof (rule ordered_insert [OF o])
  note g = find_gap_ok [OF gap]
  then show "Suc i \<le> length ms" by simp
  show "m_end (ms ! j) \<le> m_start ((m_end (ms ! i) + 0x1000, m_end (ms ! i) + 0x1000 + sz), x)" if "j < Suc i" for j
  proof (cases "j = i")
    case False
    then have "m_end (ms ! j) \<le> m_start (ms ! i)" "m_start (ms ! i) < m_end (ms ! i)"
      using that g ordered_nth(1) [OF o, of i] ordered_nth(2) [OF o, of j i] by auto
    then show ?thesis by simp
  qed simp
  show "m_end ((m_end (ms ! i) + 0x1000, m_end (ms ! i) + 0x1000 + sz), x) \<le> m_start (ms ! j)"
    if "Suc i \<le> j" "j < length ms" for j
  proof (cases "j = Suc i")
    case False
    then have "m_end (ms ! Suc i) \<le> m_start (ms ! j)" "m_start (ms ! Suc i) < m_end (ms ! Suc i)"
      using that g ordered_nth(1) [OF o, of "Suc i"] ordered_nth(2) [OF o, of "Suc i" j] by auto
    then show ?thesis using g by simp
  qed (use g in simp)
qed (use assms(3) in simp)

lemma ordered_remove: "ordered ms \<Longrightarrow> ordered (take i ms @ drop (Suc i) ms)"
proof -
  assume o: "ordered ms"
  have "ordered (take i ms @ drop i ms)" using o by simp
  moreover have "set (drop (Suc i) ms) \<subseteq> set (drop i ms)" by (rule set_drop_subset_set_drop) simp
  moreover have "sorted_wrt (\<lambda>a b. m_end a \<le> m_start b) (drop (Suc i) ms)"
    using o by (simp add: ordered_def sorted_wrt_drop)
  ultimately show ?thesis
    unfolding ordered_def sorted_wrt_append list_all_append by (auto simp: list_all_iff)
qed


definition sample_space :: PageMapperManager where
  "sample_space = \<lparr>page_mapper = 0x9000, mappings = [((0x400000, 0x402000), 0, 3), ((0x500000, 0x501000), 1, 1)]\<rparr>"

definition sample_vm :: vm where
  "sample_vm = \<lparr>vm_phys = small_machine,
     store = (\<lambda>r. if r = 0 then \<lparr>pm_size = 0x2000, pm_mapping = LazyMapping [None, None]\<rparr>
       else \<lparr>pm_size = 0x1000, pm_mapping = MMAP 0xB000\<rparr>),
     strong = (\<lambda>_. 1)\<rparr>"


subsection \<open>A process's sequence of mapping operations\<close>

inductive mapper_step :: "PageMapperManager \<times> vm \<Rightarrow> PageMapperManager \<times> vm \<Rightarrow> bool" where
  InsertAt: "0 < pm_size (store v r) \<Longrightarrow> insert_mapping_at a r flags g v = Some (ok, g') \<Longrightarrow>
    mapper_step (g, v) (g', v)"
| InsertAtSet: "0 < pm_size (store v r) \<Longrightarrow> insert_mapping_at_set a r flags g v = Some (ok, g', v') \<Longrightarrow>
    mapper_step (g, v) (g', v')"
| Insert: "0 < pm_size (store v r) \<Longrightarrow> insert_mapping r flags g v = Some (a, g') \<Longrightarrow>
    mapper_step (g, v) (g', v)"
| InsertSet: "0 < pm_size (store v r) \<Longrightarrow> insert_mapping_set r flags g v = Some (a, g', v') \<Longrightarrow>
    mapper_step (g, v) (g', v')"
| Fault: "page_fault_handler a g v = Some (ok, v') \<Longrightarrow> mapper_step (g, v) (g, v')"
| Free: "free_mapping rg g v = Some (res, g', v') \<Longrightarrow> mapper_step (g, v) (g', v')"

lemma find_place_ordered:
  assumes "ordered ms" "a < b" "find_place a b ms = Some (Some i)"
  shows "ordered (insert_at i ((a, b), x) ms)"
proof -
  from find_place_ok [OF assms(1,2)] assms(3) have "i \<le> length ms" "\<forall>j < i. m_end (ms ! j) \<le> a"
    "\<forall>j. i \<le> j \<and> j < length ms \<longrightarrow> b \<le> m_start (ms ! j)" by auto
  then show ?thesis by (intro ordered_insert [OF assms(1)]) (use assms(2) in auto)
qed

lemma mapper_step_ordered:
  assumes "mapper_step s s'" "ordered (mappings (fst s))"
  shows "ordered (mappings (fst s'))"
  using assms
proof cases
  case (InsertAt v r a flags g ok g')
  then show ?thesis
    using assms(2) find_place_ordered [of "mappings g" a "a + pm_size (store v r)"]
    by (auto simp: insert_mapping_at_def bind_eq_Some_conv add_usize_Some split: option.splits)
next
  case (InsertAtSet v r a flags g ok g' v')
  then show ?thesis
    using assms(2) find_place_ordered [of "mappings g" a "a + pm_size (store v r)"]
    by (auto simp: insert_mapping_at_set_def bind_eq_Some_conv add_usize_Some split: option.splits)
next
  case (Insert v r flags g a g')
  then show ?thesis
    using assms(2) insert_gap_ordered by (auto simp: insert_mapping_def bind_eq_Some_conv add_usize_Some)
next
  case (InsertSet v r flags g a g' v')
  then show ?thesis
    using assms(2) insert_gap_ordered by (auto simp: insert_mapping_set_def bind_eq_Some_conv add_usize_Some)
next
  case (Fault a g v ok v')
  then show ?thesis using assms(2) by simp
next
  case (Free rg g v res g' v')
  then show ?thesis
    using assms(2) ordered_remove
    by (auto simp: free_mapping_def bind_eq_Some_conv Let_def split: sum.splits)
qed



subsection \<open>Page faults make the page present\<close>

text \<open>What a memory object of a given size must satisfy to back a mapping.\<close>

definition object_ok :: "PageMapping \<Rightarrow> bool" where
  "object_ok pm \<longleftrightarrow>
     (case pm_mapping pm of
        MMAP b \<Rightarrow> 0x1000 dvd b \<and> 0x1000 \<le> b \<and> b + pm_size pm \<le> 2 ^ 47
      | LazyMapping ps \<Rightarrow> pm_size pm \<le> length ps * 0x1000 \<and>
          list_all (\<lambda>p. case p of None \<Rightarrow> True | Some q \<Rightarrow> page_new Size4KB q = Some q \<and> q < 2 ^ 52) ps)"

lemma page_containing_user:
  assumes "0x1000 \<le> a" "a < 2 ^ 47"
  shows "page_containing Size4KB a = Some (clear_low 12 a)" "page_new Size4KB (clear_low 12 a) = Some (clear_low 12 a)"
    "clear_low 12 a < 2 ^ 52"
proof -
  have le: "clear_low 12 a \<le> a" by simp
  have ge: "0x1000 \<le> clear_low 12 a"
    using assms(1) by (simp add: clear_low_mult)
  have dv: "0x1000 dvd clear_low 12 a" using clear_low_dvd [of 12 a] by simp
  have "clear_low 12 a < 2 ^ 47" using le assms(2) by linarith
  then show new: "page_new Size4KB (clear_low 12 a) = Some (clear_low 12 a)"
    using ge dv by (simp add: page_new_Some canonical_def PAGE_SIZE_def)
  show "page_containing Size4KB a = Some (clear_low 12 a)"
    using new by (simp add: page_containing_def page_shift_def)
  show "clear_low 12 a < 2 ^ 52" by (rule le_less_trans [OF le]) (use assms(2) in simp)
qed

lemma frame_ok_page: "frame_ok p \<Longrightarrow> page_new Size4KB p = Some p \<and> p < 2 ^ 52"
  by (simp add: frame_ok_page_new) (simp add: frame_ok_def)

lemma lazy_page_ok:
  assumes wf: "pt_wf (vm_phys v) 4 t T" and "pm_mapping (store v r) = LazyMapping ps" "i < length ps"
    and ok: "object_ok (store v r)" and fr: "4 \<le> size (free_frames (frames (vm_phys v)))"
  shows "\<exists>p v'. lazy_page r i v = Some (p, v') \<and> page_new Size4KB p = Some p \<and> p < 2 ^ 52 \<and>
    pt_wf (vm_phys v') 4 t T \<and> tables (vm_phys v') = tables (vm_phys v) \<and>
    3 \<le> size (free_frames (frames (vm_phys v'))) \<and>
    (\<exists>ps'. pm_mapping (store v' r) = LazyMapping ps' \<and> ps' ! i = Some p)"
proof (cases "ps ! i")
  case (Some p)
  have "ps ! i \<in> set ps" using assms(3) by simp
  then have "page_new Size4KB p = Some p" "p < 2 ^ 52"
    using ok Some assms(2) by (auto simp: object_ok_def list_all_iff)
  then show ?thesis using assms Some by (auto simp: lazy_page_def)
next
  case None
  have inv: "frame_inv (frames (vm_phys v))" using wf by (simp add: pt_wf_def)
  from allocate_page_frames [OF inv] obtain al fs where al: "allocate_page (frames (vm_phys v)) = Some (al, fs)"
    by (auto split: option.splits)
  have "al \<noteq> None" using allocate_page_frames [OF inv] al fr by (auto split: option.splits)
  then obtain p where p: "al = Some p" by auto
  from frames.alloc_Some [OF inv] al p have
    sp: "free_frames (frames (vm_phys v)) = add_mset p (free_frames fs)" "frame_inv fs" by auto
  have fp: "frame_ok p" using inv sp(1) by (simp add: frame_inv_def)
  define v' where "v' = v\<lparr>vm_phys := (vm_phys v)\<lparr>frames := fs\<rparr>,
    store := (store v)(r := (store v r)\<lparr>pm_mapping := LazyMapping (ps[i := Some p])\<rparr>)\<rparr>"
  have "lazy_page r i v = Some (p, v')" using assms(2,3) None al p by (simp add: lazy_page_def v'_def)
  moreover have "pt_wf (vm_phys v') 4 t T" using wf sp by (auto simp: pt_wf_def v'_def)
  moreover have "3 \<le> size (free_frames (frames (vm_phys v')))" using fr sp(1) by (simp add: v'_def)
  ultimately show ?thesis using frame_ok_page [OF fp] assms(3) by (auto simp: v'_def)
qed

lemma fault_page_ok:
  assumes wf: "pt_wf (vm_phys v) 4 t T" and off: "off < pm_size (store v r)"
    and ok: "object_ok (store v r)" and fr: "4 \<le> size (free_frames (frames (vm_phys v)))"
  shows "\<exists>p v'. fault_page r off v = Some (p, v') \<and> page_new Size4KB p = Some p \<and> p < 2 ^ 52 \<and>
    pt_wf (vm_phys v') 4 t T \<and> tables (vm_phys v') = tables (vm_phys v) \<and>
    3 \<le> size (free_frames (frames (vm_phys v'))) \<and>
    (case pm_mapping (store v r) of
       MMAP b \<Rightarrow> p = clear_low 12 (b + off)
     | LazyMapping _ \<Rightarrow> \<exists>ps'. pm_mapping (store v' r) = LazyMapping ps' \<and> ps' ! (off div 0x1000) = Some p)"
proof (cases "pm_mapping (store v r)")
  case (MMAP b)
  then have "0x1000 \<le> b + off" "b + off < 2 ^ 47" using ok off by (auto simp: object_ok_def)
  then show ?thesis
    using MMAP page_containing_user [of "b + off"] wf fr by (simp add: fault_page_def add_usize_def)
next
  case (LazyMapping ps)
  then have "off div 0x1000 < length ps" using ok off by (auto simp: object_ok_def less_mult_imp_div_less)
  from lazy_page_ok [OF wf LazyMapping this ok fr] LazyMapping show ?thesis by (simp add: fault_page_def)
qed

lemma space_tables: "tables m' = tables m \<Longrightarrow> pt_wf m 4 t T \<Longrightarrow> pt_address_of 4 1 t v m' = pt_address_of 4 1 t v m"
  by (rule lookup_cong [of _ _ _ T]) (simp_all add: pt_wf_def)

lemma page_fault_ok:
  assumes o: "ordered (mappings g)" and wf: "pt_wf (vm_phys v) 4 (page_mapper g) T"
    and a: "0x1000 \<le> a" "a < 2 ^ 47"
    and objs: "list_all (\<lambda>m. object_ok (store v (fst (snd m))) \<and> m_end m - m_start m = pm_size (store v (fst (snd m)))) (mappings g)"
    and look: "pt_address_of 4 1 (page_mapper g) (clear_low 12 a) (vm_phys v) \<noteq> None"
    and fr: "4 \<le> size (free_frames (frames (vm_phys v)))"
  shows "case find (\<lambda>m. m_start m \<le> a \<and> a < m_end m) (mappings g) of
     None \<Rightarrow> page_fault_handler a g v = Some (False, v)
   | Some m \<Rightarrow> \<exists>p v' T'. page_fault_handler a g v = Some (True, v') \<and>
       map_option fst (fault_page (fst (snd m)) (a - m_start m) v) = Some p \<and>
       pt_wf (vm_phys v') 4 (page_mapper g) T' \<and>
       agree (space (page_mapper g) (vm_phys v'))
         (case space (page_mapper g) (vm_phys v) (clear_low 12 a) of
            None \<Rightarrow> (space (page_mapper g) (vm_phys v))(clear_low 12 a := Some p)
          | Some _ \<Rightarrow> space (page_mapper g) (vm_phys v))"
proof -
  have le: "\<not> a > EndUserMem" using a(2) by (simp add: EndUserMem_def)
  note srt = search_address_sorted [OF o, of a]
  show ?thesis
  proof (cases "binary_search_by (cmp_address a) (mappings g)")
    case (Inl i)
    have "\<not> (m_start m \<le> a \<and> a < m_end m)" if m: "m \<in> set (mappings g)" for m
    proof
      assume in_m: "m_start m \<le> a \<and> a < m_end m"
      from m obtain k where k: "k < length (mappings g)" "mappings g ! k = m" by (auto simp: in_set_conv_nth)
      from binary_search_by_Err [OF Inl srt] k(1) have "cmp_address a (mappings g ! k) \<noteq> Equal"
        by (cases "k < i") auto
      with k(2) in_m show False by (simp add: cmp_address_def)
    qed
    then have "find (\<lambda>m. m_start m \<le> a \<and> a < m_end m) (mappings g) = None" unfolding find_None_iff by blast
    then show ?thesis using Inl le by (simp add: page_fault_handler_def)
  next
    case (Inr i)
    define m where "m = mappings g ! i"
    from binary_search_by_Ok [OF Inr srt] have i: "i < length (mappings g)" "m_start m \<le> a" "a < m_end m"
      by (auto simp: m_def cmp_address_def split: if_splits)
    have "\<not> (m_start (mappings g ! j) \<le> a \<and> a < m_end (mappings g ! j))" if "j < i" for j
      using ordered_nth(2) [OF o that i(1)] i(2) by (simp add: m_def)
    then have find: "find (\<lambda>m. m_start m \<le> a \<and> a < m_end m) (mappings g) = Some m"
      using i unfolding find_Some_iff by (intro exI [of _ i]) (simp add: m_def)
    have mem: "m \<in> set (mappings g)" using i(1) by (simp add: m_def)
    have ob: "object_ok (store v (fst (snd m)))" "a - m_start m < pm_size (store v (fst (snd m)))"
      using objs mem i(2,3) by (auto simp: list_all_iff)
    from fault_page_ok [OF wf ob(2,1) fr] obtain p v1 where fp: "fault_page (fst (snd m)) (a - m_start m) v = Some (p, v1)"
      "page_new Size4KB p = Some p" "p < 2 ^ 52" "pt_wf (vm_phys v1) 4 (page_mapper g) T"
      "tables (vm_phys v1) = tables (vm_phys v)" "3 \<le> size (free_frames (frames (vm_phys v1)))" by blast
    note pg = page_containing_user [OF a]
    have same: "pt_address_of 4 1 (page_mapper g) w (vm_phys v1) = pt_address_of 4 1 (page_mapper g) w (vm_phys v)" for w
      by (rule space_tables [OF fp(5) wf])
    then have sp: "space (page_mapper g) (vm_phys v1) = space (page_mapper g) (vm_phys v)" by (auto simp: space_def)
    from map_page_space [OF fp(4) pg(2) fp(2,3) _ fp(6), of "snd (snd m)"] look same obtain res P T' where
      mp: "pt_map 4 1 (page_mapper g) (clear_low 12 a) p (snd (snd m)) (vm_phys v1) = Some (res, P)"
        "pt_wf P 4 (page_mapper g) T'"
        "agree (space (page_mapper g) P) (case space (page_mapper g) (vm_phys v1) (clear_low 12 a) of
            None \<Rightarrow> (space (page_mapper g) (vm_phys v1))(clear_low 12 a := Some p)
          | Some _ \<Rightarrow> space (page_mapper g) (vm_phys v1))" by auto
    have "page_fault_handler a g v = Some (True, v1\<lparr>vm_phys := P\<rparr>)"
      using Inr le fp(1) pg(1) mp(1) by (simp add: page_fault_handler_def m_def Let_def)
    moreover note mp(3) [unfolded sp]
    ultimately show ?thesis
      unfolding find option.case
      by (intro exI [of _ p] exI [of _ "v1\<lparr>vm_phys := P\<rparr>"] exI [of _ T']) (use fp(1) mp(2) in simp)
  qed
qed



subsection \<open>Removing a mapping\<close>

lemma iter_cmp_same_start: "a \<le> b \<Longrightarrow> a \<le> d \<Longrightarrow> iter_cmp [a ..< b] [a ..< d] = cmp_nat b d"
proof (induction "b - a" arbitrary: a)
  case 0
  then show ?case by (cases "a < d") (auto simp: upt_conv_Cons cmp_nat_def)
next
  case (Suc n)
  then show ?case
    using Suc.hyps(1) [of "Suc a"] by (cases "a < d") (auto simp: upt_conv_Cons cmp_nat_def)
qed

lemma range_cmp_nonempty:
  "a < b \<Longrightarrow> c < d \<Longrightarrow> range_cmp (a, b) (c, d) = (if a = c then cmp_nat b d else cmp_nat a c)"
  by (cases "a = c") (simp_all add: range_cmp_def iter_cmp_same_start upt_conv_Cons)

lemma search_range_sorted:
  assumes o: "ordered ms" and "a < b"
  shows "search_sorted (\<lambda>m. range_cmp (fst m) (a, b)) ms"
  unfolding search_sorted_def
proof (intro allI impI)
  fix i j
  assume ij: "j < length ms" "i < j"
  obtain s e x where i: "ms ! i = ((s, e), x)" by (metis prod.exhaust)
  obtain s' e' x' where j: "ms ! j = ((s', e'), x')" by (metis prod.exhaust)
  have "s < e" "e \<le> s'" "s' < e'"
    using ordered_nth(1) [OF o, of i] ordered_nth(1) [OF o, of j] ordered_nth(2) [OF o ij(2,1)] ij i j by auto
  then show "(range_cmp (fst (ms ! i)) (a, b) = Greater \<longrightarrow> range_cmp (fst (ms ! j)) (a, b) = Greater) \<and>
      (range_cmp (fst (ms ! j)) (a, b) = Less \<longrightarrow> range_cmp (fst (ms ! i)) (a, b) = Less)"
    using assms(2) by (auto simp: i j range_cmp_nonempty)
qed

lemma range_cmp_Equal:
  assumes "ordered ms" "i < length ms" "a < b"
  shows "range_cmp (fst (ms ! i)) (a, b) = Equal \<longleftrightarrow> fst (ms ! i) = (a, b)"
proof -
  obtain s e x where i: "ms ! i = ((s, e), x)" by (metis prod.exhaust)
  have "s < e" using ordered_nth(1) [OF assms(1,2)] i by simp
  then show ?thesis using assms(3) by (simp add: i range_cmp_nonempty)
qed

lemma unmap_pages_ok:
  "pt_wf m 4 t T \<Longrightarrow> list_all (\<lambda>a. page_new Size4KB a = Some a \<and> pt_address_of 4 1 t a m \<noteq> None) as \<Longrightarrow>
   \<exists>m' T'. unmap_pages t as m = Some (None, m') \<and> pt_wf m' 4 t T' \<and>
     agree (space t m') (\<lambda>w. if w \<in> set as then None else space t m w)"
proof (induction as arbitrary: m T)
  case (Cons a as)
  then have a: "page_new Size4KB a = Some a" "pt_address_of 4 1 t a m \<noteq> None" by simp_all
  from pt_unmap_ok [of m 3 t T a] Cons.prems(1) a(2) obtain r m1 T1 where
    un: "pt_unmap 4 1 t a m = Some (r, m1)" "pt_wf m1 4 t T1" "unmap_effect 4 t a r m m1" by auto
  have keep: "pt_address_of 4 1 t w m1 = (if w = a then Some None else pt_address_of 4 1 t w m)"
    if "page_new Size4KB w = Some w" for w
    using un(3) page_path_inj [OF a(1) that] by (auto simp: unmap_effect_def)
  have "list_all (\<lambda>a. page_new Size4KB a = Some a \<and> pt_address_of 4 1 t a m1 \<noteq> None) as"
    using Cons.prems(2) keep by (auto simp: list_all_iff)
  from Cons.IH [OF un(2) this] obtain m' T' where
    rest: "unmap_pages t as m1 = Some (None, m')" "pt_wf m' 4 t T'"
      "agree (space t m') (\<lambda>w. if w \<in> set as then None else space t m1 w)" by blast
  have "unmap_pages t (a # as) m = Some (None, m')"
    using a(1) un(1,3) rest(1) by (auto simp: unmap_effect_def split: sum.splits)
  moreover have "agree (space t m') (\<lambda>w. if w \<in> set (a # as) then None else space t m w)"
    using rest(3) keep by (auto simp: space_def)
  ultimately show ?case using rest(2) by blast
qed auto

lemma drop_mapping_tables: "tables (vm_phys (drop_mapping r v)) = tables (vm_phys v)"
  by (simp add: drop_mapping_def split: PageMappingType.split)

lemma lookup_tables: "tables m' = tables m \<Longrightarrow> pt_address_of l k t v m' = pt_address_of l k t v m"
  by (induction l arbitrary: t) (simp_all add: pt_address_of.simps address_of_inner_def Let_def)

lemma free_mapping_ok:
  assumes o: "ordered (mappings g)" and "a < b" and wf: "pt_wf (vm_phys v) 4 (page_mapper g) T"
    and pages: "list_all (\<lambda>p. page_new Size4KB p = Some p \<and> pt_address_of 4 1 (page_mapper g) p (vm_phys v) \<noteq> None)
      (step_by 0x1000 a b)"
  shows "case find (\<lambda>m. fst m = (a, b)) (mappings g) of
     None \<Rightarrow> free_mapping (a, b) g v = Some (Inl (MemNotMapped a), g, v)
   | Some m \<Rightarrow> \<exists>g' v'. free_mapping (a, b) g v = Some (Inr (), g', v') \<and> ordered (mappings g') \<and>
       mset (mappings g) = add_mset m (mset (mappings g')) \<and>
       strong v' (fst (snd m)) = strong v (fst (snd m)) - 1 \<and>
       agree (space (page_mapper g) (vm_phys v'))
         (\<lambda>w. if w \<in> set (step_by 0x1000 a b) then None else space (page_mapper g) (vm_phys v) w)"
proof (cases "binary_search_by (\<lambda>m. range_cmp (fst m) (a, b)) (mappings g)")
  note srt = search_range_sorted [OF o assms(2)]
  case (Inl i)
  have "fst m \<noteq> (a, b)" if m: "m \<in> set (mappings g)" for m
  proof -
    from m obtain k where k: "k < length (mappings g)" "mappings g ! k = m" by (auto simp: in_set_conv_nth)
    from binary_search_by_Err [OF Inl srt] k(1) have "range_cmp (fst (mappings g ! k)) (a, b) \<noteq> Equal"
      by (cases "k < i") auto
    then show ?thesis using range_cmp_Equal [OF o k(1) assms(2)] k(2) by simp
  qed
  then have "find (\<lambda>m. fst m = (a, b)) (mappings g) = None" unfolding find_None_iff by blast
  then show ?thesis using Inl by (simp add: free_mapping_def)
next
  note srt = search_range_sorted [OF o assms(2)]
  case (Inr i)
  define m where "m = mappings g ! i"
  from binary_search_by_Ok [OF Inr srt] have i: "i < length (mappings g)" "fst m = (a, b)"
    using range_cmp_Equal [OF o _ assms(2), of i] by (auto simp: m_def)
  have "fst (mappings g ! j) \<noteq> (a, b)" if "j < i" for j
    using ordered_nth(2) [OF o that i(1)] i(2) assms(2) by (auto simp: m_def)
  then have find: "find (\<lambda>m. fst m = (a, b)) (mappings g) = Some m"
    unfolding find_Some_iff using i by (intro exI [of _ i]) (simp add: m_def)
  from unmap_pages_ok [OF wf pages] obtain p T' where
    un: "unmap_pages (page_mapper g) (step_by 0x1000 a b) (vm_phys v) = Some (None, p)"
      "agree (space (page_mapper g) p) (\<lambda>w. if w \<in> set (step_by 0x1000 a b) then None else space (page_mapper g) (vm_phys v) w)"
    by blast
  define v' where "v' = drop_mapping (fst (snd m)) (v\<lparr>vm_phys := p\<rparr>)"
  define g' where "g' = g\<lparr>mappings := take i (mappings g) @ drop (Suc i) (mappings g)\<rparr>"
  have "free_mapping (a, b) g v = Some (Inr (), g', v')"
    using Inr un(1) i(2) by (simp add: free_mapping_def Let_def v'_def g'_def flip: m_def)
  moreover have "ordered (mappings g')" using ordered_remove [OF o] by (simp add: g'_def)
  moreover have "mset (mappings g) = add_mset m (mset (mappings g'))"
    using id_take_nth_drop [OF i(1)] by (metis PageMapperManager.select_convs(2) PageMapperManager.surjective
      PageMapperManager.update_convs(2) g'_def m_def mset.simps(2) mset_append union_mset_add_mset_right)
  moreover have "space (page_mapper g) (vm_phys v') = space (page_mapper g) p"
    using lookup_tables [of "vm_phys v'" p] by (auto simp: space_def v'_def drop_mapping_tables)
  moreover have "strong v' (fst (snd m)) = strong v (fst (snd m)) - 1"
    by (simp add: v'_def drop_mapping_def split: PageMappingType.split)
  ultimately show ?thesis unfolding find option.case using un(2) by (intro exI [of _ g'] exI [of _ v']) simp
qed



end
