(* ===== verification/Kernel.thy ===== *)
theory Kernel
  imports Scheduler Ports Channels Interrupts Page_Mapper
begin

text \<open>
  The kernel state that the system calls act on: processes with their reference tables, threads and
  address spaces (\<open>kernel/src/scheduling/process.rs\<close>), the stores of channels, ports and interrupt
  objects, the scheduling state and memory.  Reference counts are kept for channels, whose last
  reference closes them.
\<close>

subsection \<open>Processes\<close>

datatype ProcessPrivilige = KERNEL | USER

datatype ProcessExit = Exited | NotExitedYet

record Process =
  privilege :: ProcessPrivilige
  args :: "u8 list"
  p_threads :: "(nat \<times> tref) list"
  thread_next_id :: nat
  memory :: PageMapperManager
  owned32_pages :: "page list"
  references :: "nat \<Rightarrow> KernelValue option"
  next_id :: nat
  exit_status :: ProcessExit
  p_signals :: KObjectSignal

definition add_value :: "KernelValue \<Rightarrow> Process \<Rightarrow> (nat \<times> Process) option" where
  "add_value v p = do {
     rassert (next_id p \<noteq> 0);
     n \<leftarrow> add_usize (next_id p) 1;
     rassert (references p (next_id p) = None);
     Some (next_id p, p\<lparr>references := (references p)(next_id p := Some v), next_id := n\<rparr>)
   }"

definition get_value :: "nat \<Rightarrow> Process \<Rightarrow> KernelValue option" where
  "get_value i p = references p i"

definition get_next_id :: "Process \<Rightarrow> nat \<times> Process" where
  "get_next_id p = (thread_next_id p, p\<lparr>thread_next_id := thread_next_id p + 1\<rparr>)"

subsection \<open>Channel endpoints and their references\<close>

record chan_store =
  chans :: "cref \<Rightarrow> KChannelInner"
  chan_peer :: "cref \<Rightarrow> cref"
  chan_refs :: "cref \<Rightarrow> nat"
  next_cref :: nat

definition channel_create :: "chan_store \<Rightarrow> (cref \<times> cref) \<times> chan_store" where
  "channel_create s =
     (let l = next_cref s; r = next_cref s + 1 in
      ((l, r), s\<lparr>chans := (chans s)(l := channel_default, r := channel_default),
        chan_peer := (chan_peer s)(l := r, r := l), chan_refs := (chan_refs s)(l := 1, r := 1),
        next_cref := next_cref s + 2\<rparr>))"

definition clone_value :: "KernelValue \<Rightarrow> chan_store \<Rightarrow> chan_store" where
  "clone_value v s =
     (case v of VChannel c \<Rightarrow> s\<lparr>chan_refs := (chan_refs s)(c := chan_refs s c + 1)\<rparr> | _ \<Rightarrow> s)"

definition send_on :: "cref \<Rightarrow> ChannelMessage \<Rightarrow> chan_store \<Rightarrow> bool \<times> kevent list \<times> chan_store" where
  "send_on c msg s =
     (let p = chan_peer s c in
      if chan_refs s p = 0 then (False, [], s)
      else case chan_send msg (chans s p) of (b, c', evs) \<Rightarrow> (b, evs, s\<lparr>chans := (chans s)(p := c')\<rparr>))"

text \<open>
  Dropping values.  The last reference to an endpoint closes it: its signal is raised, the messages
  in its queue are dropped with the values they carry, then the peer is told.
\<close>

datatype dropping = DropValue KernelValue | ClosePeer cref

definition carried :: "ChannelMessage list \<Rightarrow> KernelValue list" where
  "carried ms = concat (map (\<lambda>m. case msg_handles m of None \<Rightarrow> [] | Some hs \<Rightarrow> hs) ms)"

definition drop_step :: "dropping \<Rightarrow> chan_store \<Rightarrow> dropping list \<times> kevent list \<times> chan_store" where
  "drop_step d s =
     (case d of
        ClosePeer c \<Rightarrow>
          (let p = chan_peer s c in
           if chan_refs s p = 0 then ([], [], s)
           else case close_peer (chans s p) of (c', evs) \<Rightarrow> ([], evs, s\<lparr>chans := (chans s)(p := c')\<rparr>))
      | DropValue (VChannel c) \<Rightarrow>
          if c < next_cref s \<and> chan_refs s c = 1 then
            (case close_self (chans s c) of (c', evs, dropped) \<Rightarrow>
               (map DropValue (carried dropped) @ [ClosePeer c], evs,
                s\<lparr>chans := (chans s)(c := c'), chan_refs := (chan_refs s)(c := 0)\<rparr>))
          else ([], [], s\<lparr>chan_refs := (chan_refs s)(c := chan_refs s c - 1)\<rparr>)
      | DropValue _ \<Rightarrow> ([], [], s))"

definition drop_size :: "chan_store \<Rightarrow> nat" where
  "drop_size s = (\<Sum>c < next_cref s. length (carried (chan_queue (chans s c))) + (if chan_refs s c = 0 then 0 else 2))"

lemma sum_update:
  fixes f :: "nat \<Rightarrow> nat"
  assumes "c < n"
  shows "(\<Sum>i < n. if i = c then a else f i) + f c = (\<Sum>i < n. f i) + a"
proof -
  have "c \<in> {..<n}" using assms by simp
  then have "(\<Sum>i < n. if i = c then a else f i) = a + (\<Sum>i \<in> {..<n} - {c}. f i)"
    by (subst sum.remove [of _ c]) (auto intro: sum.cong)
  moreover have "(\<Sum>i < n. f i) = f c + (\<Sum>i \<in> {..<n} - {c}. f i)"
    using assms by (subst sum.remove [of _ c]) auto
  ultimately show ?thesis by simp
qed

lemma close_peer_queue: "close_peer c = (c', evs) \<Longrightarrow> chan_queue c' = chan_queue c"
  by (auto simp: close_peer_def set_chan_signal_def split: prod.splits)

lemma close_self_queue: "close_self c = (c', evs, ms) \<Longrightarrow> chan_queue c' = [] \<and> ms = chan_queue c"
  by (auto simp: close_self_def split: prod.splits)

lemma drop_step_size:
  assumes "drop_step d s = (ds, evs, s')"
  shows "length ds + drop_size s' < Suc (drop_size s)"
proof (cases d)
  case (ClosePeer c)
  define p where "p = chan_peer s c"
  show ?thesis
  proof (cases "chan_refs s p = 0")
    case False
    obtain c' e where cp: "close_peer (chans s p) = (c', e)" by fastforce
    then have "s' = s\<lparr>chans := (chans s)(p := c')\<rparr>" "ds = []"
      using assms ClosePeer False by (auto simp: drop_step_def p_def Let_def)
    moreover have "drop_size (s\<lparr>chans := (chans s)(p := c')\<rparr>) = drop_size s"
      using close_peer_queue [OF cp] by (auto simp: drop_size_def intro!: sum.cong)
    ultimately show ?thesis by simp
  qed (use assms ClosePeer in \<open>auto simp: drop_step_def p_def Let_def\<close>)
next
  case (DropValue v)
  show ?thesis
  proof (cases "\<exists>c. v = VChannel c \<and> c < next_cref s \<and> chan_refs s c = 1")
    case True
    then obtain c where c: "v = VChannel c" "c < next_cref s" "chan_refs s c = 1" by blast
    obtain c' e ms where cs: "close_self (chans s c) = (c', e, ms)" by (metis prod.exhaust)
    note q = close_self_queue [OF cs]
    define w where "w t i = length (carried (chan_queue (chans t i))) + (if chan_refs t i = 0 then 0 else 2)"
      for t :: chan_store and i
    have eq: "ds = map DropValue (carried ms) @ [ClosePeer c]"
      "s' = s\<lparr>chans := (chans s)(c := c'), chan_refs := (chan_refs s)(c := 0)\<rparr>"
      using assms DropValue c cs by (auto simp: drop_step_def)
    have "drop_size s' = (\<Sum>i < next_cref s. if i = c then 0 else w s i)"
      using q by (auto simp: drop_size_def eq w_def carried_def intro!: sum.cong)
    moreover have "drop_size s = (\<Sum>i < next_cref s. w s i)" by (simp add: drop_size_def w_def)
    moreover have "w s c = length (carried ms) + 2" using q c(3) by (simp add: w_def)
    ultimately show ?thesis using sum_update [OF c(2), of 0 "w s"] by (simp add: eq)
  next
    case False
    then have "ds = []" "chans s' = chans s" "next_cref s' = next_cref s" "\<forall>i. chan_refs s' i \<le> chan_refs s i"
      using assms DropValue by (auto simp: drop_step_def split: KernelValue.splits if_splits)
    moreover have "drop_size s' \<le> drop_size s"
      unfolding drop_size_def calculation(2,3)
    proof (rule sum_mono)
      fix i
      have "chan_refs s i = 0 \<Longrightarrow> chan_refs s' i = 0"
        using calculation(4) by (metis le_zero_eq)
      then show "length (carried (chan_queue (chans s i))) + (if chan_refs s' i = 0 then 0 else 2)
        \<le> length (carried (chan_queue (chans s i))) + (if chan_refs s i = 0 then 0 else 2)" by simp
    qed
    ultimately show ?thesis by simp
  qed
qed

function drop_values :: "dropping list \<Rightarrow> chan_store \<Rightarrow> kevent list \<times> chan_store" where
  "drop_values [] s = ([], s)"
| "drop_values (d # ds) s =
     (let r = drop_step d s in
      case drop_values (fst r @ ds) (snd (snd r)) of (evs, s') \<Rightarrow> (fst (snd r) @ evs, s'))"
  by pat_completeness auto
termination
proof (relation "measure (\<lambda>(ds, s). length ds + drop_size s)")
  fix d ds s r
  assume "r = drop_step d s"
  then show "((fst r @ ds, snd (snd r)), d # ds, s) \<in> measure (\<lambda>(ds, s). length ds + drop_size s)"
    using drop_step_size [of d s "fst r" "fst (snd r)" "snd (snd r)"] by simp
qed simp

text \<open>One drop at a time, as the machine does it.\<close>

definition drop_one :: "dropping list \<times> chan_store \<Rightarrow> dropping list \<times> chan_store" where
  "drop_one x =
     (case x of
        ([], s) \<Rightarrow> ([], s)
      | (d # ds, s) \<Rightarrow> (case drop_step d s of (new, evs, s') \<Rightarrow> (new @ ds, s')))"

lemma drop_one_iterated:
  "length ds + drop_size s \<le> n \<Longrightarrow> (drop_one ^^ n) (ds, s) = ([], snd (drop_values ds s))"
proof (induction n arbitrary: ds s)
  case (Suc n)
  show ?case
  proof (cases ds)
    case Nil
    have n: "(drop_one ^^ m) ([], s) = ([], s)" for m by (induction m) (simp_all add: drop_one_def)
    show ?thesis unfolding Nil n by simp
  next
    case (Cons d ds')
    obtain new evs s' where d: "drop_step d s = (new, evs, s')" by (metis prod.exhaust)
    have "length (new @ ds') + drop_size s' \<le> n" using drop_step_size [OF d] Suc.prems Cons by simp
    from Suc.IH [OF this] show ?thesis
      by (simp add: Cons funpow_swap1 drop_one_def d Let_def split: prod.splits)
  qed
qed simp

text \<open>
  C29.  Dropping handles always ends.  Dropping the last handle of a channel endpoint drops the
  messages in its queue, which drops the handles inside them, which may close further endpoints, and
  so on, also around cycles of endpoints that carry each other.  The cascade is over after at most
  one step per handle to drop, per handle inside a queued message and two per open endpoint.
\<close>
theorem drop_cascade_terminates:
  "(drop_one ^^ (length ds + drop_size s)) (ds, s) = ([], snd (drop_values ds s))"
  by (rule drop_one_iterated) simp

subsection \<open>The kernel\<close>

record kernel =
  ksch :: sch
  t_proc :: "tref \<Rightarrow> pref"
  t_tid :: "tref \<Rightarrow> nat"
  next_tref :: tref
  procs :: "pref \<Rightarrow> Process"
  processes :: "pref list"
  next_pid :: pref
  cstore :: chan_store
  ports :: "portref \<Rightarrow> KPort"
  next_port :: portref
  ints :: "iref \<Rightarrow> KInterruptHandle"
  next_int :: iref
  kvm :: vm
  next_mapping :: nat

definition upd_proc :: "pref \<Rightarrow> (Process \<Rightarrow> Process) \<Rightarrow> kernel \<Rightarrow> kernel" where
  "upd_proc p f k = k\<lparr>procs := (procs k)(p := f (procs k p))\<rparr>"

definition on_sched :: "(sch \<Rightarrow> sch option) \<Rightarrow> kernel \<Rightarrow> kernel option" where
  "on_sched f k = do { s \<leftarrow> f (ksch k); Some (k\<lparr>ksch := s\<rparr>) }"

text \<open>Carrying out the events that an operation on a kernel object returns.\<close>

fun woken_by :: "kevent list \<Rightarrow> tref list" where
  "woken_by [] = []"
| "woken_by (Wake t # evs) = t # woken_by evs"
| "woken_by (Notify _ _ # evs) = woken_by evs"

definition run_event :: "kevent \<Rightarrow> kernel \<Rightarrow> kernel option" where
  "run_event e k =
     (case e of
        Wake t \<Rightarrow> on_sched (wake t) k
      | Notify p n \<Rightarrow>
          (case port_notify n (ports k p) of (p', evs) \<Rightarrow>
             on_sched (wake_all (woken_by evs)) (k\<lparr>ports := (ports k)(p := p')\<rparr>)))"

primrec run_events :: "kevent list \<Rightarrow> kernel \<Rightarrow> kernel option" where
  "run_events [] k = Some k"
| "run_events (e # es) k = do { k1 \<leftarrow> run_event e k; run_events es k1 }"

subsection \<open>The end of threads and processes\<close>

definition process_exited :: "pref \<Rightarrow> kernel \<Rightarrow> kernel option" where
  "process_exited p k =
     (case set_signal PROCESS_EXITED True (p_signals (procs k p)) of (sg, evs) \<Rightarrow> do {
        k1 \<leftarrow> run_events evs (upd_proc p (\<lambda>x. x\<lparr>exit_status := Exited, p_signals := sg\<rparr>) k);
        Some (k1\<lparr>processes := removeAll p (processes k1)\<rparr>)
      })"

text \<open>The part of \<open>exit_thread_inner\<close> after the thread has become a zombie.\<close>

definition exit_thread_inner :: "tref \<Rightarrow> kernel \<Rightarrow> kernel option" where
  "exit_thread_inner t k =
     (let p = t_proc k t;
          ts = filter (\<lambda>x. fst x \<noteq> t_tid k t) (p_threads (procs k p));
          k1 = upd_proc p (\<lambda>x. x\<lparr>p_threads := ts\<rparr>) k in
      if ts = [] then process_exited p k1 else Some k1)"

definition kernel_pick :: "nat \<Rightarrow> kernel \<Rightarrow> (picked \<times> kernel) option" where
  "kernel_pick c k = do {
     (r, s) \<leftarrow> pick c (ksch k);
     let k1 = k\<lparr>ksch := s\<rparr>;
     (case r of
        Reaped t \<Rightarrow> do { k2 \<leftarrow> exit_thread_inner t k1; Some (r, k2) }
      | _ \<Rightarrow> Some (r, k1))
   }"

definition kill_threads :: "pref \<Rightarrow> kernel \<Rightarrow> kernel option" where
  "kill_threads p k =
     (let ts = map snd (p_threads (procs k p));
          k1 = k\<lparr>ksch := set_killed ts (ksch k)\<rparr> in
      if ts = [] then process_exited p k1 else Some k1)"

subsection \<open>New threads and processes\<close>

definition STACK_ADDR :: nat where "STACK_ADDR = 0x100000000000"
definition KSTACK_ADDR :: nat where "KSTACK_ADDR = 0xffff800000000000"
definition STACK_SIZE :: nat where "STACK_SIZE = 0x20000"
definition KSTACK_SIZE :: nat where "KSTACK_SIZE = 0x10000"

text \<open>A memory object gets the next reference, held once.\<close>

definition new_mapping :: "PageMapping \<Rightarrow> kernel \<Rightarrow> nat \<times> kernel" where
  "new_mapping pm k =
     (let r = next_mapping k in
      (r, k\<lparr>kvm := (kvm k)\<lparr>store := (store (kvm k))(r := pm), strong := (strong (kvm k))(r := 1)\<rparr>,
            next_mapping := r + 1\<rparr>))"

definition filled_mapping :: "nat \<Rightarrow> kernel \<Rightarrow> (nat \<times> kernel) option" where
  "filled_mapping sz k = do {
     (pm, fs) \<leftarrow> new_lazy_filled sz (frames (vm_phys (kvm k)));
     Some (new_mapping pm (k\<lparr>kvm := (kvm k)\<lparr>vm_phys := (vm_phys (kvm k))\<lparr>frames := fs\<rparr>\<rparr>\<rparr>))
   }"

definition map_in :: "pref \<Rightarrow> nat \<Rightarrow> nat \<Rightarrow> MemoryMappingFlags \<Rightarrow> kernel \<Rightarrow> kernel option" where
  "map_in p a r flags k = do {
     (done, g, v) \<leftarrow> insert_mapping_at_set a r flags (memory (procs k p)) (kvm k);
     rassert done;
     Some (upd_proc p (\<lambda>x. x\<lparr>memory := g\<rparr>) (k\<lparr>kvm := v\<rparr>))
   }"

definition enter_threads :: "pref \<Rightarrow> nat \<Rightarrow> nat \<Rightarrow> kernel \<Rightarrow> (tref option \<times> kernel) option" where
  "enter_threads p tid stack_base k =
     (if exit_status (procs k p) = Exited then do {
        (res, g, v) \<leftarrow> free_mapping (stack_base, stack_base + STACK_SIZE) (memory (procs k p)) (kvm k);
        rassert (\<not> isl res);
        Some (None, upd_proc p (\<lambda>x. x\<lparr>memory := g\<rparr>) (k\<lparr>kvm := v\<rparr>))
      } else
        let t = next_tref k in
        Some (Some t, upd_proc p (\<lambda>x. x\<lparr>p_threads := p_threads x @ [(tid, t)]\<rparr>)
          (k\<lparr>next_tref := t + 1, t_proc := (t_proc k)(t := p), t_tid := (t_tid k)(t := tid)\<rparr>)))"

text \<open>
  \<open>Process::new_thread\<close>: the stacks are mapped and the thread enters the thread list
  (\<open>enter_threads\<close>) unless the process has exited, in which case it is dropped and its user stack
  freed.  The frame that the thread starts from is the context \<open>CStart\<close>.
\<close>

definition new_thread :: "pref \<Rightarrow> nat \<Rightarrow> nat \<Rightarrow> kernel \<Rightarrow> (tref option \<times> kernel) option" where
  "new_thread p entry arg k = do {
     let (tid, p1) = get_next_id (procs k p);
     let k1 = upd_proc p (\<lambda>_. p1) k;
     off \<leftarrow> mul_usize (STACK_SIZE + 0x1000) tid;
     stack_base \<leftarrow> add_usize STACK_ADDR off;
     (stack, k2) \<leftarrow> (case privilege p1 of
         KERNEL \<Rightarrow> filled_mapping STACK_SIZE k1
       | USER \<Rightarrow> map_option (\<lambda>pm. new_mapping pm k1) (new_lazy STACK_SIZE));
     k3 \<leftarrow> map_in p stack_base stack flags_all k2;
     koff \<leftarrow> mul_usize (KSTACK_SIZE + 0x1000) tid;
     kstack_base \<leftarrow> add_usize KSTACK_ADDR koff;
     (kstack, k4) \<leftarrow> filled_mapping KSTACK_SIZE k3;
     (_, v) \<leftarrow> base_top_stack kstack (kvm k4);
     k5 \<leftarrow> map_in p kstack_base kstack WRITEABLE (k4\<lparr>kvm := v\<rparr>);
     enter_threads p tid stack_base k5
   }"

definition spawn_thread :: "pref \<Rightarrow> nat \<Rightarrow> nat \<Rightarrow> kernel \<Rightarrow> (nat \<times> kernel) option" where
  "spawn_thread p entry arg k = do {
     (r, k1) \<leftarrow> new_thread p entry arg k;
     t \<leftarrow> r;
     k2 \<leftarrow> on_sched (start_thread t entry arg) k1;
     Some (t_tid k2 t, k2)
   }"

text \<open>\<open>Process::new\<close> without the mappings of the local APIC and the timer that every process gets.\<close>

definition process_new :: "ProcessPrivilige \<Rightarrow> u8 list \<Rightarrow> PageMapperManager \<Rightarrow> Process" where
  "process_new priv as g =
     \<lparr>privilege = priv, args = as, p_threads = [], thread_next_id = 0, memory = g, owned32_pages = [],
      references = (\<lambda>_. None), next_id = 1, exit_status = NotExitedYet, p_signals = signal_new\<rparr>"

primrec share_refs :: "KernelValue option list \<Rightarrow> Process \<Rightarrow> chan_store \<Rightarrow> (Process \<times> chan_store) option" where
  "share_refs [] p s = Some (p, s)"
| "share_refs (v # vs) p s = do {
     x \<leftarrow> v;
     (_, p1) \<leftarrow> add_value x p;
     share_refs vs p1 (clone_value x s)
   }"

text \<open>The new process starts with the given references of its parent, numbered from one.\<close>

definition spawn_process ::
  "pref \<Rightarrow> nat \<Rightarrow> nat \<Rightarrow> u8 list \<Rightarrow> nat list \<Rightarrow> bool \<Rightarrow> PageMapperManager \<Rightarrow> kernel \<Rightarrow> (pref \<times> kernel) option" where
  "spawn_process parent entry arg as refs kern g k = do {
     let p = next_pid k;
     (pr, cs) \<leftarrow> share_refs (map (references (procs k parent)) refs)
        (process_new (if kern then KERNEL else USER) as g) (cstore k);
     let k1 = k\<lparr>procs := (procs k)(p := pr), next_pid := p + 1, cstore := cs\<rparr>;
     (r, k2) \<leftarrow> new_thread p entry arg k1;
     t \<leftarrow> r;
     k3 \<leftarrow> on_sched (start_thread t entry arg) (k2\<lparr>processes := p # processes k2\<rparr>);
     Some (p, k3)
   }"

definition share_kernel_value :: "KernelValue \<Rightarrow> pref \<Rightarrow> kernel \<Rightarrow> (nat option \<times> kernel) option" where
  "share_kernel_value v p k =
     (if p \<in> set (processes k) then do {
        (i, pr) \<leftarrow> add_value v (procs k p);
        Some (Some i, k\<lparr>procs := (procs k)(p := pr)\<rparr>)
      } else Some (None, k))"

end
