(* ===== verification/Syscalls.thy ===== *)
theory Syscalls
  imports Kernel
begin

text \<open>
  The system calls: \<open>kernel/src/syscall/mod.rs\<close>.  A handler runs for the thread on core \<open>c\<close>; it
  returns how it ended, what it wrote to the memory of the caller, and the kernel.  A handler that
  blocks has left the core: \<open>resume\<close> is what it does when the scheduler switches back to it.
\<close>

subsection \<open>What the caller passes in memory\<close>

text \<open>The structures of \<open>kernel_userspace\<close> behind the pointer arguments.\<close>

record WaitPort =
  wp_port_handle :: nat
  wp_mask :: u64
  wp_key :: u64

record MessageRead =
  mr_id :: nat
  mr_ptr :: "nat \<times> nat"

record ChannelRead =
  cr_handle :: nat
  cr_data :: nat
  cr_data_len :: nat
  cr_handles :: nat
  cr_handles_len :: nat

record ChannelWrite =
  cw_handle :: nat
  cw_data :: nat
  cw_data_len :: nat
  cw_handles :: nat
  cw_handles_len :: nat

text \<open>What a load of each type at an address of the caller gives.\<close>

record user_memory =
  um_bytes :: "nat \<Rightarrow> nat \<Rightarrow> u8 list"
  um_references :: "nat \<Rightarrow> nat \<Rightarrow> nat option list"
  um_wait_port :: "nat \<Rightarrow> WaitPort"
  um_message_create :: "nat \<Rightarrow> nat \<times> nat"
  um_message_size :: "nat \<Rightarrow> nat"
  um_message_read :: "nat \<Rightarrow> MessageRead"
  um_channel_read :: "nat \<Rightarrow> ChannelRead"
  um_channel_write :: "nat \<Rightarrow> ChannelWrite"
  um_notification :: "nat \<Rightarrow> PortNotification"

datatype user_write =
    WBytes nat "u8 list"
  | WMessageAfter nat nat
  | WChannelCreate nat nat nat
  | WChannelLens nat nat nat
  | WReferences nat "nat list"
  | WNotification nat PortNotification

subsection \<open>How a handler ends\<close>

text \<open>
  \<open>Ret\<close> is \<open>Ok\<close>, \<open>Fail\<close> is \<open>Err(SyscallError::Error)\<close>, \<open>Left\<close> says that the thread has left the
  core, and \<open>UserCode\<close> that the thread goes on outside the kernel.
\<close>

datatype sysres = Ret nat | Fail | Left | UserCode

type_synonym outcome = "(sysres \<times> user_write list \<times> kernel) option"

definition kunwrap :: "'a option \<Rightarrow> kernel \<Rightarrow> ('a \<Rightarrow> outcome) \<Rightarrow> outcome" where
  "kunwrap x k f = (case x of Some v \<Rightarrow> f v | None \<Rightarrow> Some (Fail, [], k))"

definition kassert :: "bool \<Rightarrow> kernel \<Rightarrow> outcome \<Rightarrow> outcome" where
  "kassert b k r = (if \<not> b then Some (Fail, [], k) else r)"

definition as_message :: "KernelValue \<Rightarrow> u8 list option" where
  "as_message v = (case v of VMessage m \<Rightarrow> Some m | _ \<Rightarrow> None)"

definition as_process :: "KernelValue \<Rightarrow> pref option" where
  "as_process v = (case v of VProcess p \<Rightarrow> Some p | _ \<Rightarrow> None)"

definition as_channel :: "KernelValue \<Rightarrow> cref option" where
  "as_channel v = (case v of VChannel c \<Rightarrow> Some c | _ \<Rightarrow> None)"

definition as_port :: "KernelValue \<Rightarrow> portref option" where
  "as_port v = (case v of VPort p \<Rightarrow> Some p | _ \<Rightarrow> None)"

definition as_interrupt :: "KernelValue \<Rightarrow> iref option" where
  "as_interrupt v = (case v of VInterrupt i \<Rightarrow> Some i | _ \<Rightarrow> None)"

definition KernelReferenceID :: "nat \<Rightarrow> nat option" where
  "KernelReferenceID n = (if n = 0 then None else Some n)"

text \<open>\<open>FromPrimitive::from_usize\<close> of an enumeration whose variants are numbered from zero.\<close>

definition from_usize :: "'a list \<Rightarrow> nat \<Rightarrow> 'a option" where
  "from_usize vs n = (if n < length vs then Some (vs ! n) else None)"

definition value_of :: "pref \<Rightarrow> nat \<Rightarrow> kernel \<Rightarrow> KernelValue option" where
  "value_of p i k = get_value i (procs k p)"

definition give_value :: "pref \<Rightarrow> KernelValue \<Rightarrow> kernel \<Rightarrow> (nat \<times> kernel) option" where
  "give_value p v k = do {
     (i, pr) \<leftarrow> add_value v (procs k p);
     Some (i, k\<lparr>procs := (procs k)(p := pr)\<rparr>)
   }"

definition block_in :: "nat \<Rightarrow> kcont \<Rightarrow> kernel \<Rightarrow> outcome" where
  "block_in c cont k = do { k1 \<leftarrow> on_sched (block c cont) k; Some (Left, [], k1) }"

subsection \<open>Arguments and memory\<close>

definition echo_handler :: "nat \<Rightarrow> kernel \<Rightarrow> outcome" where
  "echo_handler arg1 k = Some (Ret arg1, [], k)"

definition read_args_handler :: "pref \<Rightarrow> nat \<Rightarrow> kernel \<Rightarrow> outcome" where
  "read_args_handler p arg1 k =
     (let bytes = args (procs k p) in
      if arg1 = 0 then Some (Ret (length bytes), [], k)
      else Some (Ret arg1, [WBytes arg1 bytes], k))"

definition mmap_page_handler :: "pref \<Rightarrow> nat \<Rightarrow> nat \<Rightarrow> kernel \<Rightarrow> outcome" where
  "mmap_page_handler p arg1 arg2 k =
     kassert (arg1 \<le> EndUserMem) k (do {
       n \<leftarrow> add_usize arg2 0xFFF;
       pm \<leftarrow> new_lazy (clear_low 12 n);
       let (r, k1) = new_mapping pm k;
       let g = memory (procs k1 p);
       if arg1 = 0 then do {
         (a, g') \<leftarrow> insert_mapping r flags_all g (kvm k1);
         Some (Ret a, [], upd_proc p (\<lambda>x. x\<lparr>memory := g'\<rparr>) k1)
       } else do {
         (done, g') \<leftarrow> insert_mapping_at arg1 r flags_all g (kvm k1);
         (if done then Some (Ret arg1, [], upd_proc p (\<lambda>x. x\<lparr>memory := g'\<rparr>) k1)
          else Some (Fail, [], k1\<lparr>kvm := drop_mapping r (kvm k1)\<rparr>))
       }
     })"

definition mmap_page32_handler :: "pref \<Rightarrow> kernel \<Rightarrow> outcome" where
  "mmap_page32_handler p k = do {
     (pg, fs) \<leftarrow> allocate_page_32bit (frames (vm_phys (kvm k)));
     let k1 = k\<lparr>kvm := (kvm k)\<lparr>vm_phys := (vm_phys (kvm k))\<lparr>frames := fs\<rparr>\<rparr>\<rparr>;
     kunwrap pg k1 (\<lambda>page. do {
       (res, ph) \<leftarrow> identity_map 1 (page_mapper (memory (procs k1 p))) page flags_all (vm_phys (kvm k1));
       rassert (\<not> isl res);
       Some (Ret page, [], upd_proc p (\<lambda>x. x\<lparr>owned32_pages := owned32_pages x @ [page]\<rparr>)
         (k1\<lparr>kvm := (kvm k1)\<lparr>vm_phys := ph\<rparr>\<rparr>))
     })
   }"

definition unmmap_page_handler :: "pref \<Rightarrow> nat \<Rightarrow> nat \<Rightarrow> kernel \<Rightarrow> outcome" where
  "unmmap_page_handler p arg1 arg2 k =
     kassert (arg1 \<le> EndUserMem) k (do {
       a \<leftarrow> add_usize arg1 arg2;
       b \<leftarrow> add_usize a 0xFFF;
       (res, g, v) \<leftarrow> free_mapping (arg1, clear_low 12 b) (memory (procs k p)) (kvm k);
       Some (if isl res then Fail else Ret 0, [], upd_proc p (\<lambda>x. x\<lparr>memory := g\<rparr>) (k\<lparr>kvm := v\<rparr>))
     })"

subsection \<open>References\<close>

datatype ReferenceOperation =
  ReferenceClone | ReferenceDelete | ReferenceGetType | ReferenceWait | ReferenceWaitPort

definition reference_operations :: "ReferenceOperation list" where
  "reference_operations = [ReferenceClone, ReferenceDelete, ReferenceGetType, ReferenceWait, ReferenceWaitPort]"

definition object_types :: "KernelObjectType list" where
  "object_types = [KNone, KMessage, KProcess, KChannel, KPort, KInterrupt]"

definition object_type_number :: "KernelObjectType \<Rightarrow> nat" where
  "object_type_number ty =
     (case ty of KNone \<Rightarrow> 0 | KMessage \<Rightarrow> 1 | KProcess \<Rightarrow> 2 | KChannel \<Rightarrow> 3 | KPort \<Rightarrow> 4 | KInterrupt \<Rightarrow> 5)"

text \<open>The signals of an object that has them, and their replacement.\<close>

definition signals_of :: "KernelValue \<Rightarrow> kernel \<Rightarrow> KObjectSignal option" where
  "signals_of v k =
     (case v of
        VChannel ch \<Rightarrow> Some (chan_signal (chans (cstore k) ch))
      | VProcess p \<Rightarrow> Some (p_signals (procs k p))
      | _ \<Rightarrow> None)"

definition set_signals :: "KernelValue \<Rightarrow> KObjectSignal \<Rightarrow> kernel \<Rightarrow> kernel" where
  "set_signals v sg k =
     (case v of
        VChannel ch \<Rightarrow> k\<lparr>cstore := (cstore k)\<lparr>chans := (chans (cstore k))(ch := (chans (cstore k) ch)\<lparr>chan_signal := sg\<rparr>)\<rparr>\<rparr>
      | VProcess p \<Rightarrow> upd_proc p (\<lambda>x. x\<lparr>p_signals := sg\<rparr>) k
      | _ \<Rightarrow> k)"

definition wait_cont :: "KernelValue \<Rightarrow> kcont" where
  "wait_cont v = (case v of VChannel ch \<Rightarrow> CWaitChannel ch | VProcess p \<Rightarrow> CWaitProcess p | _ \<Rightarrow> CDead)"

text \<open>Dropping a value, with what its end sets off.\<close>

definition drop_value :: "KernelValue \<Rightarrow> kernel \<Rightarrow> kernel option" where
  "drop_value v k =
     (case drop_values [DropValue v] (cstore k) of (evs, cs) \<Rightarrow> run_events evs (k\<lparr>cstore := cs\<rparr>))"

definition reference_clone :: "pref \<Rightarrow> nat \<Rightarrow> kernel \<Rightarrow> outcome" where
  "reference_clone p i k =
     kunwrap (value_of p i k) k (\<lambda>v. do {
       (n, k1) \<leftarrow> give_value p v (k\<lparr>cstore := clone_value v (cstore k)\<rparr>);
       Some (Ret n, [], k1)
     })"

definition reference_delete :: "pref \<Rightarrow> nat \<Rightarrow> kernel \<Rightarrow> outcome" where
  "reference_delete p i k =
     kunwrap (value_of p i k) k (\<lambda>v. do {
       k1 \<leftarrow> drop_value v (upd_proc p (\<lambda>x. x\<lparr>references := (references x)(i := None)\<rparr>) k);
       Some (Ret 0, [], k1)
     })"

definition reference_get_type :: "pref \<Rightarrow> nat \<Rightarrow> kernel \<Rightarrow> outcome" where
  "reference_get_type p i k =
     Some (Ret (object_type_number (case value_of p i k of Some v \<Rightarrow> object_type v | None \<Rightarrow> KNone)), [], k)"

text \<open>The waiting thread keeps its own clone of the value until it returns.\<close>

definition reference_wait :: "nat \<Rightarrow> tref \<Rightarrow> pref \<Rightarrow> nat \<Rightarrow> nat \<Rightarrow> kernel \<Rightarrow> outcome" where
  "reference_wait c t p i arg3 k =
     kunwrap (value_of p i k) k (\<lambda>v.
     kunwrap (signals_of v k) k (\<lambda>sg.
       case object_wait t (from_bits_truncate (of_nat arg3)) sg of
         (Some st, _) \<Rightarrow> Some (Ret (unat st), [], k)
       | (None, sg') \<Rightarrow>
           let k1 = set_signals v sg' k in
           block_in c (wait_cont v) (k1\<lparr>cstore := clone_value v (cstore k1)\<rparr>)))"

definition reference_wait_port :: "pref \<Rightarrow> nat \<Rightarrow> WaitPort \<Rightarrow> kernel \<Rightarrow> outcome" where
  "reference_wait_port p i w k =
     kunwrap (value_of p i k) k (\<lambda>v.
     kunwrap (value_of p (wp_port_handle w) k) k (\<lambda>pv.
     kunwrap (as_port pv) k (\<lambda>port.
     kunwrap (signals_of v k) k (\<lambda>sg.
       case object_wait_port port (wp_key w) (from_bits_truncate (wp_mask w)) sg of (sg', evs) \<Rightarrow> do {
         k1 \<leftarrow> run_events evs (set_signals v sg' k);
         Some (Ret 0, [], k1)
       }))))"

definition sys_reference_handler ::
  "nat \<Rightarrow> tref \<Rightarrow> pref \<Rightarrow> user_memory \<Rightarrow> nat \<Rightarrow> nat \<Rightarrow> nat \<Rightarrow> kernel \<Rightarrow> outcome" where
  "sys_reference_handler c t p um arg1 arg2 arg3 k =
     kunwrap (from_usize reference_operations arg1) k (\<lambda>operation.
     kunwrap (KernelReferenceID arg2) k (\<lambda>i.
       case operation of
         ReferenceClone \<Rightarrow> reference_clone p i k
       | ReferenceDelete \<Rightarrow> reference_delete p i k
       | ReferenceGetType \<Rightarrow> reference_get_type p i k
       | ReferenceWait \<Rightarrow> reference_wait c t p i arg3 k
       | ReferenceWaitPort \<Rightarrow> reference_wait_port p i (um_wait_port um arg3) k))"

subsection \<open>Processes and sleeping\<close>

datatype KernelProcessOperation = ProcessGetExitCode | ProcessKill

definition process_operations :: "KernelProcessOperation list" where
  "process_operations = [ProcessGetExitCode, ProcessKill]"

definition exit_number :: "ProcessExit \<Rightarrow> nat" where
  "exit_number e = (case e of Exited \<Rightarrow> 0 | NotExitedYet \<Rightarrow> 1)"

definition sys_process_handler :: "pref \<Rightarrow> nat \<Rightarrow> nat \<Rightarrow> kernel \<Rightarrow> outcome" where
  "sys_process_handler p arg1 arg2 k =
     kunwrap (from_usize process_operations arg1) k (\<lambda>operation.
     kunwrap (KernelReferenceID arg2) k (\<lambda>i.
     kunwrap (value_of p i k) k (\<lambda>v.
     kunwrap (as_process v) k (\<lambda>q.
       case operation of
         ProcessGetExitCode \<Rightarrow> Some (Ret (exit_number (exit_status (procs k q))), [], k)
       | ProcessKill \<Rightarrow> do { k1 \<leftarrow> kill_threads q k; Some (Ret 0, [], k1) }))))"

definition sleep_handler :: "nat \<Rightarrow> nat \<Rightarrow> nat \<Rightarrow> kernel \<Rightarrow> outcome" where
  "sleep_handler c now arg1 k = do {
     k1 \<leftarrow> on_sched (sleep_until c now arg1) k;
     Some (Left, [], k1)
   }"

subsection \<open>Messages\<close>

datatype SyscallMessageAction = MessageCreate | MessageGetSize | MessageDoRead

definition message_actions :: "SyscallMessageAction list" where
  "message_actions = [MessageCreate, MessageGetSize, MessageDoRead]"

definition message_handler :: "pref \<Rightarrow> user_memory \<Rightarrow> nat \<Rightarrow> nat \<Rightarrow> kernel \<Rightarrow> outcome" where
  "message_handler p um arg1 arg2 k =
     kunwrap (from_usize message_actions arg1) k (\<lambda>action.
       case action of
         MessageCreate \<Rightarrow> do {
           let req = um_message_create um arg2;
           (i, k1) \<leftarrow> give_value p (VMessage (um_bytes um (fst req) (snd req))) k;
           Some (Ret 0, [WMessageAfter arg2 i], k1)
         }
       | MessageGetSize \<Rightarrow>
           kunwrap (value_of p (um_message_size um arg2) k) k (\<lambda>v.
           kunwrap (as_message v) k (\<lambda>msg.
             Some (Ret 0, [WMessageAfter arg2 (length msg)], k)))
       | MessageDoRead \<Rightarrow>
           let msg_read = um_message_read um arg2 in
           kunwrap (value_of p (mr_id msg_read) k) k (\<lambda>v.
           kunwrap (as_message v) k (\<lambda>msg.
           kassert (length msg = snd (mr_ptr msg_read)) k
             (Some (Ret 0, [WBytes (fst (mr_ptr msg_read)) msg], k)))))"

subsection \<open>Channels\<close>

datatype ChannelSyscall = ChannelCreate | ChannelDoRead | ChannelDoWrite

definition channel_syscalls :: "ChannelSyscall list" where
  "channel_syscalls = [ChannelCreate, ChannelDoRead, ChannelDoWrite]"

primrec give_values :: "pref \<Rightarrow> KernelValue list \<Rightarrow> kernel \<Rightarrow> (nat list \<times> kernel) option" where
  "give_values p [] k = Some ([], k)"
| "give_values p (v # vs) k = do {
     (i, k1) \<leftarrow> give_value p v k;
     (is, k2) \<leftarrow> give_values p vs k1;
     Some (i # is, k2)
   }"

text \<open>The handles of a message to send: every one must be there.\<close>

primrec values_of :: "pref \<Rightarrow> nat option list \<Rightarrow> kernel \<Rightarrow> KernelValue list option" where
  "values_of p [] k = Some []"
| "values_of p (h # hs) k = do {
     i \<leftarrow> h;
     v \<leftarrow> value_of p i k;
     vs \<leftarrow> values_of p hs k;
     Some (v # vs)
   }"

definition channel_new_handler :: "pref \<Rightarrow> nat \<Rightarrow> kernel \<Rightarrow> outcome" where
  "channel_new_handler p arg2 k =
     (case channel_create (cstore k) of ((l, r), cs) \<Rightarrow> do {
        (i, k1) \<leftarrow> give_value p (VChannel l) (k\<lparr>cstore := cs\<rparr>);
        (j, k2) \<leftarrow> give_value p (VChannel r) k1;
        Some (Ret 1, [WChannelCreate arg2 i j], k2)
      })"

definition channel_read_handler :: "pref \<Rightarrow> nat \<Rightarrow> ChannelRead \<Rightarrow> kernel \<Rightarrow> outcome" where
  "channel_read_handler p arg2 rd k =
     kunwrap (value_of p (cr_handle rd) k) k (\<lambda>v.
     kunwrap (as_channel v) k (\<lambda>ch.
       case chan_read (cr_data_len rd) (cr_handles_len rd) (chans (cstore k) ch) of (res, ch', evs) \<Rightarrow> do {
         k1 \<leftarrow> run_events evs (k\<lparr>cstore := (cstore k)\<lparr>chans := (chans (cstore k))(ch := ch')\<rparr>\<rparr>);
         (case res of
            Inr m \<Rightarrow> (case msg_handles m of
                Some h \<Rightarrow> do {
                  (is, k2) \<leftarrow> give_values p h k1;
                  Some (Ret 0, [WBytes (cr_data rd) (msg_data m), WChannelLens arg2 (length (msg_data m)) (length h),
                    WReferences (cr_handles rd) is], k2)
                }
              | None \<Rightarrow> Some (Ret 0, [WBytes (cr_data rd) (msg_data m), WChannelLens arg2 (length (msg_data m)) 0], k1))
          | Inl Empty \<Rightarrow> Some (Ret 1, [], k1)
          | Inl (Size min_bytes min_handles) \<Rightarrow> Some (Ret 2, [WChannelLens arg2 min_bytes min_handles], k1)
          | Inl Closed \<Rightarrow> Some (Ret 3, [], k1))
       }))"

text \<open>The values of a delivered message are clones; those of a refused one are dropped again.\<close>

definition channel_write_handler :: "pref \<Rightarrow> user_memory \<Rightarrow> ChannelWrite \<Rightarrow> kernel \<Rightarrow> outcome" where
  "channel_write_handler p um wr k =
     kunwrap (value_of p (cw_handle wr) k) k (\<lambda>v.
     kunwrap (as_channel v) k (\<lambda>ch.
     kunwrap (if cw_handles wr \<noteq> 0 \<and> cw_handles_len wr > 0
              then map_option Some (values_of p (um_references um (cw_handles wr) (cw_handles_len wr)) k)
              else Some None) k (\<lambda>handles.
       case send_on ch \<lparr>msg_data = um_bytes um (cw_data wr) (cw_data_len wr), msg_handles = handles\<rparr> (cstore k) of
         (sent, evs, cs) \<Rightarrow> do {
           k1 \<leftarrow> run_events evs (k\<lparr>cstore := if sent then fold clone_value (case handles of Some hs \<Rightarrow> hs | None \<Rightarrow> []) cs else cs\<rparr>);
           Some (Ret (if sent then 1 else 0), [], k1)
         })))"

definition sys_channel_handler :: "pref \<Rightarrow> user_memory \<Rightarrow> nat \<Rightarrow> nat \<Rightarrow> kernel \<Rightarrow> outcome" where
  "sys_channel_handler p um syscall arg2 k =
     kunwrap (from_usize channel_syscalls syscall) k (\<lambda>action.
       case action of
         ChannelCreate \<Rightarrow> channel_new_handler p arg2 k
       | ChannelDoRead \<Rightarrow> channel_read_handler p arg2 (um_channel_read um arg2) k
       | ChannelDoWrite \<Rightarrow> channel_write_handler p um (um_channel_write um arg2) k)"

subsection \<open>Ports and interrupts\<close>

datatype PortSyscall = PortCreate | PortWait | PortPush

definition port_syscalls :: "PortSyscall list" where
  "port_syscalls = [PortCreate, PortWait, PortPush]"

text \<open>One pass of the loop of \<open>KPort::wait\<close>; after the loop the notification goes to \<open>arg2\<close>.\<close>

definition port_wait_pass :: "nat \<Rightarrow> tref \<Rightarrow> portref \<Rightarrow> nat \<Rightarrow> kernel \<Rightarrow> outcome" where
  "port_wait_pass c t port arg2 k =
     (case port_try_wait t (ports k port) of
        (Some n, q) \<Rightarrow> Some (Ret 0, [WNotification arg2 n], k\<lparr>ports := (ports k)(port := q)\<rparr>)
      | (None, q) \<Rightarrow> block_in c (CPortWait port arg2) (k\<lparr>ports := (ports k)(port := q)\<rparr>))"

definition port_of_handle :: "pref \<Rightarrow> nat \<Rightarrow> kernel \<Rightarrow> portref option" where
  "port_of_handle p i k = do { j \<leftarrow> KernelReferenceID i; v \<leftarrow> value_of p j k; as_port v }"

definition interrupt_of_handle :: "pref \<Rightarrow> nat \<Rightarrow> kernel \<Rightarrow> iref option" where
  "interrupt_of_handle p i k = do { j \<leftarrow> KernelReferenceID i; v \<leftarrow> value_of p j k; as_interrupt v }"

definition sys_port_handler :: "nat \<Rightarrow> tref \<Rightarrow> pref \<Rightarrow> user_memory \<Rightarrow> nat \<Rightarrow> nat \<Rightarrow> nat \<Rightarrow> kernel \<Rightarrow> outcome" where
  "sys_port_handler c t p um syscall arg1 arg2 k =
     kunwrap (from_usize port_syscalls syscall) k (\<lambda>action.
       case action of
         PortCreate \<Rightarrow> do {
           let n = next_port k;
           (i, k1) \<leftarrow> give_value p (VPort n) (k\<lparr>ports := (ports k)(n := port_new), next_port := n + 1\<rparr>);
           Some (Ret i, [], k1)
         }
       | PortWait \<Rightarrow> kunwrap (port_of_handle p arg1 k) k (\<lambda>port. port_wait_pass c t port arg2 k)
       | PortPush \<Rightarrow> kunwrap (port_of_handle p arg1 k) k (\<lambda>port. do {
           k1 \<leftarrow> run_event (Notify port (um_notification um arg2)) k;
           Some (Ret 0, [], k1)
         }))"

datatype InterruptSyscall =
  InterruptCreate | InterruptTrigger | InterruptSetPort | InterruptAcknowledge | InterruptWait

definition interrupt_syscalls :: "InterruptSyscall list" where
  "interrupt_syscalls = [InterruptCreate, InterruptTrigger, InterruptSetPort, InterruptAcknowledge, InterruptWait]"

definition on_interrupt :: "iref \<Rightarrow> (KInterruptHandle \<Rightarrow> KInterruptHandle \<times> kevent list) \<Rightarrow> kernel \<Rightarrow> outcome" where
  "on_interrupt i f k =
     (case f (ints k i) of (x, evs) \<Rightarrow> do {
        k1 \<leftarrow> run_events evs (k\<lparr>ints := (ints k)(i := x)\<rparr>);
        Some (Ret 0, [], k1)
      })"

text \<open>One pass of the loop of \<open>KInterruptHandle::wait\<close>.\<close>

definition interrupt_wait_pass :: "nat \<Rightarrow> tref \<Rightarrow> iref \<Rightarrow> kernel \<Rightarrow> outcome" where
  "interrupt_wait_pass c t i k =
     (case interrupt_try_wait t (ints k i) of
        (WaitError, x) \<Rightarrow> Some (Fail, [], k\<lparr>ints := (ints k)(i := x)\<rparr>)
      | (WaitDone, x) \<Rightarrow> Some (Ret 0, [], k\<lparr>ints := (ints k)(i := x)\<rparr>)
      | (WaitBlock, x) \<Rightarrow> block_in c (CInterruptWait i) (k\<lparr>ints := (ints k)(i := x)\<rparr>))"

definition sys_interrupt_handler ::
  "nat \<Rightarrow> nat \<Rightarrow> tref \<Rightarrow> pref \<Rightarrow> nat \<Rightarrow> nat \<Rightarrow> nat \<Rightarrow> nat \<Rightarrow> kernel \<Rightarrow> outcome" where
  "sys_interrupt_handler c now t p syscall handle port key k =
     kunwrap (from_usize interrupt_syscalls syscall) k (\<lambda>action.
       case action of
         InterruptCreate \<Rightarrow> do {
           let n = next_int k;
           (i, k1) \<leftarrow> give_value p (VInterrupt n) (k\<lparr>ints := (ints k)(n := interrupt_new), next_int := n + 1\<rparr>);
           Some (Ret i, [], k1)
         }
       | InterruptTrigger \<Rightarrow> kunwrap (interrupt_of_handle p handle k) k (\<lambda>i. on_interrupt i (trigger now) k)
       | InterruptSetPort \<Rightarrow>
           kunwrap (interrupt_of_handle p handle k) k (\<lambda>i.
           kunwrap (port_of_handle p port k) k (\<lambda>q.
             on_interrupt i (set_port now q (of_nat key)) k))
       | InterruptAcknowledge \<Rightarrow> kunwrap (interrupt_of_handle p handle k) k (\<lambda>i. on_interrupt i (ack now) k)
       | InterruptWait \<Rightarrow> kunwrap (interrupt_of_handle p handle k) k (\<lambda>i. interrupt_wait_pass c t i k))"

subsection \<open>The dispatcher\<close>

definition YIELD_NOW :: nat where "YIELD_NOW = 1"
definition EXIT_THREAD :: nat where "EXIT_THREAD = 5"

text \<open>The match on the number of the call; \<open>YIELD_NOW\<close> and \<open>EXIT_THREAD\<close> are in \<open>syscall_handler\<close>.\<close>

definition dispatch ::
  "nat \<Rightarrow> nat \<Rightarrow> tref \<Rightarrow> user_memory \<Rightarrow> nat \<Rightarrow> nat \<Rightarrow> nat \<Rightarrow> nat \<Rightarrow> nat \<Rightarrow> kernel \<Rightarrow> outcome" where
  "dispatch c now t um number arg1 arg2 arg3 arg4 k =
     (let p = t_proc k t in
      if number = 0 then echo_handler arg1 k
      else if number = 3 then do { (r, k1) \<leftarrow> spawn_thread p arg1 arg2 k; Some (Ret r, [], k1) }
      else if number = 4 then sleep_handler c now arg1 k
      else if number = 6 then mmap_page_handler p arg1 arg2 k
      else if number = 7 then read_args_handler p arg1 k
      else if number = 8 then Some (Ret p, [], k)
      else if number = 9 then unmmap_page_handler p arg1 arg2 k
      else if number = 10 then mmap_page32_handler p k
      else if number = 11 then message_handler p um arg1 arg2 k
      else if number = 12 then sys_port_handler c t p um arg1 arg2 arg3 k
      else if number = 13 then sys_interrupt_handler c now t p arg1 arg2 arg3 arg4 k
      else if number = 14 then sys_channel_handler p um arg1 arg2 k
      else if number = 15 then sys_reference_handler c t p um arg1 arg2 arg3 k
      else if number = 16 then sys_process_handler p arg1 arg2 k
      else Some (Fail, [], k))"

text \<open>The end of \<open>syscall_handler\<close>: the thread leaves the system call, and an error kills it.\<close>

definition finish :: "nat \<Rightarrow> sysres \<times> user_write list \<times> kernel \<Rightarrow> outcome" where
  "finish c r =
     (case r of
        (Ret v, ws, k) \<Rightarrow> do { k1 \<leftarrow> on_sched (syscall_leave c) k; Some (Ret v, ws, k1) }
      | (Fail, ws, k) \<Rightarrow> do {
          k1 \<leftarrow> on_sched (syscall_leave c) k;
          k2 \<leftarrow> on_sched (kill_bad_task c) k1;
          Some (Left, ws, k2)
        }
      | _ \<Rightarrow> Some r)"

definition syscall_handler ::
  "nat \<Rightarrow> nat \<Rightarrow> user_memory \<Rightarrow> nat \<Rightarrow> nat \<Rightarrow> nat \<Rightarrow> nat \<Rightarrow> nat \<Rightarrow> kernel \<Rightarrow> outcome" where
  "syscall_handler c now um number arg1 arg2 arg3 arg4 k = do {
     t \<leftarrow> cur (ksch k) c;
     (entered, s) \<leftarrow> syscall_enter c (ksch k);
     let k1 = k\<lparr>ksch := s\<rparr>;
     if \<not> entered then Some (Left, [], k1)
     else if number = YIELD_NOW then do { k2 \<leftarrow> on_sched (yield_now c) k1; Some (Left, [], k2) }
     else if number = EXIT_THREAD then do { k2 \<leftarrow> on_sched (exit_thread c) k1; Some (Left, [], k2) }
     else do { r \<leftarrow> dispatch c now t um number arg1 arg2 arg3 arg4 k1; finish c r }
   }"

text \<open>What the thread on core \<open>c\<close> does after the scheduler has switched to it.\<close>

definition resume :: "nat \<Rightarrow> nat \<Rightarrow> tref \<Rightarrow> kcont \<Rightarrow> kernel \<Rightarrow> outcome" where
  "resume c now t cont k =
     (case cont of
        CStart _ _ \<Rightarrow> Some (UserCode, [], k)
      | CUser \<Rightarrow> Some (UserCode, [], k)
      | CYield \<Rightarrow> Some (Ret 0, [], k)
      | CSleep start \<Rightarrow> do { d \<leftarrow> sub_usize now start; finish c (Ret d, [], k) }
      | CWaitChannel ch \<Rightarrow> do {
          let st = signal_status (chan_signal (chans (cstore k) ch));
          k1 \<leftarrow> drop_value (VChannel ch) k;
          finish c (Ret (unat st), [], k1)
        }
      | CWaitProcess p \<Rightarrow> finish c (Ret (unat (signal_status (p_signals (procs k p)))), [], k)
      | CPortWait port arg2 \<Rightarrow> do { r \<leftarrow> port_wait_pass c t port arg2 k; finish c r }
      | CInterruptWait i \<Rightarrow> do { r \<leftarrow> interrupt_wait_pass c t i k; finish c r }
      | CDead \<Rightarrow> None)"

end
