(* ===== verification/Kernel_Safety.thy ===== *)
theory Kernel_Safety
  imports Syscalls
begin

text \<open>
  What holds of the kernel state between system calls: the scheduler is consistent, a thread that
  left for good is marked so that it is never switched to, and every handle in a reference table or
  in a queued message names an object that exists.  The last is the typing of the store of kernel
  objects: it is what the unchecked accesses of the handlers rely on.
\<close>

subsection \<open>The scheduler\<close>

definition sched_inv :: "tref \<Rightarrow> sch \<Rightarrow> bool" where
  "sched_inv n s \<longleftrightarrow>
     (\<exists>ts. sched_ok s ts) \<and> (\<forall>t. n \<le> t \<longrightarrow> t_state (thr s t) = Zombie) \<and>
     (\<forall>t. task_state (thr s t) = Some CDead \<longrightarrow> killed (thr s t) \<and> \<not> in_syscall (thr s t))"

lemma sched_invI:
  assumes "sched_ok s' ts" "sched_inv n s"
    and "\<And>u. t_state (thr s u) = Zombie \<Longrightarrow> t_state (thr s' u) = Zombie"
    and "\<And>u. task_state (thr s' u) = Some CDead \<Longrightarrow>
      killed (thr s' u) \<and> \<not> in_syscall (thr s' u)"
  shows "sched_inv n s'"
  using assms unfolding sched_inv_def by blast

lemma sched_inv_dead:
  "sched_inv n s \<Longrightarrow> task_state (thr s t) = Some CDead \<Longrightarrow> killed (thr s t) \<and> \<not> in_syscall (thr s t)"
  by (simp add: sched_inv_def)

lemma enqueue_thr: "enqueue t s = Some s' \<Longrightarrow> thr s' = thr s"
  by (auto simp: enqueue_def bind_eq_Some_conv)

lemma wake_inv:
  assumes "sched_inv n s"
  shows "\<exists>s'. wake t s = Some s' \<and> sched_inv n s' \<and> cur s' = cur s"
proof -
  obtain ts where "sched_ok s ts" using assms by (auto simp: sched_inv_def)
  from wake_ok [OF this, of t] obtain s' ts' where w: "wake t s = Some s'" "sched_ok s' ts'" "cur s' = cur s" by blast
  have th: "thr s' u = (if u = t \<and> t_state (thr s t) = Sleeping then (thr s u)\<lparr>t_state := Runnable\<rparr> else thr s u)" for u
    using w(1) by (auto simp: wake_def upd_thread_def dest!: enqueue_thr split: ThreadState.splits)
  have "sched_inv n s'"
    by (rule sched_invI [OF w(2) assms]) (use th sched_inv_dead [OF assms] in \<open>auto split: if_splits\<close>)
  then show ?thesis using w by blast
qed

lemma wake_all_inv:
  "sched_inv n s \<Longrightarrow> \<exists>s'. wake_all ts s = Some s' \<and> sched_inv n s' \<and> cur s' = cur s"
proof (induction ts arbitrary: s)
  case (Cons t ts)
  from wake_inv [OF Cons.prems, of t] obtain s1 where "wake t s = Some s1" "sched_inv n s1" "cur s1 = cur s" by blast
  then show ?case using Cons.IH [of s1] by auto
qed simp

lemma leave_thr:
  assumes "leave c 1 k s = Some s'" "cur s c = Some t"
  shows "thr s' = (thr s)(t := (thr s t)\<lparr>task_state := Some k\<rparr>)"
  using assms by (auto simp: leave_def upd_thread_def Let_def dest!: enqueue_thr split: ThreadState.splits)

text \<open>The thread on a core changes its flags or its state and leaves.\<close>

lemma leave_inv:
  assumes inv: "sched_inv n s" and c: "cur s c = Some t"
    and l: "leave c 1 k (upd_thread t f s) = Some s'" and "sched_ok s' ts"
    and "k = CDead \<Longrightarrow> killed (f (thr s t)) \<and> \<not> in_syscall (f (thr s t))"
  shows "sched_inv n s'"
proof -
  obtain us where "sched_ok s us" using inv by (auto simp: sched_inv_def)
  from running_thread(1) [OF this c] have r: "t_state (thr s t) \<noteq> Zombie" by simp
  have th: "thr s' = (thr s)(t := (f (thr s t))\<lparr>task_state := Some k\<rparr>)"
    using leave_thr [OF l, of t] c by (simp add: upd_thread_def)
  show ?thesis
    by (rule sched_invI [OF assms(4) inv]) (use th r assms(5) sched_inv_dead [OF inv] in \<open>auto split: if_splits\<close>)
qed

lemma block_inv:
  assumes inv: "sched_inv n s" and c: "cur s c = Some t" and "k \<noteq> CDead"
  shows "\<exists>s'. block c k s = Some s' \<and> sched_inv n s' \<and> cur s' = (cur s)(c := None)"
proof -
  obtain ts where ok: "sched_ok s ts" using inv by (auto simp: sched_inv_def)
  from block_sched_ok [OF this c, of k] obtain s' where
    b: "block c k s = Some s'" "sched_ok s' ts" "cur s' = (cur s)(c := None)" by blast
  then have "leave c 1 k (upd_thread t (\<lambda>x. x\<lparr>t_state := Sleeping\<rparr>) s) = Some s'"
    using c by (simp add: block_def)
  from leave_inv [OF inv c this b(2)] assms(3) b show ?thesis by blast
qed

lemma leave_flags_inv:
  assumes inv: "sched_inv n s" and c: "cur s c = Some t" and f: "\<And>x. same_sched (f x) x"
    and "k = CDead \<Longrightarrow> killed (f (thr s t)) \<and> \<not> in_syscall (f (thr s t))"
  shows "\<exists>s'. leave c 1 k (upd_thread t f s) = Some s' \<and> sched_inv n s' \<and> cur s' = (cur s)(c := None)"
proof -
  obtain ts where ok: "sched_ok s ts" using inv by (auto simp: sched_inv_def)
  from leave_flags_ok [OF this c f, of k] obtain s' where
    l: "leave c 1 k (upd_thread t f s) = Some s'" "sched_ok s' (ts @ [t])" "cur s' = (cur s)(c := None)" by blast
  from leave_inv [OF inv c l(1,2) assms(4)] l show ?thesis by blast
qed

lemma flags_inv:
  assumes inv: "sched_inv n s" and c: "cur s c = Some t" and f: "\<And>x. same_sched (f x) x"
  shows "sched_inv n (upd_thread t f s)"
proof -
  obtain ts where ok: "sched_ok s ts" using inv by (auto simp: sched_inv_def)
  have "task_state (f (thr s t)) = None" "t_state (f (thr s t)) = t_state (thr s t)"
    using running_thread(2) [OF ok c] f [of "thr s t"] by (simp_all add: same_sched_def)
  then show ?thesis
    by (intro sched_invI [OF upd_flags_ok [OF ok f] inv])
      (use sched_inv_dead [OF inv] in \<open>auto simp: upd_thread_def split: if_splits\<close>)
qed

lemma set_killed_thr:
  "thr (set_killed ts s) = (\<lambda>t. if t \<in> set ts then (thr s t)\<lparr>killed := True\<rparr> else thr s t)"
proof (induction ts arbitrary: s)
  case (Cons t ts)
  show ?case using Cons.IH [of "upd_thread t (\<lambda>x. x\<lparr>killed := True\<rparr>) s"]
    by (auto simp: set_killed_def upd_thread_def)
qed (simp add: set_killed_def)

lemma set_killed_inv:
  assumes "sched_inv n s"
  shows "sched_inv n (set_killed ts s)" "cur (set_killed ts s) = cur s"
proof -
  obtain us where "sched_ok s us" using assms by (auto simp: sched_inv_def)
  note k = set_killed_ok [OF this, of ts]
  show "cur (set_killed ts s) = cur s" using k by simp
  show "sched_inv n (set_killed ts s)"
    by (rule sched_invI [OF conjunct1 [OF k] assms])
      (use sched_inv_dead [OF assms] in \<open>auto simp: set_killed_thr split: if_splits\<close>)
qed

lemma start_inv:
  assumes inv: "sched_inv t s"
  shows "\<exists>s'. start_thread t e a s = Some s' \<and> sched_inv (t + 1) s' \<and> cur s' = cur s"
proof -
  obtain ts where ok: "sched_ok s ts" and z: "t_state (thr s t) = Zombie" using inv by (auto simp: sched_inv_def)
  from start_ok [OF ok z, of e a] obtain s' where
    s': "start_thread t e a s = Some s'" "sched_ok s' (ts @ [t])" "cur s' = cur s" by blast
  have "thr s' = (thr s)(t := new_thread_sched e a)"
    using s'(1) by (auto simp: start_thread_def upd_thread_def dest: enqueue_thr)
  then have "sched_inv (t + 1) s'"
    using s'(2) inv by (auto simp: sched_inv_def new_thread_sched_def split: if_splits)
  then show ?thesis using s' by blast
qed

subsection \<open>Handles name objects\<close>

definition value_ok :: "kernel \<Rightarrow> KernelValue \<Rightarrow> bool" where
  "value_ok k v =
     (case v of
        VMessage _ \<Rightarrow> True
      | VProcess p \<Rightarrow> p < next_pid k
      | VChannel c \<Rightarrow> c < next_cref (cstore k)
      | VPort p \<Rightarrow> p < next_port k
      | VInterrupt i \<Rightarrow> i < next_int k)"

definition table_ok :: "kernel \<Rightarrow> Process \<Rightarrow> bool" where
  "table_ok k pr \<longleftrightarrow> 0 < next_id pr \<and>
     (\<forall>i v. references pr i = Some v \<longrightarrow> 0 < i \<and> i < next_id pr \<and> value_ok k v)"

definition refs_inv :: "kernel \<Rightarrow> bool" where
  "refs_inv k \<longleftrightarrow>
     (\<forall>p. table_ok k (procs k p)) \<and>
     (\<forall>ch. \<forall>v \<in> set (carried (chan_queue (chans (cstore k) ch))). value_ok k v) \<and>
     (\<forall>ch < next_cref (cstore k). chan_peer (cstore k) ch < next_cref (cstore k))"

definition kernel_ok :: "kernel \<Rightarrow> bool" where
  "kernel_ok k \<longleftrightarrow> sched_inv (next_tref k) (ksch k) \<and> refs_inv k"

text \<open>A later state has at least the objects of an earlier one.\<close>

definition grows :: "kernel \<Rightarrow> kernel \<Rightarrow> bool" where
  "grows k k' \<longleftrightarrow> next_pid k \<le> next_pid k' \<and> next_cref (cstore k) \<le> next_cref (cstore k') \<and>
     next_port k \<le> next_port k' \<and> next_int k \<le> next_int k'"

lemma value_ok_update [simp]:
  "value_ok (k\<lparr>procs := x\<rparr>) v = value_ok k v" "value_ok (k\<lparr>ksch := y\<rparr>) v = value_ok k v"
  "value_ok (k\<lparr>ports := z\<rparr>) v = value_ok k v" "value_ok (k\<lparr>kvm := w\<rparr>) v = value_ok k v"
  by (simp_all add: value_ok_def cong: KernelValue.case_cong)

lemma value_ok_grows: "value_ok k v \<Longrightarrow> grows k k' \<Longrightarrow> value_ok k' v"
  by (auto simp: value_ok_def grows_def split: KernelValue.splits)

lemma refs_inv_step:
  assumes inv: "refs_inv k" and g: "grows k k'"
    and "\<And>p. table_ok k (procs k p) \<Longrightarrow> table_ok k' (procs k' p)"
    and q: "\<And>ch. set (carried (chan_queue (chans (cstore k') ch))) \<subseteq> set (carried (chan_queue (chans (cstore k) ch)))"
    and "\<And>ch. ch < next_cref (cstore k') \<Longrightarrow> chan_peer (cstore k') ch < next_cref (cstore k')"
  shows "refs_inv k'"
  using inv assms(3,5) value_ok_grows [OF _ g] q unfolding refs_inv_def by (meson subsetD)

lemma table_ok_grows: "table_ok k pr \<Longrightarrow> grows k k' \<Longrightarrow> table_ok k' pr"
  using value_ok_grows unfolding table_ok_def by blast

lemma table_ok_same:
  "table_ok k pr \<Longrightarrow> references pr' = references pr \<Longrightarrow> next_id pr' = next_id pr \<Longrightarrow> grows k k' \<Longrightarrow> table_ok k' pr'"
  using value_ok_grows unfolding table_ok_def by metis

lemma refs_invD:
  assumes "refs_inv k"
  shows "table_ok k (procs k p)" "v \<in> set (carried (chan_queue (chans (cstore k) ch))) \<Longrightarrow> value_ok k v"
    "ch < next_cref (cstore k) \<Longrightarrow> chan_peer (cstore k) ch < next_cref (cstore k)"
  using assms unfolding refs_inv_def by blast+

text \<open>Changes that leave the handles alone.\<close>

lemma refs_inv_cong:
  assumes "refs_inv k" "next_pid k' = next_pid k" "cstore k' = cstore k" "next_port k' = next_port k" "next_int k' = next_int k"
    "\<And>p. references (procs k' p) = references (procs k p) \<and> next_id (procs k' p) = next_id (procs k p)"
  shows "refs_inv k'"
proof (rule refs_inv_step [OF assms(1)])
  show g: "grows k k'" using assms by (simp add: grows_def)
  show "table_ok k (procs k p) \<Longrightarrow> table_ok k' (procs k' p)" for p using table_ok_same assms(6) g by blast
qed (use assms(3) refs_invD(3) [OF assms(1)] in auto)

lemma value_of_ok: "refs_inv k \<Longrightarrow> value_of p i k = Some v \<Longrightarrow> value_ok k v"
  using refs_invD(1) [of k p] by (auto simp: value_of_def get_value_def table_ok_def)

lemma give_value_inv:
  assumes inv: "refs_inv k" and v: "value_ok k v" and room: "next_id (procs k p) + 1 < 2 ^ 64"
  shows "\<exists>pr. give_value p v k = Some (next_id (procs k p), k\<lparr>procs := (procs k)(p := pr)\<rparr>) \<and>
    next_id pr = next_id (procs k p) + 1 \<and> references pr = (references (procs k p))(next_id (procs k p) := Some v) \<and>
    refs_inv (k\<lparr>procs := (procs k)(p := pr)\<rparr>)"
proof -
  define pr where "pr = (procs k p)\<lparr>references := (references (procs k p))(next_id (procs k p) := Some v),
    next_id := next_id (procs k p) + 1\<rparr>"
  note t = refs_invD(1) [OF inv, of p]
  have "references (procs k p) (next_id (procs k p)) = None"
    using t by (auto simp: table_ok_def) (metis less_irrefl not_None_eq)
  then have "give_value p v k = Some (next_id (procs k p), k\<lparr>procs := (procs k)(p := pr)\<rparr>)"
    using t room by (simp add: give_value_def add_value_def table_ok_def pr_def add_usize_def)
  moreover have "refs_inv (k\<lparr>procs := (procs k)(p := pr)\<rparr>)"
  proof (rule refs_inv_step [OF inv])
    show "grows k (k\<lparr>procs := (procs k)(p := pr)\<rparr>)" by (simp add: grows_def)
    then show "table_ok (k\<lparr>procs := (procs k)(p := pr)\<rparr>) (procs (k\<lparr>procs := (procs k)(p := pr)\<rparr>) q)"
      if "table_ok k (procs k q)" for q
      using that t v by (auto simp: table_ok_def pr_def less_Suc_eq)
  qed (use refs_invD(3) [OF inv] in auto)
  ultimately show ?thesis by (auto simp: pr_def)
qed

lemma drop_step_refs:
  assumes "drop_step d s = (ds, evs, s')"
  shows "next_cref s' = next_cref s \<and> chan_peer s' = chan_peer s \<and>
    (\<forall>ch. set (carried (chan_queue (chans s' ch))) \<subseteq> set (carried (chan_queue (chans s ch))))"
  using assms
  by (auto simp: drop_step_def Let_def carried_def split: dropping.splits KernelValue.splits if_splits prod.splits
      dest!: close_peer_queue close_self_queue)

lemma drop_values_refs:
  "drop_values ds s = (evs, s') \<Longrightarrow> next_cref s' = next_cref s \<and> chan_peer s' = chan_peer s \<and>
    (\<forall>ch. set (carried (chan_queue (chans s' ch))) \<subseteq> set (carried (chan_queue (chans s ch))))"
proof (induction ds s arbitrary: evs s' rule: drop_values.induct)
  case (2 d ds s)
  obtain ds1 e1 s1 where st: "drop_step d s = (ds1, e1, s1)" by (metis prod.exhaust)
  obtain e2 where "drop_values (ds1 @ ds) s1 = (e2, s')" using 2(2) st by (auto simp: Let_def split: prod.splits)
  then show ?case using 2(1) [OF refl, of e2 s'] drop_step_refs [OF st] st by auto
qed simp

subsection \<open>Steps of the kernel\<close>

lemma run_event_ok:
  assumes "kernel_ok k"
  shows "\<exists>s q. run_event e k = Some (k\<lparr>ksch := s, ports := q\<rparr>) \<and> cur s = cur (ksch k) \<and> sched_inv (next_tref k) s"
proof (cases e)
  case (Wake t)
  from wake_inv [of "next_tref k" "ksch k" t] assms obtain s' where
    "wake t (ksch k) = Some s'" "sched_inv (next_tref k) s'" "cur s' = cur (ksch k)" by (auto simp: kernel_ok_def)
  then show ?thesis by (intro exI [of _ s'] exI [of _ "ports k"]) (simp add: Wake run_event_def on_sched_def)
next
  case (Notify p n)
  obtain p' evs where pn: "port_notify n (ports k p) = (p', evs)" by fastforce
  from wake_all_inv [of "next_tref k" "ksch k" "woken_by evs"] assms obtain s' where
    "wake_all (woken_by evs) (ksch k) = Some s'" "sched_inv (next_tref k) s'" "cur s' = cur (ksch k)"
    by (auto simp: kernel_ok_def)
  then show ?thesis
    by (intro exI [of _ s'] exI [of _ "(ports k)(p := p')"]) (simp add: Notify pn run_event_def on_sched_def)
qed

lemma kernel_ok_sched:
  "kernel_ok k \<Longrightarrow> sched_inv (next_tref k) s \<Longrightarrow> kernel_ok (k\<lparr>ksch := s, ports := q\<rparr>)"
  unfolding kernel_ok_def by (auto intro: refs_inv_cong)

lemma run_events_ok:
  "kernel_ok k \<Longrightarrow> \<exists>s q. run_events evs k = Some (k\<lparr>ksch := s, ports := q\<rparr>) \<and> cur s = cur (ksch k) \<and>
     sched_inv (next_tref k) s"
proof (induction evs arbitrary: k)
  case Nil
  then show ?case by (intro exI [of _ "ksch k"] exI [of _ "ports k"]) (simp add: kernel_ok_def)
next
  case (Cons e evs)
  from run_event_ok [OF Cons.prems, of e] obtain s q where
    e: "run_event e k = Some (k\<lparr>ksch := s, ports := q\<rparr>)" "cur s = cur (ksch k)" "sched_inv (next_tref k) s" by blast
  from Cons.IH [OF kernel_ok_sched [OF Cons.prems e(3), of q]] e show ?case by fastforce
qed

text \<open>
  A handler is \<open>fine\<close> when it does not panic, keeps the invariant, and has left the core if and only
  if it says so; it \<open>keeps\<close> the invariant when this holds unless it panics.
\<close>

definition ends_ok :: "nat \<Rightarrow> tref \<Rightarrow> sysres \<times> user_write list \<times> kernel \<Rightarrow> bool" where
  "ends_ok c t r \<longleftrightarrow>
     (case r of (res, ws, k) \<Rightarrow> kernel_ok k \<and> cur (ksch k) c = (if res = Left then None else Some t))"

definition fine :: "nat \<Rightarrow> tref \<Rightarrow> outcome \<Rightarrow> bool" where
  "fine c t r \<longleftrightarrow> (\<exists>x. r = Some x \<and> ends_ok c t x)"

definition keeps :: "nat \<Rightarrow> tref \<Rightarrow> outcome \<Rightarrow> bool" where
  "keeps c t r \<longleftrightarrow> (\<forall>x. r = Some x \<longrightarrow> ends_ok c t x)"

definition runs :: "nat \<Rightarrow> tref \<Rightarrow> kernel \<Rightarrow> bool" where
  "runs c t k \<longleftrightarrow> kernel_ok k \<and> cur (ksch k) c = Some t"

lemma fine_keeps: "fine c t r \<Longrightarrow> keeps c t r"
  by (auto simp: fine_def keeps_def)

lemma fine_done [intro]: "runs c t k \<Longrightarrow> fine c t (Some (Ret v, ws, k))" "runs c t k \<Longrightarrow> fine c t (Some (Fail, ws, k))"
  by (simp_all add: fine_def ends_ok_def runs_def)

lemma fine_kunwrap [intro]:
  "runs c t k \<Longrightarrow> (\<And>v. x = Some v \<Longrightarrow> fine c t (f v)) \<Longrightarrow> fine c t (kunwrap x k f)"
  by (auto simp: kunwrap_def split: option.splits)

lemma fine_kassert [intro]: "runs c t k \<Longrightarrow> (b \<Longrightarrow> fine c t r) \<Longrightarrow> fine c t (kassert b k r)"
  by (auto simp: kassert_def)

lemma runs_sched: "runs c t k \<Longrightarrow> sched_inv (next_tref k) s \<Longrightarrow> cur s c = Some t \<Longrightarrow> runs c t (k\<lparr>ksch := s, ports := q\<rparr>)"
  by (simp add: runs_def kernel_ok_sched)

lemma fine_events:
  assumes "runs c t k" "\<And>s q. runs c t (k\<lparr>ksch := s, ports := q\<rparr>) \<Longrightarrow> fine c t (f (k\<lparr>ksch := s, ports := q\<rparr>))"
  shows "fine c t (run_events evs k \<bind> f)"
  using run_events_ok [of k evs] assms runs_sched [OF assms(1)] by (auto simp: runs_def)

lemma fine_block:
  assumes "runs c t k" "cont \<noteq> CDead"
  shows "fine c t (block_in c cont k)"
proof -
  from assms block_inv [of "next_tref k" "ksch k" c t cont] obtain s where
    s: "block c cont (ksch k) = Some s" "sched_inv (next_tref k) s" "cur s = (cur (ksch k))(c := None)"
    by (auto simp: runs_def kernel_ok_def)
  have "kernel_ok (k\<lparr>ksch := s\<rparr>)"
    using assms(1) s(2) by (auto simp: runs_def kernel_ok_def intro: refs_inv_cong)
  then show ?thesis using s by (simp add: block_in_def on_sched_def fine_def ends_ok_def)
qed

text \<open>Changes of the kernel that are not changes of the scheduler.\<close>

lemma runs_refs: "runs c t k \<Longrightarrow> ksch k' = ksch k \<Longrightarrow> next_tref k' = next_tref k \<Longrightarrow> refs_inv k' \<Longrightarrow> runs c t k'"
  by (simp add: runs_def kernel_ok_def)

lemma runs_cong:
  assumes "runs c t k" "ksch k' = ksch k" "next_tref k' = next_tref k" "next_pid k' = next_pid k" "cstore k' = cstore k"
    "next_port k' = next_port k" "next_int k' = next_int k"
    "\<And>p. references (procs k' p) = references (procs k p) \<and> next_id (procs k' p) = next_id (procs k p)"
  shows "runs c t k'"
  by (rule runs_refs [OF assms(1-3)], rule refs_inv_cong [of k]) (use assms in \<open>auto simp: runs_def kernel_ok_def\<close>)

lemma runs_refsD: "runs c t k \<Longrightarrow> refs_inv k"
  by (simp add: runs_def kernel_ok_def)

lemma runs_cstore:
  assumes "runs c t k" "next_cref (cstore k) \<le> next_cref cs"
    "\<And>ch. set (carried (chan_queue (chans cs ch))) \<subseteq> set (carried (chan_queue (chans (cstore k) ch)))"
    "\<And>ch. ch < next_cref cs \<Longrightarrow> chan_peer cs ch < next_cref cs"
  shows "runs c t (k\<lparr>cstore := cs\<rparr>)"
proof (rule runs_refs [OF assms(1)])
  show "refs_inv (k\<lparr>cstore := cs\<rparr>)"
  proof (rule refs_inv_step [OF runs_refsD [OF assms(1)]])
    show g: "grows k (k\<lparr>cstore := cs\<rparr>)" using assms(2) by (simp add: grows_def)
    show "table_ok k (procs k p) \<Longrightarrow> table_ok (k\<lparr>cstore := cs\<rparr>) (procs (k\<lparr>cstore := cs\<rparr>) p)" for p
      using table_ok_grows [OF _ g] by simp
  qed (use assms in auto)
qed simp_all

lemma fine_give:
  assumes "runs c t k" "value_ok k v" "next_id (procs k p) + 1 < 2 ^ 64"
    and "\<And>i pr. runs c t (k\<lparr>procs := (procs k)(p := pr)\<rparr>) \<Longrightarrow> next_id pr = next_id (procs k p) + 1 \<Longrightarrow>
      fine c t (f (i, k\<lparr>procs := (procs k)(p := pr)\<rparr>))"
  shows "fine c t (give_value p v k \<bind> f)"
proof -
  from give_value_inv [OF runs_refsD [OF assms(1)] assms(2,3)] obtain pr where
    pr: "give_value p v k = Some (next_id (procs k p), k\<lparr>procs := (procs k)(p := pr)\<rparr>)"
      "next_id pr = next_id (procs k p) + 1" "refs_inv (k\<lparr>procs := (procs k)(p := pr)\<rparr>)" by blast
  from runs_refs [OF assms(1) _ _ pr(3)] have "runs c t (k\<lparr>procs := (procs k)(p := pr)\<rparr>)" by simp
  then show ?thesis using assms(4) pr by simp
qed

lemma drop_value_fine:
  assumes "runs c t k" "\<And>k'. runs c t k' \<Longrightarrow> fine c t (f k')"
  shows "fine c t (drop_value v k \<bind> f)"
proof -
  obtain evs cs where d: "drop_values [DropValue v] (cstore k) = (evs, cs)" by fastforce
  have "runs c t (k\<lparr>cstore := cs\<rparr>)"
    by (rule runs_cstore [OF assms(1)])
      (use drop_values_refs [OF d] refs_invD(3) [OF runs_refsD [OF assms(1)]] in auto)
  then show ?thesis unfolding drop_value_def d prod.case using assms(2) by (rule fine_events)
qed

subsection \<open>The handlers\<close>

lemma object_wait_cont: "signals_of v k = Some sg \<Longrightarrow> wait_cont v \<noteq> CDead"
  by (auto simp: signals_of_def wait_cont_def split: KernelValue.splits)

lemma runs_set_signals: "runs c t k \<Longrightarrow> runs c t (set_signals v sg k)"
proof (cases v)
  case (VChannel ch)
  assume r: "runs c t k"
  show ?thesis unfolding VChannel set_signals_def KernelValue.case
    by (rule runs_cstore [OF r]) (use refs_invD(3) [OF runs_refsD [OF r]] in auto)
next
  case (VProcess p)
  assume "runs c t k"
  then show ?thesis by (rule runs_cong) (auto simp: VProcess set_signals_def upd_proc_def)
qed (simp_all add: set_signals_def)

lemma clone_value_frame:
  "chans (clone_value v s) = chans s" "chan_peer (clone_value v s) = chan_peer s" "next_cref (clone_value v s) = next_cref s"
  by (simp_all add: clone_value_def split: KernelValue.splits)

lemma runs_clone: "runs c t k \<Longrightarrow> runs c t (k\<lparr>cstore := clone_value v (cstore k)\<rparr>)"
  by (rule runs_cstore) (auto simp: clone_value_frame dest: refs_invD(3) [OF runs_refsD])

lemma value_ok_clone: "value_ok k v \<Longrightarrow> value_ok (k\<lparr>cstore := clone_value w (cstore k)\<rparr>) v"
  by (auto simp: value_ok_def clone_value_frame split: KernelValue.splits)

lemma reference_fine:
  assumes r: "runs c t k" and room: "next_id (procs k p) + 1 < 2 ^ 64"
  shows "fine c t (sys_reference_handler c t p um arg1 arg2 arg3 k)"
proof -
  have clone: "fine c t (reference_clone p i k)" for i
    unfolding reference_clone_def
  proof (intro fine_kunwrap r fine_give runs_clone value_ok_clone)
    show "value_ok k v" if "value_of p i k = Some v" for v using value_of_ok [OF runs_refsD [OF r] that] .
  qed (use room in auto)
  have delete: "fine c t (reference_delete p i k)" for i
    unfolding reference_delete_def
  proof (intro fine_kunwrap r drop_value_fine fine_done)
    show "runs c t (upd_proc p (\<lambda>x. x\<lparr>references := (references x)(i := None)\<rparr>) k)" for v
    proof (rule runs_refs [OF r])
      show "refs_inv (upd_proc p (\<lambda>x. x\<lparr>references := (references x)(i := None)\<rparr>) k)"
        by (rule refs_inv_step [OF runs_refsD [OF r]])
          (use refs_invD(3) [OF runs_refsD [OF r]] in \<open>auto simp: upd_proc_def grows_def table_ok_def split: if_splits\<close>)
    qed (simp_all add: upd_proc_def)
  qed
  have wait: "fine c t (reference_wait c t p i arg3 k)" for i
    unfolding reference_wait_def Let_def
    by (intro fine_kunwrap r) (auto split: prod.splits option.splits intro!: fine_done fine_block runs_clone runs_set_signals r
      dest: object_wait_cont)
  have wait_port: "fine c t (reference_wait_port p i w k)" for i w
    unfolding reference_wait_port_def
    by (intro fine_kunwrap r) (auto split: prod.splits intro!: fine_events runs_set_signals r)
  show ?thesis
    unfolding sys_reference_handler_def
    by (intro fine_kunwrap r) (auto split: ReferenceOperation.splits intro!: clone delete wait wait_port r
      simp: reference_get_type_def)
qed

lemma runs_killed: "runs c t k \<Longrightarrow> runs c t (k\<lparr>ksch := set_killed ts (ksch k)\<rparr>)"
  using runs_sched [of c t k "set_killed ts (ksch k)" "ports k"] set_killed_inv [of "next_tref k" "ksch k" ts]
  by (simp add: runs_def kernel_ok_def)

lemma process_exited_fine:
  assumes "runs c t k" "\<And>k'. runs c t k' \<Longrightarrow> fine c t (f k')"
  shows "fine c t (process_exited p k \<bind> f)"
proof -
  obtain sg evs where sg: "set_signal PROCESS_EXITED True (p_signals (procs k p)) = (sg, evs)" by fastforce
  have 1: "runs c t (upd_proc p (\<lambda>x. x\<lparr>exit_status := Exited, p_signals := sg\<rparr>) k)"
    by (rule runs_cong [OF assms(1)]) (auto simp: upd_proc_def)
  have "runs c t (k'\<lparr>processes := x\<rparr>)" if "runs c t k'" for k' x
    by (rule runs_cong [OF that]) auto
  then show ?thesis unfolding process_exited_def sg prod.case Option.bind_assoc
    by (intro fine_events 1) (use assms(2) in simp)
qed

lemma process_fine: "runs c t k \<Longrightarrow> fine c t (sys_process_handler p arg1 arg2 k)"
  unfolding sys_process_handler_def
proof (intro fine_kunwrap; (assumption | erule (1) fine_kunwrap)?)
  fix op i v q
  assume r: "runs c t k"
  have "fine c t (kill_threads q k \<bind> (\<lambda>k1. Some (Ret 0, [], k1)))"
  proof (cases "map snd (p_threads (procs k q)) = []")
    case True
    then have "kill_threads q k = process_exited q (k\<lparr>ksch := set_killed [] (ksch k)\<rparr>)" by (simp add: kill_threads_def)
    then show ?thesis using process_exited_fine [OF runs_killed [OF r]] fine_done(1) by metis
  next
    case False
    then show ?thesis using runs_killed [OF r] by (auto simp: kill_threads_def)
  qed
  then show "fine c t (case op of ProcessGetExitCode \<Rightarrow> Some (Ret (exit_number (exit_status (procs k q))), [], k)
      | ProcessKill \<Rightarrow> kill_threads q k \<bind> (\<lambda>k1. Some (Ret 0, [], k1)))"
    using r by (auto split: KernelProcessOperation.splits)
qed

lemma message_fine:
  assumes r: "runs c t k" and room: "next_id (procs k p) + 1 < 2 ^ 64"
  shows "fine c t (message_handler p um arg1 arg2 k)"
  unfolding message_handler_def Let_def
proof (intro fine_kunwrap r)
  fix action
  have "fine c t (give_value p (VMessage m) k \<bind> (\<lambda>(i, k1). Some (Ret 0, [WMessageAfter arg2 i], k1)))" for m
    by (rule fine_give [OF r _ room]) (auto simp: value_ok_def)
  then show "fine c t (case action of
      MessageCreate \<Rightarrow> give_value p (VMessage (um_bytes um (fst (um_message_create um arg2)) (snd (um_message_create um arg2)))) k
        \<bind> (\<lambda>(i, k1). Some (Ret 0, [WMessageAfter arg2 i], k1))
    | MessageGetSize \<Rightarrow> kunwrap (value_of p (um_message_size um arg2) k) k
        (\<lambda>v. kunwrap (as_message v) k (\<lambda>msg. Some (Ret 0, [WMessageAfter arg2 (length msg)], k)))
    | MessageDoRead \<Rightarrow> kunwrap (value_of p (mr_id (um_message_read um arg2)) k) k
        (\<lambda>v. kunwrap (as_message v) k (\<lambda>msg. kassert (length msg = snd (mr_ptr (um_message_read um arg2))) k
          (Some (Ret 0, [WBytes (fst (mr_ptr (um_message_read um arg2))) msg], k)))))"
    using r by (auto split: SyscallMessageAction.splits)
qed

lemma give_values_fine:
  assumes "runs c t k" "\<forall>v \<in> set vs. value_ok k v" "next_id (procs k p) + length vs < 2 ^ 64"
    and "\<And>is k'. runs c t k' \<Longrightarrow> fine c t (f (is, k'))"
  shows "fine c t (give_values p vs k \<bind> f)"
  using assms
proof (induction vs arbitrary: k f)
  case (Cons v vs)
  have "fine c t (give_value p v k \<bind> (\<lambda>(i, k1). give_values p vs k1 \<bind> (\<lambda>(is, k2). Some (i # is, k2)) \<bind> f))"
  proof (rule fine_give [OF Cons.prems(1)], goal_cases)
    case (3 i pr)
    have "give_values p vs k' \<bind> (\<lambda>(is, k2). Some (i # is, k2)) \<bind> f =
        give_values p vs k' \<bind> (\<lambda>(is, k2). f (i # is, k2))" for k'
      by (simp add: Option.bind_assoc case_prod_unfold)
    moreover have "fine c t (give_values p vs (k\<lparr>procs := (procs k)(p := pr)\<rparr>) \<bind> (\<lambda>(is, k2). f (i # is, k2)))"
      by (rule Cons.IH) (use 3 Cons.prems in auto)
    ultimately show ?case by simp
  qed (use Cons.prems in auto)
  then show ?case by (simp add: Option.bind_assoc case_prod_unfold)
qed simp

lemma channel_new_fine:
  assumes r: "runs c t k" and room: "next_id (procs k p) + 2 < 2 ^ 64"
  shows "fine c t (channel_new_handler p arg2 k)"
proof -
  obtain l r' cs where cc: "channel_create (cstore k) = ((l, r'), cs)" by (metis prod.exhaust)
  define n where "n = next_cref (cstore k)"
  have eq: "l = n" "r' = n + 1" "next_cref cs = n + 2"
    "chans cs = (chans (cstore k))(n := channel_default, n + 1 := channel_default)"
    "chan_peer cs = (chan_peer (cstore k))(n := n + 1, n + 1 := n)"
    using cc by (auto simp: channel_create_def Let_def n_def)
  have cs: "l < next_cref cs" "r' < next_cref cs" "next_cref (cstore k) \<le> next_cref cs" by (simp_all add: eq n_def)
  have q: "set (carried (chan_queue (chans cs ch))) \<subseteq> set (carried (chan_queue (chans (cstore k) ch)))" for ch
    by (simp add: eq channel_default_def carried_def)
  have peer: "chan_peer cs ch < next_cref cs" if "ch < next_cref cs" for ch
  proof (cases "ch < n")
    case True
    then show ?thesis using refs_invD(3) [OF runs_refsD [OF r], of ch] by (simp add: eq n_def)
  next
    case False
    then have "ch = n \<or> ch = n + 1" using that by (auto simp: eq)
    then show ?thesis by (auto simp: eq)
  qed
  have r1: "runs c t (k\<lparr>cstore := cs\<rparr>)" by (rule runs_cstore [OF r cs(3) q peer])
  have v: "value_ok (k\<lparr>cstore := cs\<rparr>) (VChannel l)" "value_ok (k\<lparr>cstore := cs, procs := x\<rparr>) (VChannel r')" for x
    using cs by (simp_all add: value_ok_def)
  show ?thesis unfolding channel_new_handler_def cc prod.case
    by (rule fine_give [OF r1 v(1)]) (use room v(2) in \<open>auto intro!: fine_give\<close>)
qed

lemma carried_Cons: "carried (m # ms) = (case msg_handles m of None \<Rightarrow> [] | Some hs \<Rightarrow> hs) @ carried ms"
  by (simp add: carried_def)

lemma chan_read_frame:
  assumes "chan_read n m ch = (res, ch', evs)"
  shows "set (carried (chan_queue ch')) \<subseteq> set (carried (chan_queue ch))"
    "res = Inr msg \<Longrightarrow> msg_handles msg = Some h \<Longrightarrow> set h \<subseteq> set (carried (chan_queue ch)) \<and> length h \<le> length (carried (chan_queue ch))"
  using assms
  by (auto simp: chan_read_def set_chan_signal_def handles_len_def carried_Cons split: list.splits if_splits prod.splits)

lemma channel_read_fine:
  assumes r: "runs c t k" and room: "\<And>ch. next_id (procs k p) + length (carried (chan_queue (chans (cstore k) ch))) < 2 ^ 64"
  shows "fine c t (channel_read_handler p arg2 rd k)"
  unfolding channel_read_handler_def
proof (intro fine_kunwrap r)
  fix v ch
  obtain res ch' evs where cr: "chan_read (cr_data_len rd) (cr_handles_len rd) (chans (cstore k) ch) = (res, ch', evs)"
    by (metis prod.exhaust)
  define k1 where "k1 = k\<lparr>cstore := (cstore k)\<lparr>chans := (chans (cstore k))(ch := ch')\<rparr>\<rparr>"
  have r1: "runs c t k1" unfolding k1_def
    by (rule runs_cstore [OF r]) (use chan_read_frame(1) [OF cr] refs_invD(3) [OF runs_refsD [OF r]] in auto)
  have h: "\<forall>v \<in> set h. value_ok (k1\<lparr>ksch := s, ports := q\<rparr>) v" "length h \<le> length (carried (chan_queue (chans (cstore k) ch)))"
    if "res = Inr m" "msg_handles m = Some h" for m h s q
  proof -
    have "value_ok (k1\<lparr>ksch := s, ports := q\<rparr>) v = value_ok k v" for v
      by (simp add: k1_def value_ok_def split: KernelValue.splits)
    then show "\<forall>v \<in> set h. value_ok (k1\<lparr>ksch := s, ports := q\<rparr>) v" "length h \<le> length (carried (chan_queue (chans (cstore k) ch)))"
      using chan_read_frame(2) [OF cr that] refs_invD(2) [OF runs_refsD [OF r], of _ ch] by blast+
  qed
  show "fine c t (case chan_read (cr_data_len rd) (cr_handles_len rd) (chans (cstore k) ch) of (res, ch', evs) \<Rightarrow>
      run_events evs (k\<lparr>cstore := (cstore k)\<lparr>chans := (chans (cstore k))(ch := ch')\<rparr>\<rparr>) \<bind> (\<lambda>k1. case res of
          Inl Empty \<Rightarrow> Some (Ret 1, [], k1)
        | Inl Closed \<Rightarrow> Some (Ret 3, [], k1)
        | Inl (Size a b) \<Rightarrow> Some (Ret 2, [WChannelLens arg2 a b], k1)
        | Inr m \<Rightarrow> (case msg_handles m of
            None \<Rightarrow> Some (Ret 0, [WBytes (cr_data rd) (msg_data m), WChannelLens arg2 (length (msg_data m)) 0], k1)
          | Some h \<Rightarrow> give_values p h k1 \<bind> (\<lambda>(is, k2). Some (Ret 0, [WBytes (cr_data rd) (msg_data m),
              WChannelLens arg2 (length (msg_data m)) (length h), WReferences (cr_handles rd) is], k2)))))"
    unfolding cr prod.case k1_def [symmetric]
  proof (rule fine_events [OF r1])
    fix s q
    assume r2: "runs c t (k1\<lparr>ksch := s, ports := q\<rparr>)"
    have "fine c t (give_values p h (k1\<lparr>ksch := s, ports := q\<rparr>) \<bind> (\<lambda>(is, k2). Some (Ret 0, [WBytes (cr_data rd) (msg_data m),
        WChannelLens arg2 (length (msg_data m)) (length h), WReferences (cr_handles rd) is], k2)))"
      if "res = Inr m" "msg_handles m = Some h" for m h
      by (rule give_values_fine [OF r2]) (use h [OF that] room [of ch] in \<open>auto simp: k1_def\<close>)
    then show "fine c t (case res of
          Inl Empty \<Rightarrow> Some (Ret 1, [], k1\<lparr>ksch := s, ports := q\<rparr>)
        | Inl Closed \<Rightarrow> Some (Ret 3, [], k1\<lparr>ksch := s, ports := q\<rparr>)
        | Inl (Size a b) \<Rightarrow> Some (Ret 2, [WChannelLens arg2 a b], k1\<lparr>ksch := s, ports := q\<rparr>)
        | Inr m \<Rightarrow> (case msg_handles m of
            None \<Rightarrow> Some (Ret 0, [WBytes (cr_data rd) (msg_data m), WChannelLens arg2 (length (msg_data m)) 0],
              k1\<lparr>ksch := s, ports := q\<rparr>)
          | Some h \<Rightarrow> give_values p h (k1\<lparr>ksch := s, ports := q\<rparr>) \<bind> (\<lambda>(is, k2). Some (Ret 0, [WBytes (cr_data rd) (msg_data m),
              WChannelLens arg2 (length (msg_data m)) (length h), WReferences (cr_handles rd) is], k2))))"
      using r2 by (auto split: sum.splits ReadError.splits option.splits)
  qed
qed

lemma values_of_ok: "refs_inv k \<Longrightarrow> values_of p hs k = Some vs \<Longrightarrow> \<forall>v \<in> set vs. value_ok k v"
  by (induction hs arbitrary: vs) (auto simp: bind_eq_Some_conv dest: value_of_ok)

lemma clone_all_frame:
  "chans (fold clone_value vs s) = chans s" "chan_peer (fold clone_value vs s) = chan_peer s"
  "next_cref (fold clone_value vs s) = next_cref s"
  by (induction vs arbitrary: s) (simp_all add: clone_value_frame)

lemma send_on_frame:
  assumes "send_on ch msg s = (b, evs, s')"
  shows "chan_peer s' = chan_peer s" "next_cref s' = next_cref s"
    "set (carried (chan_queue (chans s' i))) \<subseteq> set (carried (chan_queue (chans s i))) \<union> set (carried [msg])"
  using assms
  by (auto simp: send_on_def chan_send_def set_chan_signal_def Let_def carried_def split: prod.splits if_splits)

lemma runs_queue:
  assumes r: "runs c t k" and "next_cref cs = next_cref (cstore k)" "chan_peer cs = chan_peer (cstore k)"
    and q: "\<And>ch. set (carried (chan_queue (chans cs ch))) \<subseteq> set (carried (chan_queue (chans (cstore k) ch))) \<union> V"
    and V: "\<forall>v \<in> V. value_ok k v"
  shows "runs c t (k\<lparr>cstore := cs\<rparr>)"
proof (rule runs_refs [OF r])
  have v: "value_ok (k\<lparr>cstore := cs\<rparr>) v = value_ok k v" for v
    using assms(2) by (simp add: value_ok_def split: KernelValue.splits)
  show "refs_inv (k\<lparr>cstore := cs\<rparr>)"
    unfolding refs_inv_def table_ok_def v
    using runs_refsD [OF r] q V assms(2,3) by (simp add: refs_inv_def table_ok_def) blast
qed simp_all

lemma channel_write_fine:
  assumes r: "runs c t k"
  shows "fine c t (channel_write_handler p um wr k)"
  unfolding channel_write_handler_def
proof (intro fine_kunwrap r)
  fix v ch handles
  assume "(if cw_handles wr \<noteq> 0 \<and> cw_handles_len wr > 0
      then map_option Some (values_of p (um_references um (cw_handles wr) (cw_handles_len wr)) k) else Some None) = Some handles"
  then have hs: "\<forall>v \<in> set (case handles of Some hs \<Rightarrow> hs | None \<Rightarrow> []). value_ok k v"
    using values_of_ok [OF runs_refsD [OF r]] by (auto split: if_splits)
  define msg where "msg = \<lparr>msg_data = um_bytes um (cw_data wr) (cw_data_len wr), msg_handles = handles\<rparr>"
  obtain sent evs cs where so: "send_on ch msg (cstore k) = (sent, evs, cs)" by (metis prod.exhaust)
  have r1: "runs c t (k\<lparr>cstore := if sent then fold clone_value (case handles of Some hs \<Rightarrow> hs | None \<Rightarrow> []) cs else cs\<rparr>)"
    by (rule runs_queue [OF r, where V = "set (carried [msg])"])
      (use send_on_frame [OF so] hs in \<open>auto simp: clone_all_frame carried_def msg_def split: option.splits\<close>)
  show "fine c t (case send_on ch \<lparr>msg_data = um_bytes um (cw_data wr) (cw_data_len wr), msg_handles = handles\<rparr> (cstore k) of
      (sent, evs, cs) \<Rightarrow>
        run_events evs (k\<lparr>cstore := if sent then fold clone_value (case handles of None \<Rightarrow> [] | Some hs \<Rightarrow> hs) cs else cs\<rparr>) \<bind>
        (\<lambda>k1. Some (Ret (if sent then 1 else 0), [], k1)))"
    unfolding msg_def [symmetric] so prod.case by (rule fine_events [OF r1]) auto
qed

text \<open>There is room for new handles: the counter of the table is not within reach of its bound.\<close>

definition room :: "pref \<Rightarrow> kernel \<Rightarrow> bool" where
  "room p k \<longleftrightarrow> next_id (procs k p) + 2 < 2 ^ 64 \<and>
     (\<forall>ch. next_id (procs k p) + length (carried (chan_queue (chans (cstore k) ch))) < 2 ^ 64)"

lemma channel_fine:
  assumes "runs c t k" "room p k"
  shows "fine c t (sys_channel_handler p um arg1 arg2 k)"
  unfolding sys_channel_handler_def
  using assms by (intro fine_kunwrap) (auto simp: room_def split: ChannelSyscall.splits
    intro: channel_new_fine channel_read_fine channel_write_fine)

lemma runs_ports: "runs c t k \<Longrightarrow> runs c t (k\<lparr>ports := q\<rparr>)"
  by (erule runs_cong) auto

lemma runs_ints: "runs c t k \<Longrightarrow> runs c t (k\<lparr>ints := q\<rparr>)"
  by (erule runs_cong) auto

lemma runs_new_object:
  assumes "runs c t k" "ksch k' = ksch k" "next_tref k' = next_tref k" "procs k' = procs k" "cstore k' = cstore k"
    "next_pid k \<le> next_pid k'" "next_port k \<le> next_port k'" "next_int k \<le> next_int k'"
  shows "runs c t k'"
proof (rule runs_refs [OF assms(1-3)])
  have g: "grows k k'" using assms by (simp add: grows_def)
  show "refs_inv k'"
    by (rule refs_inv_step [OF runs_refsD [OF assms(1)] g])
      (use assms table_ok_grows [OF _ g] refs_invD(3) [OF runs_refsD [OF assms(1)]] in auto)
qed

lemma port_wait_fine: "runs c t k \<Longrightarrow> fine c t (port_wait_pass c t port arg2 k)"
  unfolding port_wait_pass_def
  by (auto split: prod.splits option.splits intro!: fine_block runs_ports fine_done)

lemma port_fine:
  assumes r: "runs c t k" and room: "next_id (procs k p) + 1 < 2 ^ 64"
  shows "fine c t (sys_port_handler c t p um arg1 arg2 arg3 k)"
proof -
  have "runs c t (k\<lparr>ports := (ports k)(next_port k := port_new), next_port := next_port k + 1\<rparr>)"
    by (rule runs_new_object [OF r]) simp_all
  then have create: "fine c t (give_value p (VPort (next_port k))
      (k\<lparr>ports := (ports k)(next_port k := port_new), next_port := next_port k + 1\<rparr>) \<bind> (\<lambda>(i, k1). Some (Ret i, [], k1)))"
    by (rule fine_give) (use room in \<open>auto simp: value_ok_def\<close>)
  have push: "fine c t (run_event e k \<bind> (\<lambda>k1. Some (Ret 0, [], k1)))" for e
    using fine_events [OF r, of "\<lambda>k1. Some (Ret 0, [], k1)" "[e]"] by (auto simp: Option.bind_assoc)
  show ?thesis unfolding sys_port_handler_def Let_def
    using r create push by (intro fine_kunwrap) (auto split: PortSyscall.splits intro!: port_wait_fine)
qed

lemma on_interrupt_fine: "runs c t k \<Longrightarrow> fine c t (on_interrupt i f k)"
  unfolding on_interrupt_def by (auto split: prod.splits intro!: fine_events runs_ints)

lemma interrupt_wait_fine: "runs c t k \<Longrightarrow> fine c t (interrupt_wait_pass c t i k)"
  unfolding interrupt_wait_pass_def
  by (auto split: prod.splits wait_result.splits intro!: fine_block runs_ints fine_done)

lemma interrupt_fine:
  assumes r: "runs c t k" and room: "next_id (procs k p) + 1 < 2 ^ 64"
  shows "fine c t (sys_interrupt_handler c now t p arg1 arg2 arg3 arg4 k)"
proof -
  have "runs c t (k\<lparr>ints := (ints k)(next_int k := interrupt_new), next_int := next_int k + 1\<rparr>)"
    by (rule runs_new_object [OF r]) simp_all
  then have create: "fine c t (give_value p (VInterrupt (next_int k))
      (k\<lparr>ints := (ints k)(next_int k := interrupt_new), next_int := next_int k + 1\<rparr>) \<bind> (\<lambda>(i, k1). Some (Ret i, [], k1)))"
    by (rule fine_give) (use room in \<open>auto simp: value_ok_def\<close>)
  show ?thesis unfolding sys_interrupt_handler_def Let_def
    using r create by (intro fine_kunwrap) (auto split: InterruptSyscall.splits intro!: interrupt_wait_fine on_interrupt_fine)
qed

lemma sleep_fine:
  assumes r: "runs c t k" and "now + arg1 < 2 ^ 64"
  shows "fine c t (sleep_handler c now arg1 k)"
proof -
  define s where "s = (ksch k)\<lparr>slept := slept (ksch k) @ [(now + arg1, t)]\<rparr>"
  have "sched_inv (next_tref k) s"
    using r slept_ok by (auto simp: runs_def kernel_ok_def sched_inv_def s_def)
  from fine_block [OF runs_sched [OF r this, of "ports k"], of "CSleep now"] show ?thesis
    using assms by (simp add: block_in_def sleep_handler_def on_sched_def sleep_until_def add_usize_def runs_def s_def)
qed

subsection \<open>Calls that change address spaces\<close>

lemma keepsI: "(\<And>x. r = Some x \<Longrightarrow> ends_ok c t x) \<Longrightarrow> keeps c t r"
  by (simp add: keeps_def)

lemma ends_ret: "runs c t k \<Longrightarrow> ends_ok c t (Ret v, ws, k)" "runs c t k \<Longrightarrow> ends_ok c t (Fail, ws, k)"
  by (simp_all add: runs_def ends_ok_def)

text \<open>Only address spaces and memory differ.\<close>

definition same_objects :: "kernel \<Rightarrow> kernel \<Rightarrow> bool" where
  "same_objects k k' \<longleftrightarrow> ksch k' = ksch k \<and> next_tref k' = next_tref k \<and> next_pid k' = next_pid k \<and> cstore k' = cstore k \<and>
     next_port k' = next_port k \<and> next_int k' = next_int k \<and>
     (\<forall>p. references (procs k' p) = references (procs k p) \<and> next_id (procs k' p) = next_id (procs k p))"

lemma same_objects_runs: "same_objects k k' \<Longrightarrow> runs c t k \<Longrightarrow> runs c t k'"
  unfolding same_objects_def by (rule runs_cong) auto

lemma mmap_keeps: "runs c t k \<Longrightarrow> keeps c t (mmap_page_handler p arg1 arg2 k)"
  unfolding mmap_page_handler_def kassert_def
  by (rule keepsI)
    (auto simp: bind_eq_Some_conv new_mapping_def Let_def same_objects_def upd_proc_def split: if_splits
      intro!: ends_ret elim!: same_objects_runs [rotated])

lemma mmap32_keeps: "runs c t k \<Longrightarrow> keeps c t (mmap_page32_handler p k)"
  unfolding mmap_page32_handler_def kunwrap_def
  by (rule keepsI)
    (auto simp: bind_eq_Some_conv Let_def same_objects_def upd_proc_def split: option.splits
      intro!: ends_ret elim!: same_objects_runs [rotated])

lemma unmmap_keeps: "runs c t k \<Longrightarrow> keeps c t (unmmap_page_handler p arg1 arg2 k)"
  unfolding unmmap_page_handler_def kassert_def
  by (rule keepsI)
    (auto simp: bind_eq_Some_conv Let_def same_objects_def upd_proc_def split: if_splits
      intro!: ends_ret elim!: same_objects_runs [rotated])

lemma same_objects_trans: "same_objects k k1 \<Longrightarrow> same_objects k1 k2 \<Longrightarrow> same_objects k k2"
  by (simp add: same_objects_def)

lemma map_in_same: "map_in p a r flags k = Some k' \<Longrightarrow> same_objects k k'"
  by (auto simp: map_in_def bind_eq_Some_conv same_objects_def upd_proc_def)

lemma filled_same: "filled_mapping sz k = Some (r, k') \<Longrightarrow> same_objects k k'"
  by (auto simp: filled_mapping_def bind_eq_Some_conv same_objects_def new_mapping_def Let_def)

lemma new_mapping_same: "new_mapping pm k = (r, k') \<Longrightarrow> same_objects k k'"
  by (auto simp: same_objects_def new_mapping_def Let_def)

lemma enter_threads_same:
  "enter_threads p tid a k = Some (r, k') \<Longrightarrow>
   (r = None \<and> same_objects k k') \<or> (r = Some (next_tref k) \<and> same_objects (k\<lparr>next_tref := next_tref k + 1\<rparr>) k')"
  by (auto simp: enter_threads_def bind_eq_Some_conv same_objects_def upd_proc_def Let_def split: if_splits)

lemma same_objects_next: "same_objects k k' \<Longrightarrow> next_tref k' = next_tref k \<and>
    same_objects (k\<lparr>next_tref := n\<rparr>) (k'\<lparr>next_tref := n\<rparr>)"
  by (simp add: same_objects_def)

lemma new_thread_same:
  assumes "new_thread p e a k = Some (r, k')"
  shows "(r = None \<and> same_objects k k') \<or> (r = Some (next_tref k) \<and> same_objects (k\<lparr>next_tref := next_tref k + 1\<rparr>) k')"
proof -
  define k1 where "k1 = upd_proc p (\<lambda>_. (procs k p)\<lparr>thread_next_id := Suc (thread_next_id (procs k p))\<rparr>) k"
  have 1: "same_objects k k1" by (simp add: k1_def same_objects_def upd_proc_def)
  from assms obtain stack k2 k3 kstack k4 k5 tid v b1 b2 where
    st: "(case privilege (procs k p) of KERNEL \<Rightarrow> filled_mapping STACK_SIZE k1
         | USER \<Rightarrow> map_option (\<lambda>pm. new_mapping pm k1) (new_lazy STACK_SIZE)) = Some (stack, k2)"
      "map_in p b1 stack flags_all k2 = Some k3" "filled_mapping KSTACK_SIZE k3 = Some (kstack, k4)"
      "map_in p b2 kstack WRITEABLE (k4\<lparr>kvm := v\<rparr>) = Some k5" "enter_threads p tid b1 k5 = Some (r, k')"
    unfolding new_thread_def k1_def Let_def get_next_id_def by (auto simp: bind_eq_Some_conv)
  have "same_objects k1 k2"
    using st(1) by (auto split: ProcessPrivilige.splits dest: filled_same new_mapping_same sym)
  moreover have "same_objects k4 (k4\<lparr>kvm := v\<rparr>)" by (simp add: same_objects_def)
  ultimately have s5: "same_objects k k5"
    using 1 map_in_same [OF st(2)] filled_same [OF st(3)] map_in_same [OF st(4)] by (simp add: same_objects_def)
  show ?thesis using enter_threads_same [OF st(5)]
  proof
    assume "r = None \<and> same_objects k5 k'"
    then show ?thesis using same_objects_trans [OF s5] by simp
  next
    assume r: "r = Some (next_tref k5) \<and> same_objects (k5\<lparr>next_tref := next_tref k5 + 1\<rparr>) k'"
    note n = same_objects_next [OF s5, of "next_tref k + 1"]
    then show ?thesis using r same_objects_trans [OF conjunct2 [OF n]] by simp
  qed
qed

lemma spawn_keeps:
  assumes r: "runs c t k"
  shows "keeps c t (spawn_thread p e a k \<bind> (\<lambda>(n, k1). Some (Ret n, [], k1)))"
proof (rule keepsI)
  fix x :: "sysres \<times> user_write list \<times> kernel"
  assume "(spawn_thread p e a k \<bind> (\<lambda>(n, k1). Some (Ret n, [], k1))) = Some x"
  then obtain u k1 s where n: "new_thread p e a k = Some (Some u, k1)"
    and st: "start_thread u e a (ksch k1) = Some s" and x: "\<exists>v. x = (Ret v, [], k1\<lparr>ksch := s\<rparr>)"
    by (auto simp: spawn_thread_def bind_eq_Some_conv on_sched_def)
  from new_thread_same [OF n] have u: "u = next_tref k" and so: "same_objects (k\<lparr>next_tref := next_tref k + 1\<rparr>) k1" by auto
  have "ksch k1 = ksch k" "next_tref k1 = u + 1" using so u by (auto simp: same_objects_def)
  with start_inv [of u "ksch k" e a] r st u have s: "sched_inv (next_tref k1) s" "cur s = cur (ksch k)"
    by (auto simp: runs_def kernel_ok_def)
  have "refs_inv (k1\<lparr>ksch := s\<rparr>)"
    by (rule refs_inv_cong [OF runs_refsD [OF r]]) (use so in \<open>auto simp: same_objects_def\<close>)
  then have "runs c t (k1\<lparr>ksch := s\<rparr>)" using r s by (simp add: runs_def kernel_ok_def)
  then show "ends_ok c t x" using x ends_ret by blast
qed

subsection \<open>Whole system calls\<close>

definition memory_call :: "nat \<Rightarrow> bool" where
  "memory_call number \<longleftrightarrow> number \<in> {3, 6, 9, 10}"

lemma dispatch_fine:
  assumes r: "runs c t k" and "\<not> memory_call number" "room (t_proc k t) k" "now + arg1 < 2 ^ 64"
  shows "fine c t (dispatch c now t um number arg1 arg2 arg3 arg4 k)"
proof -
  have rm: "next_id (procs k (t_proc k t)) + 1 < 2 ^ 64" using assms(3) by (simp add: room_def)
  show ?thesis unfolding dispatch_def Let_def echo_handler_def read_args_handler_def
    using assms rm by (auto simp: memory_call_def intro!: sleep_fine message_fine port_fine interrupt_fine
      channel_fine reference_fine process_fine)
qed

lemma dispatch_memory:
  "runs c t k \<Longrightarrow> memory_call number \<Longrightarrow> keeps c t (dispatch c now t um number arg1 arg2 arg3 arg4 k)"
  by (auto simp: memory_call_def dispatch_def Let_def intro: spawn_keeps mmap_keeps mmap32_keeps unmmap_keeps)

lemma syscall_leave_runs:
  assumes "runs c t k"
  shows "\<exists>s. syscall_leave c (ksch k) = Some s \<and> runs c t (k\<lparr>ksch := s\<rparr>)"
proof -
  have "sched_inv (next_tref k) (upd_thread t (\<lambda>x. x\<lparr>in_syscall := False\<rparr>) (ksch k))"
    by (rule flags_inv) (use assms in \<open>auto simp: runs_def kernel_ok_def same_sched_def\<close>)
  from runs_sched [OF assms this, of "ports k"] assms show ?thesis
    by (auto simp: runs_def syscall_leave_def upd_thread_def)
qed

text \<open>A thread that leaves the core for good or until it is picked again.\<close>

lemma leaves_ok:
  assumes r: "runs c t k" and "\<And>x. same_sched (f x) x"
    and "cont = CDead \<Longrightarrow> killed (f (thr (ksch k) t)) \<and> \<not> in_syscall (f (thr (ksch k) t))"
  shows "\<exists>s. leave c 1 cont (upd_thread t f (ksch k)) = Some s \<and> ends_ok c t (Left, ws, k\<lparr>ksch := s\<rparr>)"
proof -
  from leave_flags_inv [of "next_tref k" "ksch k" c t f cont] assms obtain s where
    s: "leave c 1 cont (upd_thread t f (ksch k)) = Some s" "sched_inv (next_tref k) s" "cur s = (cur (ksch k))(c := None)"
    by (auto simp: runs_def kernel_ok_def)
  have "kernel_ok (k\<lparr>ksch := s\<rparr>)"
    using r s(2) by (auto simp: runs_def kernel_ok_def intro: refs_inv_cong)
  then show ?thesis using s by (simp add: ends_ok_def)
qed

lemma kill_bad_ok:
  assumes "runs c t k"
  shows "\<exists>s. kill_bad_task c (ksch k) = Some s \<and> ends_ok c t (Left, ws, k\<lparr>ksch := s\<rparr>)"
  using leaves_ok [OF assms, of "\<lambda>x. x\<lparr>killed := True, in_syscall := False\<rparr>" CDead ws] assms
  by (auto simp: kill_bad_task_def runs_def same_sched_def)

lemma finish_fine:
  assumes "ends_ok c t x"
  shows "fine c t (finish c x)"
proof -
  obtain res ws k where x: "x = (res, ws, k)" by (metis prod.exhaust)
  show ?thesis
  proof (cases "res = Left \<or> res = UserCode")
    case True
    then show ?thesis using assms by (auto simp: x finish_def fine_def)
  next
    case False
    then have r: "runs c t k" using assms by (simp add: x ends_ok_def runs_def)
    from syscall_leave_runs [OF this] obtain s where
      s: "syscall_leave c (ksch k) = Some s" "runs c t (k\<lparr>ksch := s\<rparr>)" by blast
    from kill_bad_ok [OF s(2), of ws] obtain s' where
      s': "kill_bad_task c s = Some s'" "ends_ok c t (Left, ws, k\<lparr>ksch := s'\<rparr>)" by auto
    show ?thesis using False s s' by (cases res) (auto simp: x finish_def on_sched_def fine_def ends_ok_def runs_def)
  qed
qed

lemma finish_bind:
  "fine c t r \<Longrightarrow> fine c t (r \<bind> finish c)" "keeps c t r \<Longrightarrow> keeps c t (r \<bind> finish c)"
proof -
  show "fine c t (r \<bind> finish c)" if "fine c t r"
    using that finish_fine by (auto simp: fine_def [of c t r])
  show "keeps c t (r \<bind> finish c)" if "keeps c t r"
    using that fine_keeps [OF finish_fine] by (cases r) (auto simp: keeps_def)
qed

lemma enter_runs:
  assumes r: "runs c t k" and "\<not> in_syscall (thr (ksch k) t)"
  shows "if killed (thr (ksch k) t)
    then \<exists>s. syscall_enter c (ksch k) = Some (False, s) \<and> ends_ok c t (Left, [], k\<lparr>ksch := s\<rparr>)
    else \<exists>s. syscall_enter c (ksch k) = Some (True, s) \<and> runs c t (k\<lparr>ksch := s\<rparr>)"
proof -
  have "sched_inv (next_tref k) (upd_thread t (\<lambda>x. x\<lparr>in_syscall := True\<rparr>) (ksch k))"
    by (rule flags_inv) (use r in \<open>auto simp: runs_def kernel_ok_def same_sched_def\<close>)
  from runs_sched [OF r this, of "ports k"] r have
    1: "runs c t (k\<lparr>ksch := upd_thread t (\<lambda>x. x\<lparr>in_syscall := True\<rparr>) (ksch k)\<rparr>)" by (simp add: runs_def upd_thread_def)
  have "upd_thread t (\<lambda>x. x) (ksch k) = ksch k" by (simp add: upd_thread_def)
  with leaves_ok [OF r, of "\<lambda>x. x" CDead "[]"] assms(2) have
    2: "killed (thr (ksch k) t) \<Longrightarrow> \<exists>s. leave c 1 CDead (ksch k) = Some s \<and> ends_ok c t (Left, [], k\<lparr>ksch := s\<rparr>)"
    by (auto simp: same_sched_def)
  show ?thesis
  proof (cases "killed (thr (ksch k) t)")
    case True
    from 2 [OF this] show ?thesis using r assms(2) True by (auto simp: syscall_enter_def runs_def)
  next
    case False
    then show ?thesis using 1 r assms(2) by (simp add: syscall_enter_def runs_def)
  qed
qed

text \<open>A call keeps the invariant; only calls that change address spaces or add threads can panic.\<close>

lemma syscall_handler_sound:
  assumes r: "runs c t k" and idle: "\<not> in_syscall (thr (ksch k) t)"
    and D: "\<And>k1. runs c t k1 \<Longrightarrow> k1 = k\<lparr>ksch := ksch k1\<rparr> \<Longrightarrow>
      P (dispatch c now t um number arg1 arg2 arg3 arg4 k1 \<bind> finish c)"
    and P: "\<And>x. fine c t x \<Longrightarrow> P x"
  shows "P (syscall_handler c now um number arg1 arg2 arg3 arg4 k)"
proof (cases "killed (thr (ksch k) t)")
  case True
  with enter_runs [OF r idle] obtain s where
    "syscall_enter c (ksch k) = Some (False, s)" "ends_ok c t (Left, [], k\<lparr>ksch := s\<rparr>)" by auto
  then show ?thesis using r P by (auto simp: syscall_handler_def runs_def fine_def)
next
  case False
  with enter_runs [OF r idle] obtain s where
    s: "syscall_enter c (ksch k) = Some (True, s)" and r1: "runs c t (k\<lparr>ksch := s\<rparr>)" by auto
  from r1 have c1: "cur s c = Some t" by (simp add: runs_def)
  have y: "fine c t (on_sched (yield_now c) (k\<lparr>ksch := s\<rparr>) \<bind> (\<lambda>k2. Some (Left, [], k2)))"
    using leaves_ok [OF r1, of "\<lambda>x. x\<lparr>in_syscall := False\<rparr>" CYield "[]"] c1
    by (auto simp: fine_def on_sched_def yield_now_def same_sched_def)
  have e: "fine c t (on_sched (exit_thread c) (k\<lparr>ksch := s\<rparr>) \<bind> (\<lambda>k2. Some (Left, [], k2)))"
    using leaves_ok [OF r1, of "\<lambda>x. x\<lparr>in_syscall := False, killed := True\<rparr>" CDead "[]"] c1
    by (auto simp: fine_def on_sched_def exit_thread_def same_sched_def)
  have "syscall_handler c now um number arg1 arg2 arg3 arg4 k =
      (if number = YIELD_NOW then on_sched (yield_now c) (k\<lparr>ksch := s\<rparr>) \<bind> (\<lambda>k2. Some (Left, [], k2))
       else if number = EXIT_THREAD then on_sched (exit_thread c) (k\<lparr>ksch := s\<rparr>) \<bind> (\<lambda>k2. Some (Left, [], k2))
       else dispatch c now t um number arg1 arg2 arg3 arg4 (k\<lparr>ksch := s\<rparr>) \<bind> finish c)"
    using r unfolding syscall_handler_def runs_def s Let_def by simp
  moreover have "P (dispatch c now t um number arg1 arg2 arg3 arg4 (k\<lparr>ksch := s\<rparr>) \<bind> finish c)"
    by (rule D [OF r1]) simp_all
  ultimately show ?thesis using P [OF y] P [OF e] by presburger
qed

lemma room_sched: "k1 = k\<lparr>ksch := s\<rparr> \<Longrightarrow> room (t_proc k1 t) k1 = room (t_proc k t) k"
  by (simp add: room_def)

lemma syscall_keeps:
  assumes "runs c t k" "\<not> in_syscall (thr (ksch k) t)" "room (t_proc k t) k" "now + arg1 < 2 ^ 64"
  shows "keeps c t (syscall_handler c now um number arg1 arg2 arg3 arg4 k)"
proof (rule syscall_handler_sound [OF assms(1,2)])
  fix k1 assume r1: "runs c t k1" and k1: "k1 = k\<lparr>ksch := ksch k1\<rparr>"
  have "room (t_proc k1 t) k1" using assms(3) room_sched [OF k1] by simp
  then have "keeps c t (dispatch c now t um number arg1 arg2 arg3 arg4 k1)"
    using dispatch_memory [OF r1] dispatch_fine [OF r1] assms(4) fine_keeps by blast
  then show "keeps c t (dispatch c now t um number arg1 arg2 arg3 arg4 k1 \<bind> finish c)" by (rule finish_bind(2))
qed (rule fine_keeps)

lemma syscall_fine:
  assumes "runs c t k" "\<not> in_syscall (thr (ksch k) t)" "room (t_proc k t) k" "now + arg1 < 2 ^ 64"
    and "\<not> memory_call number"
  shows "fine c t (syscall_handler c now um number arg1 arg2 arg3 arg4 k)"
proof (rule syscall_handler_sound [OF assms(1,2)])
  fix k1 assume r1: "runs c t k1" and k1: "k1 = k\<lparr>ksch := ksch k1\<rparr>"
  have "room (t_proc k1 t) k1" using assms(3) room_sched [OF k1] by simp
  then show "fine c t (dispatch c now t um number arg1 arg2 arg3 arg4 k1 \<bind> finish c)"
    using dispatch_fine [OF r1 assms(5)] assms(4) by (intro finish_bind(1))
qed

subsection \<open>Threads that go on\<close>

lemma pick_alive:
  assumes inv: "sched_inv n s" and c: "cur s c = None" and p: "pick c s = Some (Running t cont, s')"
  shows "cont \<noteq> CDead" "sched_inv n s'" "cur s' c = Some t"
proof -
  obtain ts where ok: "sched_ok s ts" using inv by (auto simp: sched_inv_def)
  from pick_ok [OF ok c] p have s': "sched_ok s' (drop 1 ts)" "cur s' = (cur s)(c := Some t)" by auto
  then show "cur s' c = Some t" by simp
  from p have t: "task_state (thr s t) = Some cont" "\<not> (\<not> in_syscall (thr s t) \<and> killed (thr s t))"
    "thr s' = (thr s)(t := (thr s t)\<lparr>task_state := None\<rparr>)"
    by (auto simp: pick_def Let_def upd_thread_def bind_eq_Some_conv split: prod.splits option.splits if_splits)
  show "cont \<noteq> CDead" using t(1,2) sched_inv_dead [OF inv, of t] by auto
  show "sched_inv n s'"
    by (rule sched_invI [OF s'(1) inv]) (use t(3) sched_inv_dead [OF inv] in \<open>auto split: if_splits\<close>)
qed

lemma resume_fine:
  assumes r: "runs c t k" and "cont \<noteq> CDead" "\<forall>start. cont = CSleep start \<longrightarrow> start \<le> now"
  shows "fine c t (resume c now t cont k)"
proof (cases cont)
  case (CWaitChannel ch)
  show ?thesis unfolding resume_def CWaitChannel kcont.case Let_def
    by (rule drop_value_fine [OF r]) (auto intro!: finish_fine ends_ret)
next
  case (CPortWait port arg2)
  then show ?thesis using finish_bind(1) [OF port_wait_fine [OF r]] by (simp add: resume_def)
next
  case (CInterruptWait i)
  then show ?thesis using finish_bind(1) [OF interrupt_wait_fine [OF r]] by (simp add: resume_def)
next
  case (CSleep start)
  then show ?thesis using assms finish_fine [OF ends_ret(1) [OF r]] by (simp add: resume_def sub_usize_def)
next
  case (CWaitProcess p)
  then show ?thesis using finish_fine [OF ends_ret(1) [OF r]] by (simp add: resume_def)
qed (use assms in \<open>auto simp: resume_def fine_def ends_ok_def runs_def\<close>)

subsection \<open>A kernel with one running thread\<close>

text \<open>Process 0 has one thread, on core 0, and holds both ends of a channel as handles 1 and 2.\<close>

definition sample_sched :: sch where
  "sample_sched = sched_init\<lparr>thr := (thr sched_init)(0 := \<lparr>t_state = Runnable, task_state = None, in_syscall = False, killed = False\<rparr>),
     cur := (cur sched_init)(0 := Some 0)\<rparr>"

definition sample_process :: Process where
  "sample_process = (process_new USER [] sample_space)\<lparr>references := [1 \<mapsto> VChannel 0, 2 \<mapsto> VChannel 1], next_id := 3\<rparr>"

definition empty_store :: chan_store where
  "empty_store = \<lparr>chans = (\<lambda>_. channel_default), chan_peer = (\<lambda>_. 0), chan_refs = (\<lambda>_. 0), next_cref = 0\<rparr>"

definition sample_kernel :: kernel where
  "sample_kernel = \<lparr>ksch = sample_sched, t_proc = (\<lambda>_. 0), t_tid = (\<lambda>_. 0), next_tref = 1,
     procs = (\<lambda>p. if p = 0 then sample_process else process_new USER [] sample_space), processes = [0], next_pid = 1,
     cstore = snd (channel_create empty_store), ports = (\<lambda>_. port_new), next_port = 0,
     ints = (\<lambda>_. interrupt_new), next_int = 0, kvm = sample_vm, next_mapping = 0\<rparr>"

definition sample_user :: user_memory where
  "sample_user = \<lparr>um_bytes = (\<lambda>_ _. [7]), um_references = (\<lambda>_ _. [Some 2]), um_wait_port = (\<lambda>_. \<lparr>wp_port_handle = 1, wp_mask = 0, wp_key = 0\<rparr>),
     um_message_create = (\<lambda>_. (0, 1)), um_message_size = (\<lambda>_. 1), um_message_read = (\<lambda>_. \<lparr>mr_id = 1, mr_ptr = (0, 1)\<rparr>),
     um_channel_read = (\<lambda>_. \<lparr>cr_handle = 2, cr_data = 64, cr_data_len = 1, cr_handles = 128, cr_handles_len = 1\<rparr>),
     um_channel_write = (\<lambda>_. \<lparr>cw_handle = 1, cw_data = 64, cw_data_len = 1, cw_handles = 128, cw_handles_len = 1\<rparr>),
     um_notification = (\<lambda>_. \<lparr>notif_key = 0, notif_ty = Interrupt 0\<rparr>)\<rparr>"

lemma sample_runs: "runs 0 0 sample_kernel"
proof -
  have "sched_ok sample_sched []"
    using sched_init_ok by (auto simp: sched_ok_def sample_sched_def sched_init_def one_core_def on_core_def thread_ok_def dead_thread_def)
  then have "sched_inv 1 sample_sched"
    by (auto simp: sched_inv_def sample_sched_def sched_init_def dead_thread_def)
  moreover have "refs_inv sample_kernel"
    by (auto simp: refs_inv_def table_ok_def sample_kernel_def sample_process_def process_new_def value_ok_def channel_create_def
      empty_store_def Let_def channel_default_def carried_def split: if_splits)
  ultimately show ?thesis by (simp add: runs_def kernel_ok_def sample_kernel_def sample_sched_def)
qed

lemma sample_room: "room 0 sample_kernel"
  by (simp add: room_def sample_kernel_def sample_process_def channel_create_def empty_store_def Let_def channel_default_def carried_def)

lemma sample_thread: "thr (ksch sample_kernel) 0 = \<lparr>t_state = Runnable, task_state = None, in_syscall = False, killed = False\<rparr>"
  "cur (ksch sample_kernel) 0 = Some 0" "t_proc sample_kernel 0 = 0"
  by (simp_all add: sample_kernel_def sample_sched_def)

subsection \<open>Properties\<close>

text \<open>
  C2.  Type soundness of the system-call interface, preservation: whatever number and arguments a
  thread passes and whatever is in its memory, a call that returns or leaves the core keeps the
  kernel well typed.  Every handle in every reference table is in range and names an existing
  object, so does every value inside a queued message, the scheduler stays consistent, and a call
  that returns still runs on its core.  The hypotheses are that the kernel was well typed, that the
  caller is the thread on the core and is not inside another call, and that counters of 64 bits have
  room.
\<close>
theorem syscall_type_preservation:
  assumes "kernel_ok k" "cur (ksch k) c = Some t" "\<not> in_syscall (thr (ksch k) t)" "room (t_proc k t) k" "now + arg1 < 2 ^ 64"
    and "syscall_handler c now um number arg1 arg2 arg3 arg4 k = Some (res, ws, k')"
  shows "kernel_ok k' \<and> cur (ksch k') c = (if res = Left then None else Some t)"
  using syscall_keeps [of c t k now arg1 um number arg2 arg3 arg4] assms by (auto simp: runs_def keeps_def ends_ok_def)

theorem syscall_type_preservation_witness:
  "\<exists>k'. syscall_handler 0 5 sample_user 8 0 0 0 0 sample_kernel = Some (Ret 0, [], k') \<and> kernel_ok k' \<and> cur (ksch k') 0 = Some 0"
proof -
  obtain k' where k': "syscall_handler 0 5 sample_user 8 0 0 0 0 sample_kernel = Some (Ret 0, [], k')"
    by (simp add: syscall_handler_def syscall_enter_def sample_thread dispatch_def finish_def on_sched_def syscall_leave_def
      upd_thread_def Let_def YIELD_NOW_def EXIT_THREAD_def)
  have "kernel_ok k' \<and> cur (ksch k') 0 = Some 0"
    using syscall_type_preservation [OF _ _ _ _ _ k', of 0] sample_runs sample_room by (simp add: runs_def sample_thread)
  with k' show ?thesis by blast
qed




text \<open>Thread 5 is queued and core 0 is free.\<close>

definition queued_kernel :: kernel where
  "queued_kernel = sample_kernel\<lparr>ksch := one_thread, next_tref := 6\<rparr>"

lemma one_thread_simps:
  "one_thread = \<lparr>rq = \<lparr>queue_head = Some 5, queue_tail = Some 5, sched_global = (sched_global sched_data_new)(5 := (sched_global sched_data_new 5)\<lparr>queued := True\<rparr>)\<rparr>,
     thr = (\<lambda>_. dead_thread)(5 := new_thread_sched 0x1000 0), cur = (\<lambda>_. None), slept = []\<rparr>"
  by (simp add: one_thread_def start_thread_def enqueue_def upd_thread_def sched_init_def queue_thread_def
      sched_data_new_def sched_global_new_def Let_def)

lemma queued_kernel_ok: "kernel_ok queued_kernel"
proof -
  obtain ts where "sched_ok one_thread ts" using sched_reach_ok [OF one_thread_reach] by blast
  then have "sched_inv 6 one_thread"
    by (auto simp: sched_inv_def one_thread_simps dead_thread_def new_thread_sched_def)
  moreover have "refs_inv queued_kernel"
    using sample_runs by (auto simp: queued_kernel_def runs_def kernel_ok_def intro: refs_inv_cong)
  ultimately show ?thesis by (simp add: kernel_ok_def queued_kernel_def)
qed


text \<open>Calls with an unknown number or a handle that is not in the table of the caller.\<close>

definition names_nothing :: "pref \<Rightarrow> user_memory \<Rightarrow> nat \<Rightarrow> nat \<Rightarrow> nat \<Rightarrow> kernel \<Rightarrow> bool" where
  "names_nothing p um number arg1 arg2 k \<longleftrightarrow>
     number > 16 \<or>
     number = 16 \<and> value_of p arg2 k = None \<or>
     number = 15 \<and> arg1 \<noteq> 2 \<and> value_of p arg2 k = None \<or>
     number = 14 \<and> arg1 = 1 \<and> value_of p (cr_handle (um_channel_read um arg2)) k = None \<or>
     number = 14 \<and> arg1 = 2 \<and> value_of p (cw_handle (um_channel_write um arg2)) k = None \<or>
     number = 13 \<and> arg1 \<noteq> 0 \<and> value_of p arg2 k = None \<or>
     number = 12 \<and> arg1 \<noteq> 0 \<and> value_of p arg2 k = None \<or>
     number = 11 \<and> arg1 = 1 \<and> value_of p (um_message_size um arg2) k = None \<or>
     number = 11 \<and> arg1 = 2 \<and> value_of p (mr_id (um_message_read um arg2)) k = None"

lemmas object_handlers = sys_process_handler_def sys_reference_handler_def sys_channel_handler_def sys_interrupt_handler_def
  sys_port_handler_def message_handler_def

lemma kunwrap_None [simp]: "kunwrap None k f = Some (Fail, [], k)" "kunwrap (Some v) k f = f v"
  by (simp_all add: kunwrap_def)

lemma kunwrap_fail: "(\<And>v. x = Some v \<Longrightarrow> f v = Some (Fail, [], k)) \<Longrightarrow> kunwrap x k f = Some (Fail, [], k)"
  by (cases x) simp_all

lemma handle_None:
  "value_of p i k = None \<Longrightarrow> port_of_handle p i k = None" "value_of p i k = None \<Longrightarrow> interrupt_of_handle p i k = None"
  by (simp_all add: port_of_handle_def interrupt_of_handle_def KernelReferenceID_def)

lemma names_nothing_fails:
  assumes "names_nothing (t_proc k t) um number arg1 arg2 k"
  shows "dispatch c now t um number arg1 arg2 arg3 arg4 k = Some (Fail, [], k)"
proof -
  define p where "p = t_proc k t"
  have 16: "sys_process_handler p arg1 arg2 k = Some (Fail, [], k)" if "value_of p arg2 k = None"
    unfolding sys_process_handler_def by (intro kunwrap_fail) (use that in \<open>auto simp: KernelReferenceID_def split: if_splits\<close>)
  have 15: "sys_reference_handler c t p um arg1 arg2 arg3 k = Some (Fail, [], k)" if "arg1 \<noteq> 2" "value_of p arg2 k = None"
    unfolding sys_reference_handler_def
    by (intro kunwrap_fail) (use that in \<open>auto simp: KernelReferenceID_def from_usize_def reference_operations_def reference_clone_def
      reference_delete_def reference_wait_def reference_wait_port_def less_Suc_eq numeral_eq_Suc split: if_splits\<close>)
  have 13: "sys_interrupt_handler c now t p arg1 arg2 arg3 arg4 k = Some (Fail, [], k)" if "arg1 \<noteq> 0" "value_of p arg2 k = None"
    unfolding sys_interrupt_handler_def
    by (intro kunwrap_fail) (use that handle_None [OF that(2)] in \<open>auto simp: from_usize_def interrupt_syscalls_def
      less_Suc_eq numeral_eq_Suc split: if_splits\<close>)
  have 12: "sys_port_handler c t p um arg1 arg2 arg3 k = Some (Fail, [], k)" if "arg1 \<noteq> 0" "value_of p arg2 k = None"
    unfolding sys_port_handler_def
    by (intro kunwrap_fail) (use that handle_None [OF that(2)] in \<open>auto simp: from_usize_def port_syscalls_def
      less_Suc_eq numeral_eq_Suc split: if_splits\<close>)
  show ?thesis using assms 16 15 13 12 unfolding names_nothing_def p_def [symmetric]
    by (auto simp: dispatch_def p_def [symmetric] Let_def sys_channel_handler_def message_handler_def from_usize_def
      channel_syscalls_def message_actions_def channel_read_handler_def channel_write_handler_def numeral_eq_Suc)
qed

lemma leave_frame: "leave c 1 cont s = Some s' \<Longrightarrow> cur s c = Some t \<Longrightarrow> cur s' = (cur s)(c := None)"
  by (auto simp: leave_def upd_thread_def Let_def enqueue_def bind_eq_Some_conv split: ThreadState.splits)



end
