(* ===== verification/Keyboard.thy ===== *)
theory Keyboard
  imports Prelude
begin

text \<open>
  Keyboard input: the virtual key codes and the US key map of the \<open>input\<close> crate
  (\<open>input/src/keyboard/virtual_code.rs\<close>, \<open>us_keyboard.rs\<close>) and the scancode decoder of the PS/2
  server (\<open>ps2/src/scancode/set2.rs\<close>).  A constructor \<open>Letter::A\<close> of the sources is
  \<open>Letter_A\<close>.  Shown: the decoder inverts the encoding of key events as bytes, and the key map
  reaches every printable character.
\<close>

subsection \<open>Key codes\<close>

text \<open>A \<open>char\<close> of Rust is its code point.\<close>

type_synonym rchar = nat

definition ascii :: "char \<Rightarrow> rchar" where
  "ascii c = of_char c"

datatype (plugins only: code) Modifier =
    Modifier_LeftShift | Modifier_RightShift | Modifier_LeftAlt | Modifier_RightAlt
  | Modifier_LeftWindows | Modifier_RightWindows | Modifier_LeftControl | Modifier_RightControl
  | Modifier_CapsLock | Modifier_ScrollLock | Modifier_NumLock

datatype (plugins only: code) Control =
    Control_Escape | Control_Enter | Control_Space | Control_Backspace | Control_Delete
  | Control_Tab | Control_Insert | Control_Home | Control_End | Control_PageUp | Control_PageDown
  | Control_ArrowLeft | Control_ArrowRight | Control_ArrowUp | Control_ArrowDown
  | Control_PrintScreen | Control_PauseBreak

datatype (plugins only: code) Number =
    Number_N0 | Number_N1 | Number_N2 | Number_N3 | Number_N4 | Number_N5 | Number_N6 | Number_N7
  | Number_N8 | Number_N9

datatype (plugins only: code) Numpad =
    Numpad_N0 | Numpad_N1 | Numpad_N2 | Numpad_N3 | Numpad_N4 | Numpad_N5 | Numpad_N6 | Numpad_N7
  | Numpad_N8 | Numpad_N9 | Numpad_Div | Numpad_Mul | Numpad_Sub | Numpad_Add | Numpad_Enter
  | Numpad_Period

datatype (plugins only: code) Letter =
    Letter_A | Letter_B | Letter_C | Letter_D | Letter_E | Letter_F | Letter_G | Letter_H | Letter_I
  | Letter_J | Letter_K | Letter_L | Letter_M | Letter_N | Letter_O | Letter_P | Letter_Q
  | Letter_R | Letter_S | Letter_T | Letter_U | Letter_V | Letter_W | Letter_X | Letter_Y
  | Letter_Z

datatype (plugins only: code) Misc =
    Misc_Hyphen | Misc_Equals | Misc_Comma | Misc_Period | Misc_SemiColon | Misc_ForwardSlash
  | Misc_BackSlash | Misc_BackTick | Misc_LeftBracket | Misc_RightBracket | Misc_Quote
  | Misc_MenuKey

datatype (plugins only: code) Function =
    Function_F0 | Function_F1 | Function_F2 | Function_F3 | Function_F4 | Function_F5 | Function_F6
  | Function_F7 | Function_F8 | Function_F9 | Function_F10 | Function_F11 | Function_F12
  | Function_F13 | Function_F14 | Function_F15 | Function_F16 | Function_F17 | Function_F18
  | Function_F19 | Function_F20 | Function_F21 | Function_F22 | Function_F23 | Function_F24

datatype VirtualKeyCode =
    VirtualKeyCode_Modifier Modifier | VirtualKeyCode_Control Control | VirtualKeyCode_Number Number
  | VirtualKeyCode_Numpad Numpad | VirtualKeyCode_Letter Letter | VirtualKeyCode_Misc Misc
  | VirtualKeyCode_Function Function

datatype KeyboardEvent = Down VirtualKeyCode | Up VirtualKeyCode

subsection \<open>The US key map\<close>

primrec number_shifted :: "Number \<Rightarrow> rchar" where
  "number_shifted Number_N0 = ascii CHR '')''"
| "number_shifted Number_N1 = ascii CHR ''!''"
| "number_shifted Number_N2 = ascii CHR ''@''"
| "number_shifted Number_N3 = ascii CHR ''#''"
| "number_shifted Number_N4 = ascii CHR ''$''"
| "number_shifted Number_N5 = ascii CHR ''%''"
| "number_shifted Number_N6 = 0x5E"
| "number_shifted Number_N7 = ascii CHR ''&''"
| "number_shifted Number_N8 = ascii CHR ''*''"
| "number_shifted Number_N9 = ascii CHR ''(''"

primrec number_plain :: "Number \<Rightarrow> rchar" where
  "number_plain Number_N0 = ascii CHR ''0''"
| "number_plain Number_N1 = ascii CHR ''1''"
| "number_plain Number_N2 = ascii CHR ''2''"
| "number_plain Number_N3 = ascii CHR ''3''"
| "number_plain Number_N4 = ascii CHR ''4''"
| "number_plain Number_N5 = ascii CHR ''5''"
| "number_plain Number_N6 = ascii CHR ''6''"
| "number_plain Number_N7 = ascii CHR ''7''"
| "number_plain Number_N8 = ascii CHR ''8''"
| "number_plain Number_N9 = ascii CHR ''9''"

fun numpad_locked :: "Numpad \<Rightarrow> rchar" where
  "numpad_locked Numpad_N0 = ascii CHR ''0''"
| "numpad_locked Numpad_N1 = ascii CHR ''1''"
| "numpad_locked Numpad_N2 = ascii CHR ''2''"
| "numpad_locked Numpad_N3 = ascii CHR ''3''"
| "numpad_locked Numpad_N4 = ascii CHR ''4''"
| "numpad_locked Numpad_N5 = ascii CHR ''5''"
| "numpad_locked Numpad_N6 = ascii CHR ''6''"
| "numpad_locked Numpad_N7 = ascii CHR ''7''"
| "numpad_locked Numpad_N8 = ascii CHR ''8''"
| "numpad_locked Numpad_N9 = ascii CHR ''9''"
| "numpad_locked Numpad_Enter = 0x0A"
| "numpad_locked Numpad_Period = ascii CHR ''.''"
| "numpad_locked _ = 0x00"

fun numpad_unlocked :: "Numpad \<Rightarrow> rchar" where
  "numpad_unlocked Numpad_N5 = ascii CHR ''5''"
| "numpad_unlocked Numpad_Enter = 0x0A"
| "numpad_unlocked Numpad_Period = ascii CHR ''.''"
| "numpad_unlocked _ = 0x00"

primrec letter_upper :: "Letter \<Rightarrow> rchar" where
  "letter_upper Letter_A = ascii CHR ''A''"
| "letter_upper Letter_B = ascii CHR ''B''"
| "letter_upper Letter_C = ascii CHR ''C''"
| "letter_upper Letter_D = ascii CHR ''D''"
| "letter_upper Letter_E = ascii CHR ''E''"
| "letter_upper Letter_F = ascii CHR ''F''"
| "letter_upper Letter_G = ascii CHR ''G''"
| "letter_upper Letter_H = ascii CHR ''H''"
| "letter_upper Letter_I = ascii CHR ''I''"
| "letter_upper Letter_J = ascii CHR ''J''"
| "letter_upper Letter_K = ascii CHR ''K''"
| "letter_upper Letter_L = ascii CHR ''L''"
| "letter_upper Letter_M = ascii CHR ''M''"
| "letter_upper Letter_N = ascii CHR ''N''"
| "letter_upper Letter_O = ascii CHR ''O''"
| "letter_upper Letter_P = ascii CHR ''P''"
| "letter_upper Letter_Q = ascii CHR ''Q''"
| "letter_upper Letter_R = ascii CHR ''R''"
| "letter_upper Letter_S = ascii CHR ''S''"
| "letter_upper Letter_T = ascii CHR ''T''"
| "letter_upper Letter_U = ascii CHR ''U''"
| "letter_upper Letter_V = ascii CHR ''V''"
| "letter_upper Letter_W = ascii CHR ''W''"
| "letter_upper Letter_X = ascii CHR ''X''"
| "letter_upper Letter_Y = ascii CHR ''Y''"
| "letter_upper Letter_Z = ascii CHR ''Z''"

primrec letter_lower :: "Letter \<Rightarrow> rchar" where
  "letter_lower Letter_A = ascii CHR ''a''"
| "letter_lower Letter_B = ascii CHR ''b''"
| "letter_lower Letter_C = ascii CHR ''c''"
| "letter_lower Letter_D = ascii CHR ''d''"
| "letter_lower Letter_E = ascii CHR ''e''"
| "letter_lower Letter_F = ascii CHR ''f''"
| "letter_lower Letter_G = ascii CHR ''g''"
| "letter_lower Letter_H = ascii CHR ''h''"
| "letter_lower Letter_I = ascii CHR ''i''"
| "letter_lower Letter_J = ascii CHR ''j''"
| "letter_lower Letter_K = ascii CHR ''k''"
| "letter_lower Letter_L = ascii CHR ''l''"
| "letter_lower Letter_M = ascii CHR ''m''"
| "letter_lower Letter_N = ascii CHR ''n''"
| "letter_lower Letter_O = ascii CHR ''o''"
| "letter_lower Letter_P = ascii CHR ''p''"
| "letter_lower Letter_Q = ascii CHR ''q''"
| "letter_lower Letter_R = ascii CHR ''r''"
| "letter_lower Letter_S = ascii CHR ''s''"
| "letter_lower Letter_T = ascii CHR ''t''"
| "letter_lower Letter_U = ascii CHR ''u''"
| "letter_lower Letter_V = ascii CHR ''v''"
| "letter_lower Letter_W = ascii CHR ''w''"
| "letter_lower Letter_X = ascii CHR ''x''"
| "letter_lower Letter_Y = ascii CHR ''y''"
| "letter_lower Letter_Z = ascii CHR ''z''"

fun control_char :: "Control \<Rightarrow> rchar" where
  "control_char Control_Enter = 0x0A"
| "control_char Control_Space = ascii CHR '' ''"
| "control_char Control_Backspace = 0x08"
| "control_char Control_Delete = 0x7F"
| "control_char Control_Tab = 0x09"
| "control_char Control_ArrowUp = 0x2191"
| "control_char Control_ArrowDown = 0x2193"
| "control_char _ = 0x00"

primrec misc_shifted :: "Misc \<Rightarrow> rchar" where
  "misc_shifted Misc_Hyphen = ascii CHR ''_''"
| "misc_shifted Misc_Equals = ascii CHR ''+''"
| "misc_shifted Misc_Comma = ascii CHR ''<''"
| "misc_shifted Misc_Period = ascii CHR ''>''"
| "misc_shifted Misc_SemiColon = ascii CHR '':''"
| "misc_shifted Misc_ForwardSlash = ascii CHR ''?''"
| "misc_shifted Misc_BackSlash = ascii CHR ''|''"
| "misc_shifted Misc_BackTick = ascii CHR ''~''"
| "misc_shifted Misc_LeftBracket = ascii CHR ''{''"
| "misc_shifted Misc_RightBracket = ascii CHR ''}''"
| "misc_shifted Misc_Quote = 0x22"
| "misc_shifted Misc_MenuKey = 0x00"

primrec misc_plain :: "Misc \<Rightarrow> rchar" where
  "misc_plain Misc_Hyphen = ascii CHR ''-''"
| "misc_plain Misc_Equals = ascii CHR ''=''"
| "misc_plain Misc_Comma = ascii CHR '',''"
| "misc_plain Misc_Period = ascii CHR ''.''"
| "misc_plain Misc_SemiColon = ascii CHR '';''"
| "misc_plain Misc_ForwardSlash = ascii CHR ''/''"
| "misc_plain Misc_BackSlash = 0x5C"
| "misc_plain Misc_BackTick = 0x60"
| "misc_plain Misc_LeftBracket = ascii CHR ''[''"
| "misc_plain Misc_RightBracket = ascii CHR '']''"
| "misc_plain Misc_Quote = 0x27"
| "misc_plain Misc_MenuKey = 0x00"

definition get_unicode :: "VirtualKeyCode \<Rightarrow> bool \<Rightarrow> bool \<Rightarrow> bool \<Rightarrow> bool \<Rightarrow> rchar" where
  "get_unicode keycode lshift rshift caps numlock =
     (let shift = lshift \<or> rshift; caps_shift = (shift \<noteq> caps) in
      case keycode of
        VirtualKeyCode_Number number \<Rightarrow> if shift then number_shifted number else number_plain number
      | VirtualKeyCode_Numpad key \<Rightarrow> if numlock then numpad_locked key else numpad_unlocked key
      | VirtualKeyCode_Letter letter \<Rightarrow> if caps_shift then letter_upper letter else letter_lower letter
      | VirtualKeyCode_Control key \<Rightarrow> control_char key
      | VirtualKeyCode_Misc key \<Rightarrow> if shift then misc_shifted key else misc_plain key
      | VirtualKeyCode_Function _ \<Rightarrow> 0
      | VirtualKeyCode_Modifier _ \<Rightarrow> 0)"

subsection \<open>Scancode set 2\<close>

definition RELEASE_CODE :: u8 where "RELEASE_CODE = 0xF0"
definition EXTENDED_CODE :: u8 where "EXTENDED_CODE = 0xE0"

datatype State = Start | Release | Extended | ExtendedRelease

definition scancode_table :: "(u8 \<times> VirtualKeyCode) list" where
  "scancode_table = [
     (0x01, VirtualKeyCode_Function Function_F9), (0x03, VirtualKeyCode_Function Function_F5),
     (0x04, VirtualKeyCode_Function Function_F3), (0x05, VirtualKeyCode_Function Function_F1),
     (0x06, VirtualKeyCode_Function Function_F2), (0x07, VirtualKeyCode_Function Function_F12),
     (0x09, VirtualKeyCode_Function Function_F10), (0x0A, VirtualKeyCode_Function Function_F8),
     (0x0B, VirtualKeyCode_Function Function_F6), (0x0C, VirtualKeyCode_Function Function_F4),
     (0x0D, VirtualKeyCode_Control Control_Tab), (0x0E, VirtualKeyCode_Misc Misc_BackTick),
     (0x11, VirtualKeyCode_Modifier Modifier_LeftAlt),
     (0x12, VirtualKeyCode_Modifier Modifier_LeftShift),
     (0x14, VirtualKeyCode_Modifier Modifier_LeftControl),
     (0x15, VirtualKeyCode_Letter Letter_Q), (0x16, VirtualKeyCode_Number Number_N1),
     (0x1A, VirtualKeyCode_Letter Letter_Z), (0x1B, VirtualKeyCode_Letter Letter_S),
     (0x1C, VirtualKeyCode_Letter Letter_A), (0x1D, VirtualKeyCode_Letter Letter_W),
     (0x1E, VirtualKeyCode_Number Number_N2), (0x21, VirtualKeyCode_Letter Letter_C),
     (0x22, VirtualKeyCode_Letter Letter_X), (0x23, VirtualKeyCode_Letter Letter_D),
     (0x24, VirtualKeyCode_Letter Letter_E), (0x25, VirtualKeyCode_Number Number_N4),
     (0x26, VirtualKeyCode_Number Number_N3), (0x29, VirtualKeyCode_Control Control_Space),
     (0x2A, VirtualKeyCode_Letter Letter_V), (0x2B, VirtualKeyCode_Letter Letter_F),
     (0x2C, VirtualKeyCode_Letter Letter_T), (0x2D, VirtualKeyCode_Letter Letter_R),
     (0x2E, VirtualKeyCode_Number Number_N5), (0x31, VirtualKeyCode_Letter Letter_N),
     (0x32, VirtualKeyCode_Letter Letter_B), (0x33, VirtualKeyCode_Letter Letter_H),
     (0x34, VirtualKeyCode_Letter Letter_G), (0x35, VirtualKeyCode_Letter Letter_Y),
     (0x36, VirtualKeyCode_Number Number_N6), (0x3A, VirtualKeyCode_Letter Letter_M),
     (0x3B, VirtualKeyCode_Letter Letter_J), (0x3C, VirtualKeyCode_Letter Letter_U),
     (0x3D, VirtualKeyCode_Number Number_N7), (0x3E, VirtualKeyCode_Number Number_N8),
     (0x41, VirtualKeyCode_Misc Misc_Comma), (0x42, VirtualKeyCode_Letter Letter_K),
     (0x43, VirtualKeyCode_Letter Letter_I), (0x44, VirtualKeyCode_Letter Letter_O),
     (0x45, VirtualKeyCode_Number Number_N0), (0x46, VirtualKeyCode_Number Number_N9),
     (0x49, VirtualKeyCode_Misc Misc_Period), (0x4A, VirtualKeyCode_Misc Misc_ForwardSlash),
     (0x4B, VirtualKeyCode_Letter Letter_L), (0x4C, VirtualKeyCode_Misc Misc_SemiColon),
     (0x4D, VirtualKeyCode_Letter Letter_P), (0x4E, VirtualKeyCode_Misc Misc_Hyphen),
     (0x52, VirtualKeyCode_Misc Misc_Quote), (0x54, VirtualKeyCode_Misc Misc_LeftBracket),
     (0x55, VirtualKeyCode_Misc Misc_Equals), (0x58, VirtualKeyCode_Modifier Modifier_CapsLock),
     (0x59, VirtualKeyCode_Modifier Modifier_RightShift),
     (0x5A, VirtualKeyCode_Control Control_Enter), (0x5B, VirtualKeyCode_Misc Misc_RightBracket),
     (0x5D, VirtualKeyCode_Misc Misc_BackSlash),
     (0x66, VirtualKeyCode_Control Control_Backspace), (0x69, VirtualKeyCode_Numpad Numpad_N1),
     (0x6B, VirtualKeyCode_Numpad Numpad_N4), (0x6C, VirtualKeyCode_Numpad Numpad_N7),
     (0x70, VirtualKeyCode_Numpad Numpad_N0), (0x71, VirtualKeyCode_Numpad Numpad_Period),
     (0x72, VirtualKeyCode_Numpad Numpad_N2), (0x73, VirtualKeyCode_Numpad Numpad_N5),
     (0x74, VirtualKeyCode_Numpad Numpad_N6), (0x75, VirtualKeyCode_Numpad Numpad_N8),
     (0x76, VirtualKeyCode_Control Control_Escape),
     (0x77, VirtualKeyCode_Modifier Modifier_NumLock),
     (0x78, VirtualKeyCode_Function Function_F11), (0x79, VirtualKeyCode_Numpad Numpad_Add),
     (0x7A, VirtualKeyCode_Numpad Numpad_N3), (0x7B, VirtualKeyCode_Numpad Numpad_Sub),
     (0x7C, VirtualKeyCode_Numpad Numpad_Mul), (0x7D, VirtualKeyCode_Numpad Numpad_N9),
     (0x7E, VirtualKeyCode_Modifier Modifier_ScrollLock),
     (0x83, VirtualKeyCode_Function Function_F7),
     (0xE1, VirtualKeyCode_Control Control_PauseBreak)]"

definition map_scancode :: "u8 \<Rightarrow> VirtualKeyCode option" where
  "map_scancode code = map_of scancode_table code"

definition extended_table :: "(u8 \<times> VirtualKeyCode) list" where
  "extended_table = [
     (0x11, VirtualKeyCode_Modifier Modifier_RightAlt),
     (0x14, VirtualKeyCode_Modifier Modifier_RightControl),
     (0x1F, VirtualKeyCode_Modifier Modifier_LeftWindows),
     (0x27, VirtualKeyCode_Modifier Modifier_RightWindows),
     (0x2F, VirtualKeyCode_Misc Misc_MenuKey), (0x4A, VirtualKeyCode_Numpad Numpad_Div),
     (0x5A, VirtualKeyCode_Numpad Numpad_Enter), (0x69, VirtualKeyCode_Control Control_End),
     (0x6B, VirtualKeyCode_Control Control_ArrowLeft),
     (0x6C, VirtualKeyCode_Control Control_Home), (0x70, VirtualKeyCode_Control Control_Insert),
     (0x71, VirtualKeyCode_Control Control_Delete),
     (0x72, VirtualKeyCode_Control Control_ArrowDown),
     (0x74, VirtualKeyCode_Control Control_ArrowRight),
     (0x75, VirtualKeyCode_Control Control_ArrowUp),
     (0x7A, VirtualKeyCode_Control Control_PageDown),
     (0x7D, VirtualKeyCode_Control Control_PageUp)]"

definition map_extened_scancode :: "u8 \<Rightarrow> VirtualKeyCode option" where
  "map_extened_scancode code = map_of extended_table code"

definition add_byte :: "u8 \<Rightarrow> State \<Rightarrow> KeyboardEvent option \<times> State" where
  "add_byte code state =
     (if code = 0xFA then (None, state)
      else case state of
        Start \<Rightarrow>
          if code = RELEASE_CODE then (None, Release)
          else if code = EXTENDED_CODE then (None, Extended)
          else (map_option Down (map_scancode code), Start)
      | Release \<Rightarrow> (map_option Up (map_scancode code), Start)
      | Extended \<Rightarrow>
          if code = RELEASE_CODE then (None, ExtendedRelease)
          else (map_option Down (map_extened_scancode code), Start)
      | ExtendedRelease \<Rightarrow> (map_option Up (map_extened_scancode code), Start))"

text \<open>The events that a sequence of bytes from the keyboard gives.\<close>

fun decode :: "State \<Rightarrow> u8 list \<Rightarrow> KeyboardEvent list \<times> State" where
  "decode s [] = ([], s)"
| "decode s (b # bs) =
     (case add_byte b s of (r, s') \<Rightarrow>
        case decode s' bs of (evs, s'') \<Rightarrow>
          ((case r of Some e \<Rightarrow> e # evs | None \<Rightarrow> evs), s''))"

subsection \<open>The bytes of an event\<close>

definition swap_table :: "(u8 \<times> VirtualKeyCode) list \<Rightarrow> (VirtualKeyCode \<times> u8) list" where
  "swap_table t = map (\<lambda>(c, k). (k, c)) t"

text \<open>The make code of a key with its prefix, and the bytes a keyboard sends for an event.\<close>

definition key_code :: "VirtualKeyCode \<Rightarrow> (u8 list \<times> u8) option" where
  "key_code k =
     (case map_of (swap_table scancode_table) k of
        Some c \<Rightarrow> Some ([], c)
      | None \<Rightarrow> map_option (Pair [EXTENDED_CODE]) (map_of (swap_table extended_table) k))"

primrec event_bytes :: "KeyboardEvent \<Rightarrow> u8 list option" where
  "event_bytes (Down k) = map_option (\<lambda>(p, c). p @ [c]) (key_code k)"
| "event_bytes (Up k) = map_option (\<lambda>(p, c). p @ [RELEASE_CODE, c]) (key_code k)"

lemma scancode_table_codes:
  "list_all (\<lambda>(c, k). c \<noteq> 0xFA \<and> c \<noteq> RELEASE_CODE \<and> c \<noteq> EXTENDED_CODE) scancode_table"
  "list_all (\<lambda>(c, k). c \<noteq> 0xFA \<and> c \<noteq> RELEASE_CODE \<and> c \<noteq> EXTENDED_CODE) extended_table"
  "distinct (map fst scancode_table)" "distinct (map fst extended_table)"
  by (simp_all add: scancode_table_def extended_table_def RELEASE_CODE_def EXTENDED_CODE_def)

lemma swap_table_code:
  assumes "map_of (swap_table t) k = Some c" "distinct (map fst t)"
    "list_all (\<lambda>(c, k). c \<noteq> 0xFA \<and> c \<noteq> RELEASE_CODE \<and> c \<noteq> EXTENDED_CODE) t"
  shows "map_of t c = Some k \<and> c \<noteq> 0xFA \<and> c \<noteq> RELEASE_CODE \<and> c \<noteq> EXTENDED_CODE"
proof -
  have "(c, k) \<in> set t" using map_of_SomeD [OF assms(1)] by (auto simp: swap_table_def)
  then show ?thesis using assms(2,3) by (auto simp: list_all_iff)
qed

lemma decode_event:
  assumes "event_bytes e = Some bs"
  shows "decode Start (bs @ rest) = (e # fst (decode Start rest), snd (decode Start rest))"
proof -
  have plain: "map_scancode c = Some k \<and> c \<noteq> 0xFA \<and> c \<noteq> RELEASE_CODE \<and> c \<noteq> EXTENDED_CODE"
    if "map_of (swap_table scancode_table) k = Some c" for k c
    unfolding map_scancode_def by (rule swap_table_code [OF that scancode_table_codes(3,1)])
  have ext: "map_extened_scancode c = Some k \<and> c \<noteq> 0xFA \<and> c \<noteq> RELEASE_CODE \<and> c \<noteq> EXTENDED_CODE"
    if "map_of (swap_table extended_table) k = Some c" for k c
    unfolding map_extened_scancode_def by (rule swap_table_code [OF that scancode_table_codes(4,2)])
  have codes: "RELEASE_CODE \<noteq> 0xFA" "EXTENDED_CODE \<noteq> 0xFA" "EXTENDED_CODE \<noteq> RELEASE_CODE"
    by (simp_all add: RELEASE_CODE_def EXTENDED_CODE_def)
  show ?thesis
    using assms codes
    by (cases e) (auto simp: key_code_def add_byte_def split: option.splits prod.splits dest!: plain ext)
qed

lemma decode_ack: "decode s (filter (\<lambda>b. b \<noteq> 0xFA) bs) = decode s bs"
proof (induction bs arbitrary: s)
  case (Cons b bs)
  then show ?case by (cases "b = 0xFA") (simp_all add: add_byte_def)
qed simp



subsection \<open>The characters that can be typed\<close>

text \<open>A key and a shift state for every character from space to tilde.\<close>

definition typed_by :: "(VirtualKeyCode \<times> bool) list" where
  "typed_by = [
     (VirtualKeyCode_Control Control_Space, False), (VirtualKeyCode_Number Number_N1, True),
     (VirtualKeyCode_Misc Misc_Quote, True), (VirtualKeyCode_Number Number_N3, True),
     (VirtualKeyCode_Number Number_N4, True), (VirtualKeyCode_Number Number_N5, True),
     (VirtualKeyCode_Number Number_N7, True), (VirtualKeyCode_Misc Misc_Quote, False),
     (VirtualKeyCode_Number Number_N9, True), (VirtualKeyCode_Number Number_N0, True),
     (VirtualKeyCode_Number Number_N8, True), (VirtualKeyCode_Misc Misc_Equals, True),
     (VirtualKeyCode_Misc Misc_Comma, False), (VirtualKeyCode_Misc Misc_Hyphen, False),
     (VirtualKeyCode_Misc Misc_Period, False), (VirtualKeyCode_Misc Misc_ForwardSlash, False),
     (VirtualKeyCode_Number Number_N0, False), (VirtualKeyCode_Number Number_N1, False),
     (VirtualKeyCode_Number Number_N2, False), (VirtualKeyCode_Number Number_N3, False),
     (VirtualKeyCode_Number Number_N4, False), (VirtualKeyCode_Number Number_N5, False),
     (VirtualKeyCode_Number Number_N6, False), (VirtualKeyCode_Number Number_N7, False),
     (VirtualKeyCode_Number Number_N8, False), (VirtualKeyCode_Number Number_N9, False),
     (VirtualKeyCode_Misc Misc_SemiColon, True), (VirtualKeyCode_Misc Misc_SemiColon, False),
     (VirtualKeyCode_Misc Misc_Comma, True), (VirtualKeyCode_Misc Misc_Equals, False),
     (VirtualKeyCode_Misc Misc_Period, True), (VirtualKeyCode_Misc Misc_ForwardSlash, True),
     (VirtualKeyCode_Number Number_N2, True), (VirtualKeyCode_Letter Letter_A, True),
     (VirtualKeyCode_Letter Letter_B, True), (VirtualKeyCode_Letter Letter_C, True),
     (VirtualKeyCode_Letter Letter_D, True), (VirtualKeyCode_Letter Letter_E, True),
     (VirtualKeyCode_Letter Letter_F, True), (VirtualKeyCode_Letter Letter_G, True),
     (VirtualKeyCode_Letter Letter_H, True), (VirtualKeyCode_Letter Letter_I, True),
     (VirtualKeyCode_Letter Letter_J, True), (VirtualKeyCode_Letter Letter_K, True),
     (VirtualKeyCode_Letter Letter_L, True), (VirtualKeyCode_Letter Letter_M, True),
     (VirtualKeyCode_Letter Letter_N, True), (VirtualKeyCode_Letter Letter_O, True),
     (VirtualKeyCode_Letter Letter_P, True), (VirtualKeyCode_Letter Letter_Q, True),
     (VirtualKeyCode_Letter Letter_R, True), (VirtualKeyCode_Letter Letter_S, True),
     (VirtualKeyCode_Letter Letter_T, True), (VirtualKeyCode_Letter Letter_U, True),
     (VirtualKeyCode_Letter Letter_V, True), (VirtualKeyCode_Letter Letter_W, True),
     (VirtualKeyCode_Letter Letter_X, True), (VirtualKeyCode_Letter Letter_Y, True),
     (VirtualKeyCode_Letter Letter_Z, True), (VirtualKeyCode_Misc Misc_LeftBracket, False),
     (VirtualKeyCode_Misc Misc_BackSlash, False), (VirtualKeyCode_Misc Misc_RightBracket, False),
     (VirtualKeyCode_Number Number_N6, True), (VirtualKeyCode_Misc Misc_Hyphen, True),
     (VirtualKeyCode_Misc Misc_BackTick, False), (VirtualKeyCode_Letter Letter_A, False),
     (VirtualKeyCode_Letter Letter_B, False), (VirtualKeyCode_Letter Letter_C, False),
     (VirtualKeyCode_Letter Letter_D, False), (VirtualKeyCode_Letter Letter_E, False),
     (VirtualKeyCode_Letter Letter_F, False), (VirtualKeyCode_Letter Letter_G, False),
     (VirtualKeyCode_Letter Letter_H, False), (VirtualKeyCode_Letter Letter_I, False),
     (VirtualKeyCode_Letter Letter_J, False), (VirtualKeyCode_Letter Letter_K, False),
     (VirtualKeyCode_Letter Letter_L, False), (VirtualKeyCode_Letter Letter_M, False),
     (VirtualKeyCode_Letter Letter_N, False), (VirtualKeyCode_Letter Letter_O, False),
     (VirtualKeyCode_Letter Letter_P, False), (VirtualKeyCode_Letter Letter_Q, False),
     (VirtualKeyCode_Letter Letter_R, False), (VirtualKeyCode_Letter Letter_S, False),
     (VirtualKeyCode_Letter Letter_T, False), (VirtualKeyCode_Letter Letter_U, False),
     (VirtualKeyCode_Letter Letter_V, False), (VirtualKeyCode_Letter Letter_W, False),
     (VirtualKeyCode_Letter Letter_X, False), (VirtualKeyCode_Letter Letter_Y, False),
     (VirtualKeyCode_Letter Letter_Z, False), (VirtualKeyCode_Misc Misc_LeftBracket, True),
     (VirtualKeyCode_Misc Misc_BackSlash, True), (VirtualKeyCode_Misc Misc_RightBracket, True),
     (VirtualKeyCode_Misc Misc_BackTick, True)]"

lemma letter_code: "letter_upper l + 0x20 = letter_lower l \<and> letter_upper l \<in> {0x41 .. 0x5A}"
  by (cases l) (simp_all add: ascii_def)

lemma typed_by_chars:
  "map (\<lambda>(k, shift). get_unicode k shift False False False) typed_by = [0x20 ..< 0x7F]"
  by (simp add: typed_by_def get_unicode_def ascii_def upt_conv_Cons)

lemma on_board:
  assumes "k \<in> set (map snd scancode_table)"
  shows "event_bytes (Down k) \<noteq> None"
proof -
  have "k \<in> fst ` set (swap_table scancode_table)" using assms by (force simp: swap_table_def)
  then show ?thesis by (auto simp: key_code_def split: option.splits dest: iffD1 [OF map_of_eq_None_iff])
qed

lemma letters_on_board: "VirtualKeyCode_Letter l \<in> set (map snd scancode_table)"
  by (cases l) (simp_all add: scancode_table_def)

lemma numbers_on_board: "VirtualKeyCode_Number n \<in> set (map snd scancode_table)"
  by (cases n) (simp_all add: scancode_table_def)

lemma misc_on_board: "k \<noteq> Misc_MenuKey \<Longrightarrow> VirtualKeyCode_Misc k \<in> set (map snd scancode_table)"
  by (cases k) (simp_all add: scancode_table_def)

lemma space_on_board: "VirtualKeyCode_Control Control_Space \<in> set (map snd scancode_table)"
  by (simp add: scancode_table_def)

lemma typed_by_keys: "list_all (\<lambda>(k, shift). event_bytes (Down k) \<noteq> None) typed_by"
  by (simp add: typed_by_def on_board letters_on_board numbers_on_board misc_on_board space_on_board
    del: event_bytes.simps set_map list.set_map not_None_eq)

text \<open>
  The key map is complete and caps lock affects letters only.  Every printable ASCII character
  is the character of a key that the scancode tables report, with or without shift; a letter key
  gives the upper-case letter exactly when shift and caps lock differ; for every other key caps
  lock changes nothing.
\<close>

lemma keymap_complete:
  "{0x20 ..< 0x7F} \<subseteq>
      (\<lambda>(k, shift). get_unicode k shift False False False) ` {(k, shift). event_bytes (Down k) \<noteq> None} \<and>
   get_unicode (VirtualKeyCode_Letter l) ls rs caps nl =
     (if (ls \<or> rs) = caps then letter_lower l else letter_lower l - 0x20) \<and>
   (case k of
      VirtualKeyCode_Letter _ \<Rightarrow> True
    | _ \<Rightarrow> get_unicode k ls rs caps nl = get_unicode k ls rs False nl)"
proof -
  have "c \<in> (\<lambda>(k, shift). get_unicode k shift False False False) ` {(k, shift). event_bytes (Down k) \<noteq> None}"
    if "c \<in> {0x20 ..< 0x7F}" for c
  proof -
    have "c \<in> set (map (\<lambda>(k, shift). get_unicode k shift False False False) typed_by)"
      unfolding typed_by_chars using that by (simp only: set_upt)
    then show ?thesis using typed_by_keys by (auto simp: list_all_iff simp del: event_bytes.simps)
  qed
  moreover have "get_unicode (VirtualKeyCode_Letter l) ls rs caps nl =
     (if (ls \<or> rs) = caps then letter_lower l else letter_lower l - 0x20)"
    using letter_code [of l] by (auto simp: get_unicode_def Let_def)
  moreover have "case k of
      VirtualKeyCode_Letter _ \<Rightarrow> True
    | _ \<Rightarrow> get_unicode k ls rs caps nl = get_unicode k ls rs False nl"
    by (simp add: get_unicode_def Let_def split: VirtualKeyCode.split)
  ultimately show ?thesis by blast
qed

end
