(* ===== verification/Ps2.thy ===== *)
theory Ps2
  imports Keyboard
begin

text \<open>
  The PS/2 server (\<open>ps2/src/main.rs\<close>, \<open>keyboard.rs\<close>, \<open>mouse.rs\<close>): commands to the controller and
  its two devices with their timeouts and resends, initialisation, the mouse packet decoder and the
  event loop.  The I/O ports are the parameter \<open>io\<close>: what a read returns and how reads and writes
  change the device.
\<close>

subsection \<open>The controller\<close>

record 'd port_io =
  read_port :: "u16 \<Rightarrow> 'd \<Rightarrow> u8 \<times> 'd"
  write_port :: "u16 \<Rightarrow> u8 \<Rightarrow> 'd \<Rightarrow> 'd"

text \<open>A fallible action on the device, and the \<open>?\<close> operator.\<close>

type_synonym ('d, 'a) action = "'d \<Rightarrow> (string + 'a) \<times> 'd"

definition and_then :: "('d, 'a) action \<Rightarrow> ('a \<Rightarrow> ('d, 'b) action) \<Rightarrow> ('d, 'b) action" where
  "and_then m f d = (case m d of (Inl e, d') \<Rightarrow> (Inl e, d') | (Inr a, d') \<Rightarrow> f a d')"

definition ok :: "'a \<Rightarrow> ('d, 'a) action" where
  "ok a d = (Inr a, d)"

definition err :: "string \<Rightarrow> ('d, 'a) action" where
  "err e d = (Inl e, d)"

definition TIMEOUT :: nat where "TIMEOUT = 100000"

primrec read_loop :: "nat \<Rightarrow> 'd port_io \<Rightarrow> ('d, u8) action" where
  "read_loop 0 io d = (Inl ''PS2 read timeout'', d)"
| "read_loop (Suc n) io d =
     (case read_port io 0x64 d of (test, d1) \<Rightarrow>
        if test AND 1 = 1 then (case read_port io 0x60 d1 of (v, d2) \<Rightarrow> (Inr v, d2))
        else read_loop n io d1)"

definition ps2_read :: "'d port_io \<Rightarrow> ('d, u8) action" where
  "ps2_read io = read_loop TIMEOUT io"

primrec wait_loop :: "nat \<Rightarrow> 'd port_io \<Rightarrow> ('d, unit) action" where
  "wait_loop 0 io d = (Inl ''PS2 write timeout'', d)"
| "wait_loop (Suc n) io d =
     (case read_port io 0x64 d of (test, d1) \<Rightarrow>
        if test AND 2 = 0 then (Inr (), d1) else wait_loop n io d1)"

definition wait_write :: "'d port_io \<Rightarrow> ('d, unit) action" where
  "wait_write io = wait_loop TIMEOUT io"

definition write_command :: "'d port_io \<Rightarrow> u8 \<Rightarrow> ('d, unit) action" where
  "write_command io command = and_then (wait_write io) (\<lambda>_ d. (Inr (), write_port io 0x64 command d))"

definition write_data :: "'d port_io \<Rightarrow> u8 \<Rightarrow> ('d, unit) action" where
  "write_data io data = and_then (wait_write io) (\<lambda>_ d. (Inr (), write_port io 0x60 data d))"

primrec flush_loop :: "nat \<Rightarrow> 'd port_io \<Rightarrow> 'd \<Rightarrow> 'd" where
  "flush_loop 0 io d = d"
| "flush_loop (Suc n) io d =
     (case read_port io 0x64 d of (test, d1) \<Rightarrow>
        flush_loop n io (if test AND 1 = 1 then snd (read_port io 0x60 d1) else d1))"

definition ps2_flush :: "'d port_io \<Rightarrow> 'd \<Rightarrow> 'd" where
  "ps2_flush io = flush_loop TIMEOUT io"

subsection \<open>The keyboard\<close>

primrec keyboard_send_loop :: "nat \<Rightarrow> 'd port_io \<Rightarrow> u8 \<Rightarrow> ('d, unit) action" where
  "keyboard_send_loop 0 io command = err ''Keyboard required too many command resends''"
| "keyboard_send_loop (Suc n) io command =
     and_then (write_data io command) (\<lambda>_. and_then (ps2_read io) (\<lambda>response.
       if response = 0xFE then keyboard_send_loop n io command
       else if response \<noteq> 0xFA then err ''Keyboard didn't acknolodge command''
       else ok ()))"

definition keyboard_send_command :: "'d port_io \<Rightarrow> u8 \<Rightarrow> ('d, unit) action" where
  "keyboard_send_command io command = keyboard_send_loop 10 io command"

definition keyboard_initialize :: "'d port_io \<Rightarrow> ('d, unit) action" where
  "keyboard_initialize io =
     and_then (write_command io 0xAE) (\<lambda>_.
     and_then (keyboard_send_command io 0xFF) (\<lambda>_.
     and_then (ps2_read io) (\<lambda>r.
       if r \<noteq> 0xAA then err ''Keyboard failed self test''
       else
         and_then (write_command io 0x20) (\<lambda>_.
         and_then (ps2_read io) (\<lambda>configuration.
         and_then (write_command io 0x60) (\<lambda>_.
         and_then (write_data io (configuration OR 1)) (\<lambda>_.
         and_then (keyboard_send_command io 0xF0) (\<lambda>_.
           keyboard_send_command io 2))))))))"

definition keyboard_check_interrupts :: "'d port_io \<Rightarrow> State \<Rightarrow> 'd \<Rightarrow> KeyboardEvent option \<times> State \<times> 'd" where
  "keyboard_check_interrupts io decoder d =
     (case read_port io 0x60 d of (scancode, d1) \<Rightarrow>
        case add_byte scancode decoder of (ev, decoder') \<Rightarrow> (ev, decoder', d1))"

subsection \<open>The mouse\<close>

datatype MouseTypeId = Standard | WithScrollWheel | WithExtraButtons

datatype PS2MousePackets = NoPacket | One u8 | Two u8 u8 | Three u8 u8 u8

record MousePacket =
  left :: bool
  right :: bool
  middle :: bool
  x_mov :: int
  y_mov :: int

datatype InputServiceMessage = KeyboardMessage KeyboardEvent | MouseEvent MousePacket

primrec mouse_send_loop :: "nat \<Rightarrow> 'd port_io \<Rightarrow> u8 \<Rightarrow> ('d, unit) action" where
  "mouse_send_loop 0 io command = err ''Mouse required too many command resends''"
| "mouse_send_loop (Suc n) io command =
     and_then (write_command io 0xD4) (\<lambda>_. and_then (write_data io command) (\<lambda>_.
     and_then (ps2_read io) (\<lambda>response.
       if response = 0xFE then mouse_send_loop n io command
       else if response = 0xFA then ok ()
       else err ''Mouse didn't acknolodge command'')))"

definition mouse_send_command :: "'d port_io \<Rightarrow> u8 \<Rightarrow> ('d, unit) action" where
  "mouse_send_command io command = mouse_send_loop 10 io command"

text \<open>The sequence of sample rates that upgrades the mouse, and the identifier it then reports.\<close>

primrec mouse_send_all :: "'d port_io \<Rightarrow> u8 list \<Rightarrow> ('d, unit) action" where
  "mouse_send_all io [] = ok ()"
| "mouse_send_all io (c # cs) = and_then (mouse_send_command io c) (\<lambda>_. mouse_send_all io cs)"

definition mouse_upgrade :: "'d port_io \<Rightarrow> ('d, u8) action" where
  "mouse_upgrade io =
     and_then (mouse_send_all io [0xF3, 200, 0xF3, 100, 0xF3, 80, 0xF2]) (\<lambda>_. ps2_read io)"

definition mouse_type_of :: "u8 \<Rightarrow> MouseTypeId" where
  "mouse_type_of mode =
     (if mode = 0 then Standard else if mode = 3 then WithScrollWheel
      else if mode = 4 then WithExtraButtons else Standard)"

text \<open>
  The second upgrade binds the new identifier to a name of its own (\<open>let mode\<close>), so the type is
  taken from the identifier before it.
\<close>

definition mouse_initialize :: "'d port_io \<Rightarrow> ('d, MouseTypeId) action" where
  "mouse_initialize io =
     and_then (write_command io 0xA8) (\<lambda>_.
     and_then (mouse_send_command io 0xFF) (\<lambda>_.
     and_then (ps2_read io) (\<lambda>r1. if r1 \<noteq> 0xAA then err ''Mouse failed self test'' else
     and_then (ps2_read io) (\<lambda>r2. if r2 \<noteq> 0 then err ''Mouse failed self test'' else
     and_then (write_command io 0x20) (\<lambda>_.
     and_then (ps2_read io) (\<lambda>configuration.
     and_then (write_command io 0x60) (\<lambda>_.
     and_then (write_data io (configuration OR 2)) (\<lambda>_.
     and_then (mouse_send_command io 0xF6) (\<lambda>_.
     and_then (mouse_send_command io 0xF2) (\<lambda>_.
     and_then (ps2_read io) (\<lambda>mode0.
     and_then (if mode0 = 0 then mouse_upgrade io else ok mode0) (\<lambda>mode.
     and_then (if mode = 3 then mouse_upgrade io else ok mode) (\<lambda>_.
     and_then (mouse_send_command io 0xF4) (\<lambda>_.
       ok (mouse_type_of mode)))))))))))))))"

text \<open>\<open>x as i8\<close>\<close>

definition as_i8 :: "int \<Rightarrow> int" where
  "as_i8 x = (x + 128) mod 256 - 128"

definition send_packet :: "u8 \<Rightarrow> u8 \<Rightarrow> u8 \<Rightarrow> InputServiceMessage" where
  "send_packet p1 p2 p3 =
     (let x = uint p2; y = uint p3;
          x' = (if p1 AND 0x10 > 0 then - (256 - x) else x);
          y' = (if p1 AND 0x20 > 0 then 256 - y else - y) in
      MouseEvent \<lparr>left = p1 AND 1 > 0, right = p1 AND 2 > 0, middle = p1 AND 4 > 0,
        x_mov = as_i8 x', y_mov = as_i8 y'\<rparr>)"

text \<open>The state after a byte, \<^term>\<open>None\<close> the \<open>unreachable!\<close> of the match.\<close>

definition mouse_byte ::
  "MouseTypeId \<Rightarrow> u8 \<Rightarrow> PS2MousePackets \<Rightarrow> (InputServiceMessage option \<times> PS2MousePackets) option" where
  "mouse_byte ty data st =
     (case st of
        NoPacket \<Rightarrow> Some (None, One data)
      | One a \<Rightarrow> Some (None, Two a data)
      | Two a b \<Rightarrow>
          if ty = Standard then Some (Some (send_packet a b data), NoPacket)
          else Some (None, Three a b data)
      | Three a b c \<Rightarrow>
          if ty = Standard then None else Some (Some (send_packet a b c), NoPacket))"

definition mouse_check_interrupts ::
  "'d port_io \<Rightarrow> MouseTypeId \<Rightarrow> PS2MousePackets \<Rightarrow> 'd \<Rightarrow> (InputServiceMessage option \<times> PS2MousePackets \<times> 'd) option" where
  "mouse_check_interrupts io ty st d =
     (case read_port io 0x60 d of (data, d1) \<Rightarrow>
        map_option (\<lambda>(msg, st'). (msg, st', d1)) (mouse_byte ty data st))"

subsection \<open>Initialisation of the controller\<close>

text \<open>The results of the keyboard and the mouse are only printed.\<close>

definition port_test :: "'d port_io \<Rightarrow> u8 \<Rightarrow> string \<Rightarrow> ('d, unit) action" where
  "port_test io command message =
     and_then (write_command io command) (\<lambda>_. and_then (ps2_read io) (\<lambda>r. if r \<noteq> 0 then err message else ok ()))"

definition controller_initialize ::
  "'d port_io \<Rightarrow> ('d, (string + unit) \<times> (string + MouseTypeId)) action" where
  "controller_initialize io =
     and_then (write_command io 0xAD) (\<lambda>_.
     and_then (write_command io 0xA7) (\<lambda>_.
     and_then (\<lambda>d. (Inr (), ps2_flush io d)) (\<lambda>_.
     and_then (write_command io 0x20) (\<lambda>_.
     and_then (ps2_read io) (\<lambda>configuration.
     and_then (write_command io 0x60) (\<lambda>_.
     and_then (write_data io (configuration AND NOT (1 OR 2 OR push_bit 6 1))) (\<lambda>_.
     and_then (write_command io 0xAA) (\<lambda>_.
     and_then (ps2_read io) (\<lambda>result.
       if result \<noteq> 0x55 then err ''PS2 Controller failed self test''
       else (\<lambda>d.
         case port_test io 0xAB ''Keyboard port failed test'' d of (kt, d1) \<Rightarrow>
         case port_test io 0xA9 ''Mouse port failed test'' d1 of (mt, d2) \<Rightarrow>
         case (case kt of Inl e \<Rightarrow> (Inl e, d2) | Inr _ \<Rightarrow> keyboard_initialize io d2) of (kr, d3) \<Rightarrow>
         case (case mt of Inl e \<Rightarrow> (Inl e, d3) | Inr _ \<Rightarrow> mouse_initialize io d3) of (mr, d4) \<Rightarrow>
           (Inr (kr, mr), d4)))))))))))"

subsection \<open>The event loop\<close>

text \<open>
  The server's state between two events.  \<open>accepts l\<close> is the result of writing to listener \<open>l\<close>: a
  listener whose channel refuses a message is dropped.
\<close>

record ps2_server =
  decoder :: State
  mouse_type :: MouseTypeId
  packet_state :: PS2MousePackets
  kb_listeners :: "nat list"
  ms_listeners :: "nat list"

definition kb_cbk :: nat where "kb_cbk = 1"
definition ms_cbk :: nat where "ms_cbk = 2"
definition kb_srv_cbk :: nat where "kb_srv_cbk = 3"
definition ms_srv_cbk :: nat where "ms_srv_cbk = 4"

text \<open>
  One iteration: the key of the notification, the byte a device interrupt reads and the handle a
  registration receives.  The result is the messages sent, each with its listener, and the state.
\<close>

definition ps2_event ::
  "(nat \<Rightarrow> bool) \<Rightarrow> nat \<Rightarrow> u8 \<Rightarrow> nat \<Rightarrow> ps2_server \<Rightarrow> ((nat \<times> InputServiceMessage) list \<times> ps2_server) option" where
  "ps2_event accepts key byte handle s =
     (if key = kb_cbk then
        (case add_byte byte (decoder s) of (r, st) \<Rightarrow>
           case r of
             None \<Rightarrow> Some ([], s\<lparr>decoder := st\<rparr>)
           | Some ev \<Rightarrow> Some (map (\<lambda>l. (l, KeyboardMessage ev)) (kb_listeners s),
               s\<lparr>decoder := st, kb_listeners := filter accepts (kb_listeners s)\<rparr>))
      else if key = ms_cbk then
        (case mouse_byte (mouse_type s) byte (packet_state s) of
           None \<Rightarrow> None
         | Some (None, st) \<Rightarrow> Some ([], s\<lparr>packet_state := st\<rparr>)
         | Some (Some msg, st) \<Rightarrow> Some (map (\<lambda>l. (l, msg)) (ms_listeners s),
               s\<lparr>packet_state := st, ms_listeners := filter accepts (ms_listeners s)\<rparr>))
      else if key = kb_srv_cbk then Some ([], s\<lparr>kb_listeners := kb_listeners s @ [handle]\<rparr>)
      else if key = ms_srv_cbk then Some ([], s\<lparr>ms_listeners := ms_listeners s @ [handle]\<rparr>)
      else Some ([], s))"

subsection \<open>Mouse packets\<close>

text \<open>A movement as a mouse sends it: nine-bit two's complement deltas, their signs in the first byte.\<close>

record movement =
  buttons :: "bool \<times> bool \<times> bool"
  dx :: int
  dy :: int
  wheel :: u8

definition flag :: "bool \<Rightarrow> u8 \<Rightarrow> u8" where
  "flag b w = (if b then w else 0)"

definition frame :: "MouseTypeId \<Rightarrow> movement \<Rightarrow> u8 list" where
  "frame ty mv = (case buttons mv of (l, r, m) \<Rightarrow>
     [8 OR flag l 1 OR flag r 2 OR flag m 4 OR flag (dx mv < 0) 0x10 OR flag (dy mv < 0) 0x20,
      word_of_int (dx mv), word_of_int (dy mv)] @ (if ty = Standard then [] else [wheel mv]))"

definition reported :: "movement \<Rightarrow> InputServiceMessage" where
  "reported mv = (case buttons mv of (l, r, m) \<Rightarrow>
     MouseEvent \<lparr>left = l, right = r, middle = m, x_mov = dx mv, y_mov = - dy mv\<rparr>)"

definition small :: "movement \<Rightarrow> bool" where
  "small mv \<longleftrightarrow> - 128 \<le> dx mv \<and> dx mv < 128 \<and> - 128 < dy mv \<and> dy mv \<le> 128"

primrec mouse_decode ::
  "MouseTypeId \<Rightarrow> PS2MousePackets \<Rightarrow> u8 list \<Rightarrow> (InputServiceMessage list \<times> PS2MousePackets) option" where
  "mouse_decode ty st [] = Some ([], st)"
| "mouse_decode ty st (b # bs) = do {
     (r, st1) \<leftarrow> mouse_byte ty b st;
     (msgs, st2) \<leftarrow> mouse_decode ty st1 bs;
     Some ((case r of None \<Rightarrow> msgs | Some msg \<Rightarrow> msg # msgs), st2)
   }"

lemma flag_bits:
  fixes l r m x y :: bool
  defines "p \<equiv> 8 OR flag l 1 OR flag r 2 OR flag m 4 OR flag x 0x10 OR flag y 0x20"
  shows "(p AND 1 > 0) = l" "(p AND 2 > 0) = r" "(p AND 4 > 0) = m" "(p AND 0x10 > 0) = x" "(p AND 0x20 > 0) = y"
  unfolding p_def by (cases l; cases r; cases m; cases x; cases y; simp add: flag_def)+

lemma uint_of_delta: "- 256 \<le> z \<Longrightarrow> z < 256 \<Longrightarrow> uint (word_of_int z :: u8) = (if z < 0 then z + 256 else z)"
proof (cases "z < 0")
  case True
  assume "- 256 \<le> z"
  then have "(z + 256) mod 256 = z + 256" using True by (intro mod_pos_pos_trivial) auto
  then show ?thesis using True by (simp add: uint_word_of_int)
qed (simp add: uint_word_of_int)

lemma send_packet_frame:
  assumes "small mv" "frame Standard mv = [a, b, c]"
  shows "send_packet a b c = reported mv"
proof -
  obtain l r m where bt: "buttons mv = (l, r, m)" by (cases "buttons mv") auto
  have abc: "a = 8 OR flag l 1 OR flag r 2 OR flag m 4 OR flag (dx mv < 0) 0x10 OR flag (dy mv < 0) 0x20"
    "b = word_of_int (dx mv)" "c = word_of_int (dy mv)"
    using assms(2) by (simp_all only: frame_def bt prod.case if_True append_Nil2 list.inject simp_thms)
  have ub: "uint b = (if dx mv < 0 then dx mv + 256 else dx mv)"
    unfolding abc by (rule uint_of_delta) (use assms(1) in \<open>simp_all add: small_def\<close>)
  have uc: "uint c = (if dy mv < 0 then dy mv + 256 else dy mv)"
    unfolding abc by (rule uint_of_delta) (use assms(1) in \<open>simp_all add: small_def\<close>)
  have "as_i8 (dx mv) = dx mv" "as_i8 (- dy mv) = - dy mv"
    using assms(1) by (simp_all add: as_i8_def small_def mod_pos_pos_trivial)
  then show ?thesis
    unfolding send_packet_def Let_def ub uc unfolding abc(1) flag_bits reported_def bt
    by (cases "dx mv < 0"; cases "dy mv < 0") simp_all
qed

lemma mouse_decode_frame:
  assumes "small mv"
  shows "mouse_decode ty NoPacket (frame ty mv @ rest) =
    map_option (\<lambda>(msgs, st). (reported mv # msgs, st)) (mouse_decode ty NoPacket rest)"
proof -
  obtain a b c where fr: "frame Standard mv = [a, b, c]" by (cases "buttons mv") (auto simp: frame_def)
  then have "frame ty mv = [a, b, c] @ (if ty = Standard then [] else [wheel mv])"
    by (auto simp: frame_def split: prod.splits)
  then show ?thesis
    using send_packet_frame [OF assms fr] by (auto simp: mouse_byte_def split: bind_splits)
qed



subsection \<open>Commands to a device that answers\<close>

text \<open>A device that is always ready and answers from a list.\<close>

record script =
  responses :: "u8 list"
  sent :: "(u16 \<times> u8) list"

definition script_io :: "script port_io" where
  "script_io = \<lparr>
     read_port = (\<lambda>p d. if p = 0x64 then (1, d) else
       (case responses d of [] \<Rightarrow> (0, d) | r # rs \<Rightarrow> (r, d\<lparr>responses := rs\<rparr>))),
     write_port = (\<lambda>p v d. d\<lparr>sent := sent d @ [(p, v)]\<rparr>)\<rparr>"

lemma TIMEOUT_Suc: "TIMEOUT = Suc 99999"
  by (simp add: TIMEOUT_def)

lemma script_read: "ps2_read script_io d =
    (case responses d of [] \<Rightarrow> (Inr 0, d) | r # rs \<Rightarrow> (Inr r, d\<lparr>responses := rs\<rparr>))"
  unfolding ps2_read_def TIMEOUT_Suc read_loop.simps by (simp add: script_io_def split: list.split)

lemma script_write:
  "write_command script_io c d = (Inr (), d\<lparr>sent := sent d @ [(0x64, c)]\<rparr>)"
  "write_data script_io c d = (Inr (), d\<lparr>sent := sent d @ [(0x60, c)]\<rparr>)"
  unfolding write_command_def write_data_def wait_write_def TIMEOUT_Suc and_then_def wait_loop.simps
  by (simp_all add: script_io_def)

lemma keyboard_send_loop_script:
  "responses d = replicate k 0xFE @ r # rest \<Longrightarrow> r \<noteq> 0xFE \<Longrightarrow>
   keyboard_send_loop n script_io c d =
     (if n \<le> k then (Inl ''Keyboard required too many command resends'',
        d\<lparr>responses := replicate (k - n) 0xFE @ r # rest, sent := sent d @ replicate n (0x60, c)\<rparr>)
      else (if r = 0xFA then Inr () else Inl ''Keyboard didn't acknolodge command'',
        d\<lparr>responses := rest, sent := sent d @ replicate (Suc k) (0x60, c)\<rparr>))"
proof (induction n arbitrary: k d)
  case 0
  then show ?case by (cases d) (simp add: err_def)
next
  case (Suc n)
  show ?case
  proof (cases k)
    case 0
    then show ?thesis
      using Suc.prems by (simp add: and_then_def script_write script_read ok_def err_def)
  next
    case (Suc k')
    define d' where "d' = d\<lparr>sent := sent d @ [(0x60, c)], responses := replicate k' 0xFE @ r # rest\<rparr>"
    have "keyboard_send_loop (Suc n) script_io c d = keyboard_send_loop n script_io c d'"
      using Suc.prems Suc by (simp add: and_then_def script_write script_read d'_def)
    also have "\<dots> = (if n \<le> k' then (Inl ''Keyboard required too many command resends'',
        d'\<lparr>responses := replicate (k' - n) 0xFE @ r # rest, sent := sent d' @ replicate n (0x60, c)\<rparr>)
      else (if r = 0xFA then Inr () else Inl ''Keyboard didn't acknolodge command'',
        d'\<lparr>responses := rest, sent := sent d' @ replicate (Suc k') (0x60, c)\<rparr>))"
      by (rule Suc.IH) (simp_all add: d'_def Suc.prems)
    finally show ?thesis unfolding Suc d'_def by simp
  qed
qed

text \<open>
  A command to the keyboard is sent at most ten times.  A device that asks for \<open>k\<close> resends and
  then answers \<open>r\<close> gets the command \<open>k + 1\<close> times and the command succeeds exactly when \<open>r\<close> is the
  acknowledge byte; with ten or more resends the command fails after ten copies.
\<close>

lemma keyboard_command_resends:
  assumes "responses d = replicate k 0xFE @ r # rest" and "r \<noteq> 0xFE"
  shows "case keyboard_send_command script_io c d of (res, d') \<Rightarrow>
     sent d' = sent d @ replicate (min (k + 1) 10) (0x60, c) \<and>
     (res = Inr ()) = (k < 10 \<and> r = 0xFA) \<and>
     (res = Inl ''Keyboard required too many command resends'') = (10 \<le> k)"
  unfolding keyboard_send_command_def keyboard_send_loop_script [OF assms]
  by (simp add: min_def del: replicate.simps)

lemma mouse_ack:
  assumes "responses d = 0xFA # rs"
  shows "mouse_send_command script_io c d =
    (Inr (), d\<lparr>responses := rs, sent := sent d @ [(0x64, 0xD4), (0x60, c)]\<rparr>)"
proof -
  have ten: "10 = Suc 9" by simp
  show ?thesis
    unfolding mouse_send_command_def ten mouse_send_loop.simps
    using assms by (simp add: and_then_def script_write script_read ok_def)
qed

text \<open>
  The type of the mouse is that of the identifier before the second upgrade: a mouse that
  reports a wheel after the first sequence of sample rates and five buttons after the second is
  recorded as one with a wheel only.
\<close>

lemma mouse_second_upgrade_ignored:
  "fst (mouse_initialize script_io
     \<lparr>responses = [0xFA, 0xAA, 0, 0, 0xFA, 0xFA, 0,
        0xFA, 0xFA, 0xFA, 0xFA, 0xFA, 0xFA, 0xFA, 3,
        0xFA, 0xFA, 0xFA, 0xFA, 0xFA, 0xFA, 0xFA, 4, 0xFA], sent = []\<rparr>) = Inr WithScrollWheel"
  by (simp add: mouse_initialize_def mouse_upgrade_def and_then_def script_write script_read mouse_ack
    ok_def mouse_type_of_def)

end
