(* ===== verification/Text_Screen.thy ===== *)
theory Text_Screen
  imports Ps2
begin

text \<open>
  The screen (\<open>kernel/src/terminal.rs\<close>, \<open>kernel/src/screen/\<close>): the text buffer with its dirty box,
  the painting of glyphs and of the mouse cursor into the frame buffer, the font file, and the task
  that moves the cursor.  The frame buffer is a function from the index of a pixel to its colour.
  Coordinates stay below the size of the screen, so their products are plain numbers.
\<close>

subsection \<open>The font\<close>

type_synonym codepoint = nat

record PSF1FontHeader =
  magic :: "u8 list"
  mode_512 :: u8
  charsize :: u8

record PSF1Font =
  psf1_header :: PSF1FontHeader
  glyph_buffer :: "u8 list"
  unicode_buffer :: "u8 list"

definition PSF1_MAGIC :: "u8 list" where
  "PSF1_MAGIC = [0x36, 0x04]"

definition PSF1_HEADER_SIZE :: nat where
  "PSF1_HEADER_SIZE = 4"

text \<open>A file shorter than its header is read past its end; the model takes that as a panic.\<close>

definition load_psf1_font :: "u8 list \<Rightarrow> (u8 list + PSF1Font) option" where
  "load_psf1_font file = do {
     rassert (PSF1_HEADER_SIZE \<le> length file);
     let header = \<lparr>magic = take 2 file, mode_512 = file ! 2, charsize = file ! 3\<rparr>;
     if magic header \<noteq> PSF1_MAGIC then Some (Inl (magic header))
     else do {
       let size1 = unat (charsize header) * 256;
       let glyph_buffer_size = (if mode_512 header = 1 then size1 * 2 else size1);
       rest \<leftarrow> sub_usize (length file) PSF1_HEADER_SIZE;
       _ \<leftarrow> sub_usize rest glyph_buffer_size;
       Some (Inr \<lparr>psf1_header = header, glyph_buffer = take glyph_buffer_size (drop PSF1_HEADER_SIZE file),
         unicode_buffer = drop (PSF1_HEADER_SIZE + glyph_buffer_size) file\<rparr>)
     }
   }"

text \<open>The table of \<open>Writer::new\<close>: pairs of bytes, where 0xFFFF ends the entries of a glyph.\<close>

fun read_unicode_table :: "u8 list \<Rightarrow> nat \<Rightarrow> (codepoint \<rightharpoonup> nat) \<Rightarrow> (codepoint \<rightharpoonup> nat) option" where
  "read_unicode_table [] index table = Some table"
| "read_unicode_table [b] index table = None"
| "read_unicode_table (lo # hi # rest) index table =
     (let unicode_byte = (ucast lo :: u16) OR push_bit 8 (ucast hi) in
      if unicode_byte = 0xFFFF then read_unicode_table rest (index + 1) table
      else do {
        rassert (unicode_byte < 0xD800 \<or> 0xDFFF < unicode_byte);
        read_unicode_table rest index (table(unat unicode_byte \<mapsto> index))
      })"

subsection \<open>The frame buffer\<close>

record Pos =
  px :: nat
  py :: nat

definition CHAR_HEIGHT :: nat where "CHAR_HEIGHT = 16"
definition CHAR_WIDTH :: nat where "CHAR_WIDTH = 8"

record GopInfo =
  horizonal :: nat
  vertical :: nat
  stride :: nat

record Cell =
  chr :: codepoint
  fg :: u32
  bg :: u32

record Screen =
  gop :: GopInfo
  font :: PSF1Font
  unicode_table :: "codepoint \<rightharpoonup> nat"
  pixels :: "nat \<Rightarrow> u32"

definition plot :: "nat \<Rightarrow> nat \<Rightarrow> u32 \<Rightarrow> Screen \<Rightarrow> Screen" where
  "plot x y colour s = s\<lparr>pixels := (pixels s)(x + y * stride (gop s) := colour)\<rparr>"

definition glyph_colour :: "u8 \<Rightarrow> nat \<Rightarrow> Cell \<Rightarrow> u32" where
  "glyph_colour glyph i cell = (if glyph AND drop_bit i 0x80 > 0 then fg cell else bg cell)"

definition paint_row :: "Cell \<Rightarrow> nat \<Rightarrow> nat \<Rightarrow> u8 \<Rightarrow> Screen \<Rightarrow> Screen" where
  "paint_row cell xoff y glyph s = fold (\<lambda>x. plot x y (glyph_colour glyph (x - xoff) cell)) [xoff ..< xoff + 8] s"

primrec paint_rows :: "Cell \<Rightarrow> nat \<Rightarrow> nat list \<Rightarrow> nat \<Rightarrow> Screen \<Rightarrow> Screen option" where
  "paint_rows cell xoff [] addr s = Some s"
| "paint_rows cell xoff (y # ys) addr s = do {
     rassert (addr < length (glyph_buffer (font s)));
     paint_rows cell xoff ys (addr + 1) (paint_row cell xoff y (glyph_buffer (font s) ! addr) s)
   }"

definition glyph_index :: "Screen \<Rightarrow> Cell \<Rightarrow> nat" where
  "glyph_index s cell = (case unicode_table s (chr cell) of Some i \<Rightarrow> i | None \<Rightarrow> 0)"

definition update_cell :: "Cell \<Rightarrow> nat \<Rightarrow> nat \<Rightarrow> Screen \<Rightarrow> Screen option" where
  "update_cell cell x y s =
     (let addr = glyph_index s cell * 16; xoff = x * CHAR_WIDTH; yoff = y * CHAR_HEIGHT in
      paint_rows cell xoff [yoff ..< yoff + 16] addr s)"

definition MOUSE_POINTER :: "u16 list" where
  "MOUSE_POINTER = [0b1111111111000000, 0b1111111110000000, 0b1111111100000000, 0b1111111000000000,
     0b1111110000000000, 0b1111100000000000, 0b1111000000000000, 0b1110000000000000,
     0b1100000000000000, 0b1000000000000000, 0, 0, 0, 0, 0, 0]"

definition cursor_row :: "Pos \<Rightarrow> u32 \<Rightarrow> u16 \<Rightarrow> nat \<Rightarrow> Screen \<Rightarrow> Screen" where
  "cursor_row pos colour line y s =
     fold (\<lambda>x s. if line AND drop_bit x 0b10000000000000 > 0 then plot (x + px pos) (y + py pos) colour s else s) [0 ..< 16] s"

definition draw_cursor :: "Pos \<Rightarrow> u32 \<Rightarrow> u16 list \<Rightarrow> Screen \<Rightarrow> Screen option" where
  "draw_cursor pos colour cursor s = do {
     max_x \<leftarrow> sub_usize (horizonal (gop s)) 16;
     max_y \<leftarrow> sub_usize (vertical (gop s)) 16;
     let p = \<lparr>px = (if px pos > max_x then max_x else px pos), py = (if py pos > max_y then max_y else py pos)\<rparr>;
     rassert (16 \<le> length cursor);
     Some (fold (\<lambda>y. cursor_row p colour (cursor ! y) y) [0 ..< 16] s)
   }"

subsection \<open>The text buffer\<close>

record BoundingBox =
  min_x :: nat
  max_x :: nat
  min_y :: nat
  max_y :: nat

definition from_max :: "nat \<Rightarrow> nat \<Rightarrow> BoundingBox" where
  "from_max x y = \<lparr>min_x = 0, max_x = x, min_y = 0, max_y = y\<rparr>"

record TTY =
  buffer :: "Cell list list"
  fg_color :: u32
  bg_color :: u32
  dims_x :: nat
  dims_y :: nat
  pos_x :: nat
  pos_y :: nat
  dirty_box :: "BoundingBox option"

definition tty_new :: "nat \<Rightarrow> nat \<Rightarrow> TTY" where
  "tty_new x y = \<lparr>buffer = replicate y (replicate x \<lparr>chr = 32, fg = 0xFFFFFF, bg = 0\<rparr>), fg_color = 0xFFFFFF,
     bg_color = 0, dims_x = x, dims_y = y, pos_x = 0, pos_y = 0, dirty_box = Some (from_max x y)\<rparr>"

definition set_fg_colour :: "u32 \<Rightarrow> TTY \<Rightarrow> u32 \<times> TTY" where
  "set_fg_colour colour t = (fg_color t, t\<lparr>fg_color := colour\<rparr>)"

definition set_cell_dirty :: "nat \<Rightarrow> nat \<Rightarrow> TTY \<Rightarrow> TTY" where
  "set_cell_dirty x y t = t\<lparr>dirty_box := Some
     (case dirty_box t of
        None \<Rightarrow> \<lparr>min_x = x, max_x = x + 1, min_y = y, max_y = y + 1\<rparr>
      | Some b \<Rightarrow> \<lparr>min_x = min (min_x b) x, max_x = max (max_x b) (x + 1),
          min_y = min (min_y b) y, max_y = max (max_y b) (y + 1)\<rparr>)\<rparr>"

definition set_complete_dirty :: "TTY \<Rightarrow> TTY" where
  "set_complete_dirty t = t\<lparr>dirty_box := Some (from_max (dims_x t) (dims_y t))\<rparr>"

definition newline :: "TTY \<Rightarrow> TTY option" where
  "newline t =
     (let t1 = t\<lparr>pos_x := 0\<rparr> in
      if pos_y t1 + 1 = dims_y t1 then do {
        rassert (1 \<le> length (buffer t1));
        let rows = rotate 1 (buffer t1);
        rassert (dims_y t1 - 1 < length rows);
        let cleared = map (\<lambda>c. c\<lparr>chr := 32\<rparr>) (rows ! (dims_y t1 - 1));
        Some (set_complete_dirty (t1\<lparr>buffer := rows[dims_y t1 - 1 := cleared]\<rparr>))
      } else Some (t1\<lparr>pos_y := pos_y t1 + 1\<rparr>))"

definition advance_char :: "TTY \<Rightarrow> TTY option" where
  "advance_char t = (if pos_x t + 1 = dims_x t then newline t else Some (t\<lparr>pos_x := pos_x t + 1\<rparr>))"

definition update_at :: "(Cell \<Rightarrow> Cell) \<Rightarrow> TTY \<Rightarrow> TTY option" where
  "update_at f t = do {
     rassert (pos_y t < length (buffer t));
     let line = buffer t ! pos_y t;
     rassert (pos_x t < length line);
     Some (t\<lparr>buffer := (buffer t)[pos_y t := line[pos_x t := f (line ! pos_x t)]]\<rparr>)
   }"

definition write_char :: "codepoint \<Rightarrow> TTY \<Rightarrow> TTY option" where
  "write_char c t =
     (if c = 10 then newline t
      else if c = 8 then do {
        t1 \<leftarrow> (if pos_x t = 0 \<and> pos_y t = 0 then Some t
               else if pos_x t = 0 then do {
                 col \<leftarrow> sub_usize (dims_y t) 1;
                 Some (t\<lparr>pos_y := pos_y t - 1, pos_x := col\<rparr>)
               } else Some (t\<lparr>pos_x := pos_x t - 1\<rparr>));
        t2 \<leftarrow> update_at (\<lambda>cell. cell\<lparr>chr := 32\<rparr>) t1;
        Some (set_cell_dirty (pos_x t2) (pos_y t2) t2)
      } else do {
        t1 \<leftarrow> update_at (\<lambda>cell. \<lparr>chr = c, fg = fg_color t, bg = bg_color t\<rparr>) t;
        advance_char (set_cell_dirty (pos_x t1) (pos_y t1) t1)
      })"

definition tty_clear :: "TTY \<Rightarrow> TTY" where
  "tty_clear t = set_complete_dirty (t\<lparr>buffer := map (map (\<lambda>c. c\<lparr>chr := 32, bg := bg_color t\<rparr>)) (buffer t)\<rparr>)"

subsection \<open>The writer\<close>

record Writer =
  screen :: Screen
  tty :: TTY
  mouse_pos :: Pos
  mouse_colour :: u32

definition writer_new :: "GopInfo \<Rightarrow> PSF1Font \<Rightarrow> (nat \<Rightarrow> u32) \<Rightarrow> Writer option" where
  "writer_new g f start = do {
     table \<leftarrow> read_unicode_table (unicode_buffer f) 0 (\<lambda>_. None);
     Some \<lparr>screen = \<lparr>gop = g, font = f, unicode_table = table, pixels = start\<rparr>,
       tty = tty_new (horizonal g div CHAR_WIDTH) (vertical g div CHAR_HEIGHT),
       mouse_pos = \<lparr>px = 0, py = 0\<rparr>, mouse_colour = 0xFFFFFF\<rparr>
   }"

primrec write_str :: "codepoint list \<Rightarrow> Writer \<Rightarrow> Writer option" where
  "write_str [] w = Some w"
| "write_str (c # cs) w = do {
     t \<leftarrow> write_char c (tty w);
     write_str cs (w\<lparr>tty := t\<rparr>)
   }"

definition writer_clear :: "Writer \<Rightarrow> Writer" where
  "writer_clear w = w\<lparr>tty := tty_clear (tty w)\<rparr>"

definition reset_screen :: "u32 \<Rightarrow> Writer \<Rightarrow> Writer" where
  "reset_screen colour w =
     (let w1 = writer_clear (w\<lparr>tty := (tty w)\<lparr>bg_color := colour\<rparr>\<rparr>) in
      w1\<lparr>tty := (tty w1)\<lparr>pos_x := 0, pos_y := 0\<rparr>\<rparr>)"

primrec update_cells :: "nat \<Rightarrow> (nat \<times> Cell) list \<Rightarrow> Screen \<Rightarrow> Screen option" where
  "update_cells y [] s = Some s"
| "update_cells y (xc # rest) s = do {
     s1 \<leftarrow> update_cell (snd xc) (fst xc) y s;
     update_cells y rest s1
   }"

primrec reset_lines :: "nat \<Rightarrow> (nat \<times> Cell list) list \<Rightarrow> Screen \<Rightarrow> Screen option" where
  "reset_lines left_cell [] s = Some s"
| "reset_lines left_cell (yl # rest) s = do {
     s1 \<leftarrow> update_cells (fst yl) (take 3 (drop left_cell (enumerate 0 (snd yl)))) s;
     reset_lines left_cell rest s1
   }"

definition update_cursor :: "Pos \<Rightarrow> u32 \<Rightarrow> Writer \<Rightarrow> Writer option" where
  "update_cursor pos colour w =
     (let p = mouse_pos w; left_cell = px p div CHAR_WIDTH - 1; top_cell = py p div CHAR_HEIGHT - 1 in do {
        s1 \<leftarrow> reset_lines left_cell (take 3 (drop top_cell (enumerate 0 (buffer (tty w))))) (screen w);
        s2 \<leftarrow> draw_cursor pos colour MOUSE_POINTER s1;
        Some (w\<lparr>screen := s2, mouse_pos := pos, mouse_colour := colour\<rparr>)
      })"

primrec redraw_lines :: "BoundingBox \<Rightarrow> nat \<Rightarrow> Pos \<Rightarrow> u32 \<Rightarrow> (nat \<times> Cell list) list \<Rightarrow> Screen \<Rightarrow> Screen option" where
  "redraw_lines b cursor_cell pos colour [] s = Some s"
| "redraw_lines b cursor_cell pos colour (yl # rest) s = do {
     s1 \<leftarrow> update_cells (fst yl) (drop (min_x b) (take (max_x b) (enumerate 0 (snd yl)))) s;
     s2 \<leftarrow> (if fst yl = cursor_cell then draw_cursor pos colour MOUSE_POINTER s1 else Some s1);
     redraw_lines b cursor_cell pos colour rest s2
   }"

definition redraw_if_needed :: "Writer \<Rightarrow> Writer option" where
  "redraw_if_needed w =
     (case dirty_box (tty w) of
        None \<Rightarrow> Some w
      | Some b \<Rightarrow> do {
          let cursor_cell = py (mouse_pos w) div CHAR_HEIGHT + 1;
          s1 \<leftarrow> redraw_lines b cursor_cell (mouse_pos w) (mouse_colour w)
            (drop (min_y b) (take (max_y b) (enumerate 0 (buffer (tty w))))) (screen w);
          s2 \<leftarrow> draw_cursor (mouse_pos w) (mouse_colour w) MOUSE_POINTER s1;
          Some (w\<lparr>screen := s2, tty := (tty w)\<lparr>dirty_box := None\<rparr>\<rparr>)
        })"

text \<open>\<open>usize::saturating_add_signed\<close>, and the task that follows the mouse.\<close>

definition saturating_add_signed :: "nat \<Rightarrow> int \<Rightarrow> nat" where
  "saturating_add_signed n i = (if int n + i < 0 then 0 else min (nat (int n + i)) (usize_bound - 1))"

definition button_colour :: "MousePacket \<Rightarrow> u32" where
  "button_colour mouse =
     (let c0 = (0x505050 :: u32);
          c1 = (if left mouse then c0 OR 0xFF0000 else c0);
          c2 = (if right mouse then c1 OR 0x00FF00 else c1)
      in if middle mouse then c2 OR 0x0000FF else c2)"

definition print_cursor :: "Pos \<Rightarrow> MousePacket \<Rightarrow> Writer \<Rightarrow> (Pos \<times> Writer) option" where
  "print_cursor pos mouse w = do {
     let colour = button_colour mouse;
     let x = saturating_add_signed (px pos) (x_mov mouse);
     let y = saturating_add_signed (py pos) (y_mov mouse);
     max_x \<leftarrow> sub_usize (horizonal (gop (screen w))) 8;
     max_y \<leftarrow> sub_usize (vertical (gop (screen w))) 16;
     let p = \<lparr>px = (if x > max_x then max_x else x), py = (if y > max_y then max_y else y)\<rparr>;
     w' \<leftarrow> update_cursor p colour w;
     Some (p, w')
   }"

definition monitor_cursor_step :: "InputServiceMessage \<Rightarrow> Pos \<times> Writer \<Rightarrow> (Pos \<times> Writer) option" where
  "monitor_cursor_step packet g =
     (case packet of
        KeyboardMessage _ \<Rightarrow> None
      | MouseEvent mouse \<Rightarrow> print_cursor (fst g) mouse (snd g))"

subsection \<open>What painting does to a pixel\<close>

definition pixel_at :: "Screen \<Rightarrow> nat \<Rightarrow> nat \<Rightarrow> u32" where
  "pixel_at s x y = pixels s (x + y * stride (gop s))"

definition same_frame :: "Screen \<Rightarrow> Screen \<Rightarrow> bool" where
  "same_frame s s' \<longleftrightarrow> gop s' = gop s \<and> font s' = font s \<and> unicode_table s' = unicode_table s"

lemma same_frame_refl [simp]: "same_frame s s"
  by (simp add: same_frame_def)

lemma same_frame_trans [trans]: "same_frame s s' \<Longrightarrow> same_frame s' s'' \<Longrightarrow> same_frame s s''"
  by (simp add: same_frame_def)

lemma same_frame_plot [simp]: "same_frame s (plot x y c s)"
  by (simp add: same_frame_def plot_def)

lemma pixel_plot:
  assumes "X < stride (gop s)" "x < stride (gop s)"
  shows "pixel_at (plot x y c s) X Y = (if X = x \<and> Y = y then c else pixel_at s X Y)"
proof -
  have "X + Y * stride (gop s) = x + y * stride (gop s) \<longleftrightarrow> X = x \<and> Y = y"
  proof
    assume eq: "X + Y * stride (gop s) = x + y * stride (gop s)"
    then have "(X + Y * stride (gop s)) mod stride (gop s) = (x + y * stride (gop s)) mod stride (gop s)" by simp
    then have "X = x" using assms by simp
    with eq assms show "X = x \<and> Y = y" by simp
  qed simp
  then show ?thesis by (simp add: pixel_at_def plot_def)
qed

lemma fold_plot:
  assumes "X < stride (gop s)" "\<forall>x \<in> set xs. x < stride (gop s)"
  shows "same_frame s (fold (\<lambda>x. plot x y (f x)) xs s) \<and>
    pixel_at (fold (\<lambda>x. plot x y (f x)) xs s) X Y = (if Y = y \<and> X \<in> set xs then f X else pixel_at s X Y)"
  using assms
proof (induction xs arbitrary: s)
  case (Cons x xs)
  have g: "gop (plot x y (f x) s) = gop s" by (simp add: plot_def)
  from Cons.IH [of "plot x y (f x) s"] Cons.prems show ?case
    by (auto simp: g pixel_plot intro: same_frame_trans [OF same_frame_plot])
qed simp

lemma paint_row_pixel:
  assumes "X < stride (gop s)" "xoff + 8 \<le> stride (gop s)"
  shows "same_frame s (paint_row cell xoff y g s) \<and>
    pixel_at (paint_row cell xoff y g s) X Y = (if Y = y \<and> xoff \<le> X \<and> X < xoff + 8 then glyph_colour g (X - xoff) cell else pixel_at s X Y)"
  unfolding paint_row_def using fold_plot [of X s "[xoff ..< xoff + 8]" y "\<lambda>x. glyph_colour g (x - xoff) cell" Y] assms by auto

lemma paint_rows_pixel:
  assumes "xoff + 8 \<le> stride (gop s)" "addr + n \<le> length (glyph_buffer (font s))"
  shows "\<exists>s'. paint_rows cell xoff [y ..< y + n] addr s = Some s' \<and> same_frame s s' \<and>
    (\<forall>X Y. X < stride (gop s) \<longrightarrow> pixel_at s' X Y =
      (if y \<le> Y \<and> Y < y + n \<and> xoff \<le> X \<and> X < xoff + 8 then glyph_colour (glyph_buffer (font s) ! (addr + (Y - y))) (X - xoff) cell
       else pixel_at s X Y))"
  using assms
proof (induction n arbitrary: y addr s)
  case (Suc n)
  define s1 where "s1 = paint_row cell xoff y (glyph_buffer (font s) ! addr) s"
  have f: "same_frame s s1" unfolding s1_def using paint_row_pixel [of 0 s xoff cell y _ 0] Suc.prems(1) by simp
  then have g: "gop s1 = gop s" "font s1 = font s" by (simp_all add: same_frame_def)
  from Suc.IH [of s1 "addr + 1" "y + 1"] Suc.prems obtain s' where s': "paint_rows cell xoff [y + 1 ..< y + 1 + n] (addr + 1) s1 = Some s'"
    "same_frame s1 s'" and px: "\<And>X Y. X < stride (gop s) \<Longrightarrow> pixel_at s' X Y =
      (if y + 1 \<le> Y \<and> Y < y + 1 + n \<and> xoff \<le> X \<and> X < xoff + 8 then glyph_colour (glyph_buffer (font s) ! (addr + 1 + (Y - (y + 1)))) (X - xoff) cell
       else pixel_at s1 X Y)" by (auto simp: g)
  have "[y ..< y + Suc n] = y # [y + 1 ..< y + 1 + n]" by (simp add: upt_conv_Cons)
  then have "paint_rows cell xoff [y ..< y + Suc n] addr s = Some s'"
    using s'(1) Suc.prems(2) by (simp add: s1_def [symmetric])
  moreover have "pixel_at s' X Y =
      (if y \<le> Y \<and> Y < y + Suc n \<and> xoff \<le> X \<and> X < xoff + 8 then glyph_colour (glyph_buffer (font s) ! (addr + (Y - y))) (X - xoff) cell
       else pixel_at s X Y)" if "X < stride (gop s)" for X Y
  proof (cases "y + 1 \<le> Y")
    case True
    then have "addr + 1 + (Y - (y + 1)) = addr + (Y - y)" by simp
    then show ?thesis using True px [OF that, of Y] paint_row_pixel [OF that Suc.prems(1)] by (simp add: s1_def)
  next
    case False
    then show ?thesis using px [OF that, of Y] paint_row_pixel [OF that Suc.prems(1)] by (auto simp: s1_def)
  qed
  ultimately show ?case using same_frame_trans [OF f s'(2)] by blast
qed auto

text \<open>The colour of a pixel of a cell, at an offset inside of it.\<close>

definition cell_colour :: "Screen \<Rightarrow> Cell \<Rightarrow> nat \<Rightarrow> nat \<Rightarrow> u32" where
  "cell_colour s cell ix iy = glyph_colour (glyph_buffer (font s) ! (glyph_index s cell * 16 + iy)) ix cell"

definition font_ok :: "Screen \<Rightarrow> bool" where
  "font_ok s \<longleftrightarrow> 16 \<le> length (glyph_buffer (font s)) \<and>
     (\<forall>c i. unicode_table s c = Some i \<longrightarrow> i * 16 + 16 \<le> length (glyph_buffer (font s)))"

lemma same_frame_font:
  "same_frame s s' \<Longrightarrow> font_ok s' = font_ok s" "same_frame s s' \<Longrightarrow> cell_colour s' = cell_colour s" "same_frame s s' \<Longrightarrow> gop s' = gop s"
  by (auto simp: same_frame_def font_ok_def cell_colour_def glyph_index_def fun_eq_iff)

lemma cell_range: "x * 8 \<le> X \<and> X < x * 8 + 8 \<longleftrightarrow> X div 8 = x" "y * 16 \<le> Y \<and> Y < y * 16 + 16 \<longleftrightarrow> Y div 16 = y" for x y X Y :: nat
  by auto

lemma update_cell_pixel:
  assumes "font_ok s" "x * 8 + 8 \<le> stride (gop s)"
  shows "\<exists>s'. update_cell cell x y s = Some s' \<and> same_frame s s' \<and>
    (\<forall>X Y. X < stride (gop s) \<longrightarrow> pixel_at s' X Y =
      (if X div 8 = x \<and> Y div 16 = y then cell_colour s cell (X mod 8) (Y mod 16) else pixel_at s X Y))"
proof -
  have "glyph_index s cell * 16 + 16 \<le> length (glyph_buffer (font s))"
    using assms(1) by (auto simp: font_ok_def glyph_index_def split: option.splits)
  from paint_rows_pixel [OF assms(2) this, of cell "y * 16"] obtain s' where
    s': "paint_rows cell (x * 8) [y * 16 ..< y * 16 + 16] (glyph_index s cell * 16) s = Some s'" "same_frame s s'"
    and px: "\<And>X Y. X < stride (gop s) \<Longrightarrow> pixel_at s' X Y =
      (if y * 16 \<le> Y \<and> Y < y * 16 + 16 \<and> x * 8 \<le> X \<and> X < x * 8 + 8
       then glyph_colour (glyph_buffer (font s) ! (glyph_index s cell * 16 + (Y - y * 16))) (X - x * 8) cell else pixel_at s X Y)" by blast
  have "pixel_at s' X Y = (if X div 8 = x \<and> Y div 16 = y then cell_colour s cell (X mod 8) (Y mod 16) else pixel_at s X Y)"
    if "X < stride (gop s)" for X Y
  proof -
    have "X div 8 = x \<Longrightarrow> X - x * 8 = X mod 8" "Y div 16 = y \<Longrightarrow> Y - y * 16 = Y mod 16" by (auto simp: minus_div_mult_eq_mod)
    then show ?thesis using px [OF that, of Y] cell_range [of x X] cell_range(2) [of y Y] by (auto simp: cell_colour_def)
  qed
  then show ?thesis using s' by (auto simp: update_cell_def CHAR_WIDTH_def CHAR_HEIGHT_def)
qed

lemma set_enumerate_slice: "set (drop a (take b (enumerate 0 xs))) = {(i, xs ! i) | i. a \<le> i \<and> i < b \<and> i < length xs}"
proof (rule set_eqI, rule iffI)
  fix p assume "p \<in> set (drop a (take b (enumerate 0 xs)))"
  then obtain j where "j < length (drop a (take b (enumerate 0 xs)))" "p = drop a (take b (enumerate 0 xs)) ! j" by (metis in_set_conv_nth)
  moreover from this(1) have "a \<le> length (take b (enumerate 0 xs))" by (simp only: length_drop)
  ultimately have "p = (a + j, xs ! (a + j))" "a + j < b" "a + j < length xs" by (simp_all add: nth_enumerate_eq)
  then show "p \<in> {(i, xs ! i) | i. a \<le> i \<and> i < b \<and> i < length xs}" by simp
next
  fix p assume "p \<in> {(i, xs ! i) | i. a \<le> i \<and> i < b \<and> i < length xs}"
  then obtain i where "p = (i, xs ! i)" "a \<le> i" "i < b" "i < length xs" by blast
  then have "drop a (take b (enumerate 0 xs)) ! (i - a) = p" "i - a < length (drop a (take b (enumerate 0 xs)))"
    by (auto simp: nth_enumerate_eq)
  then show "p \<in> set (drop a (take b (enumerate 0 xs)))" by (metis nth_mem)
qed

lemma update_cells_pixel:
  assumes "font_ok s" "\<forall>(x, c) \<in> set xs. c = row x \<and> x * 8 + 8 \<le> stride (gop s)"
  shows "\<exists>s'. update_cells y xs s = Some s' \<and> same_frame s s' \<and>
    (\<forall>X Y. X < stride (gop s) \<longrightarrow> pixel_at s' X Y =
      (if Y div 16 = y \<and> X div 8 \<in> fst ` set xs then cell_colour s (row (X div 8)) (X mod 8) (Y mod 16) else pixel_at s X Y))"
  using assms
proof (induction xs arbitrary: s)
  case (Cons xc xs)
  obtain x c where xc: "xc = (x, c)" by force
  from Cons.prems xc have c: "c = row x" "x * 8 + 8 \<le> stride (gop s)" by auto
  from update_cell_pixel [OF Cons.prems(1) c(2), of c y] obtain s1 where s1: "update_cell c x y s = Some s1" "same_frame s s1"
    "\<And>X Y. X < stride (gop s) \<Longrightarrow> pixel_at s1 X Y =
      (if X div 8 = x \<and> Y div 16 = y then cell_colour s c (X mod 8) (Y mod 16) else pixel_at s X Y)" by blast
  note sf = same_frame_font [OF s1(2)]
  from Cons.IH [of s1] Cons.prems sf obtain s' where s': "update_cells y xs s1 = Some s'" "same_frame s1 s'"
    "\<And>X Y. X < stride (gop s) \<Longrightarrow> pixel_at s' X Y =
      (if Y div 16 = y \<and> X div 8 \<in> fst ` set xs then cell_colour s (row (X div 8)) (X mod 8) (Y mod 16) else pixel_at s1 X Y)" by auto
  have "update_cells y (xc # xs) s = Some s'" using s1(1) s'(1) by (simp add: xc)
  moreover have "pixel_at s' X Y =
      (if Y div 16 = y \<and> X div 8 \<in> fst ` set (xc # xs) then cell_colour s (row (X div 8)) (X mod 8) (Y mod 16) else pixel_at s X Y)"
    if "X < stride (gop s)" for X Y
    using s'(3) [OF that, of Y] s1(3) [OF that, of Y] c(1) by (auto simp: xc)
  ultimately show ?case using same_frame_trans [OF s1(2) s'(2)] by blast
qed simp

text \<open>The pixels that the mouse cursor may cover.\<close>

definition under_cursor :: "GopInfo \<Rightarrow> Pos \<Rightarrow> nat \<Rightarrow> nat \<Rightarrow> bool" where
  "under_cursor g pos X Y \<longleftrightarrow> min (px pos) (horizonal g - 16) \<le> X \<and> X < min (px pos) (horizonal g - 16) + 8 \<and>
     min (py pos) (vertical g - 16) \<le> Y \<and> Y < min (py pos) (vertical g - 16) + 16"

definition right_columns_empty :: "u16 \<Rightarrow> bool" where
  "right_columns_empty line \<longleftrightarrow> list_all (\<lambda>x. line AND drop_bit x 0b10000000000000 = 0) [8, 9, 10, 11, 12, 13, 14, 15]"

lemma pointer_columns:
  assumes "y < 16" "x < 16" "MOUSE_POINTER ! y AND drop_bit x 0b10000000000000 > 0"
  shows "x < 8"
proof (rule ccontr)
  assume "\<not> x < 8"
  then have x: "x \<in> set [8, 9, 10, 11, 12, 13, 14, 15]" using assms(2) by auto
  have "list_all right_columns_empty MOUSE_POINTER"
    by (simp add: MOUSE_POINTER_def right_columns_empty_def drop_bit_word_numeral)
  moreover have "length MOUSE_POINTER = 16" by (simp add: MOUSE_POINTER_def)
  ultimately have "right_columns_empty (MOUSE_POINTER ! y)" using assms(1) unfolding list_all_length by simp
  then have "MOUSE_POINTER ! y AND drop_bit x 0b10000000000000 = 0" using x unfolding right_columns_empty_def list_all_iff by (rule bspec)
  then show False using assms(3) by (simp only: less_irrefl)
qed

lemma cursor_row_pixel:
  assumes "px p + 8 \<le> stride (gop s)" "X < stride (gop s)" "\<forall>x < 16. line AND drop_bit x 0b10000000000000 > 0 \<longrightarrow> x < 8"
  shows "same_frame s (cursor_row p colour line y s) \<and>
    (\<not> (Y = y + py p \<and> px p \<le> X \<and> X < px p + 8) \<longrightarrow> pixel_at (cursor_row p colour line y s) X Y = pixel_at s X Y)"
proof -
  have "set xs \<subseteq> {..<16} \<Longrightarrow> gop t = gop s \<Longrightarrow>
      same_frame t (fold (\<lambda>x s. if line AND drop_bit x 0b10000000000000 > 0 then plot (x + px p) (y + py p) colour s else s) xs t) \<and>
      (\<not> (Y = y + py p \<and> px p \<le> X \<and> X < px p + 8) \<longrightarrow>
       pixel_at (fold (\<lambda>x s. if line AND drop_bit x 0b10000000000000 > 0 then plot (x + px p) (y + py p) colour s else s) xs t) X Y = pixel_at t X Y)"
    for xs t
  proof (induction xs arbitrary: t)
    case (Cons x xs)
    show ?case
    proof (cases "line AND drop_bit x 0b10000000000000 > 0")
      case True
      with assms(3) Cons.prems(1) have x: "x < 8" by auto
      have g: "gop (plot (x + px p) (y + py p) colour t) = gop s" using Cons.prems(2) by (simp add: plot_def)
      have "pixel_at (plot (x + px p) (y + py p) colour t) X Y = pixel_at t X Y" if "\<not> (Y = y + py p \<and> px p \<le> X \<and> X < px p + 8)"
        using that x assms(1,2) Cons.prems(2) by (subst pixel_plot) auto
      then show ?thesis using Cons.IH [OF _ g] Cons.prems(1) True same_frame_trans [OF same_frame_plot [of t "x + px p" "y + py p" colour]] by auto
    qed (use Cons in auto)
  qed simp
  from this [of "[0 ..< 16]" s] show ?thesis unfolding cursor_row_def by (simp add: subset_iff del: upt_rec_numeral)
qed

lemma draw_cursor_pixel:
  assumes "16 \<le> horizonal (gop s)" "16 \<le> vertical (gop s)" "horizonal (gop s) \<le> stride (gop s)"
  shows "\<exists>s'. draw_cursor pos colour MOUSE_POINTER s = Some s' \<and> same_frame s s' \<and>
    (\<forall>X Y. X < stride (gop s) \<longrightarrow> \<not> under_cursor (gop s) pos X Y \<longrightarrow> pixel_at s' X Y = pixel_at s X Y)"
proof -
  define p where "p = \<lparr>px = min (px pos) (horizonal (gop s) - 16), py = min (py pos) (vertical (gop s) - 16)\<rparr>"
  have w: "px p + 8 \<le> stride (gop s)" using assms by (simp add: p_def)
  have step: "set ys \<subseteq> {..<16} \<Longrightarrow> gop t = gop s \<Longrightarrow>
      same_frame t (fold (\<lambda>y. cursor_row p colour (MOUSE_POINTER ! y) y) ys t) \<and>
      (\<forall>X Y. X < stride (gop s) \<longrightarrow> \<not> under_cursor (gop s) pos X Y \<longrightarrow>
        pixel_at (fold (\<lambda>y. cursor_row p colour (MOUSE_POINTER ! y) y) ys t) X Y = pixel_at t X Y)" for ys t
  proof (induction ys arbitrary: t)
    case (Cons y ys)
    define t1 where "t1 = cursor_row p colour (MOUSE_POINTER ! y) y t"
    have y: "y < 16" using Cons.prems(1) by auto
    then have cols: "\<forall>x < 16. MOUSE_POINTER ! y AND drop_bit x 0b10000000000000 > 0 \<longrightarrow> x < 8" using pointer_columns by blast
    note row = cursor_row_pixel [where p = p and s = t and colour = colour and y = y, OF _ _ cols, folded t1_def, unfolded Cons.prems(2), OF w]
    have f: "same_frame t t1" using row [of 0] assms by simp
    have "pixel_at t1 X Y = pixel_at t X Y" if "X < stride (gop s)" "\<not> under_cursor (gop s) pos X Y" for X Y
    proof -
      have "\<not> (Y = y + py p \<and> px p \<le> X \<and> X < px p + 8)" using that(2) y by (auto simp: under_cursor_def p_def)
      then show ?thesis using row [OF that(1)] by blast
    qed
    moreover have "gop t1 = gop s" using f Cons.prems(2) by (simp add: same_frame_def)
    ultimately show ?case using Cons.IH [of t1] Cons.prems(1) same_frame_trans [OF f] by (simp add: t1_def [symmetric])
  qed simp
  have "length MOUSE_POINTER = 16" by (simp add: MOUSE_POINTER_def)
  then have "draw_cursor pos colour MOUSE_POINTER s = Some (fold (\<lambda>y. cursor_row p colour (MOUSE_POINTER ! y) y) [0 ..< 16] s)"
    using assms by (simp add: draw_cursor_def sub_usize_def p_def min_def Let_def not_le del: upt_rec_numeral)
  then show ?thesis using step [of "[0 ..< 16]" s] by (auto simp: subset_iff)
qed

text \<open>A grid of cells that fits on the screen.\<close>

definition grid_ok :: "Cell list list \<Rightarrow> nat \<Rightarrow> Screen \<Rightarrow> bool" where
  "grid_ok grid n s \<longleftrightarrow> (\<forall>line \<in> set grid. length line = n) \<and> n * 8 \<le> stride (gop s) \<and> font_ok s \<and>
     16 \<le> horizonal (gop s) \<and> 16 \<le> vertical (gop s) \<and> horizonal (gop s) \<le> stride (gop s)"

lemma grid_ok_frame: "same_frame s s' \<Longrightarrow> grid_ok grid n s' = grid_ok grid n s"
  by (simp add: grid_ok_def same_frame_font)

lemma update_line_pixel:
  assumes "grid_ok grid n s" "y < length grid"
  shows "\<exists>s'. update_cells y (drop a (take b (enumerate 0 (grid ! y)))) s = Some s' \<and> same_frame s s' \<and>
    (\<forall>X Y. X < stride (gop s) \<longrightarrow> pixel_at s' X Y =
      (if Y div 16 = y \<and> a \<le> X div 8 \<and> X div 8 < b \<and> X div 8 < n then cell_colour s (grid ! y ! (X div 8)) (X mod 8) (Y mod 16) else pixel_at s X Y))"
proof -
  have len: "length (grid ! y) = n" and w: "n * 8 \<le> stride (gop s)" and f: "font_ok s" using assms by (simp_all add: grid_ok_def)
  have "x * 8 + 8 \<le> stride (gop s)" if "x < n" for x
  proof -
    have "Suc x * 8 \<le> n * 8" using that by (intro mult_le_mono1) simp
    then show ?thesis using w by simp
  qed
  then have "\<forall>(x, c) \<in> set (drop a (take b (enumerate 0 (grid ! y)))). c = grid ! y ! x \<and> x * 8 + 8 \<le> stride (gop s)"
    unfolding set_enumerate_slice len by blast
  moreover have "fst ` set (drop a (take b (enumerate 0 (grid ! y)))) = {i. a \<le> i \<and> i < b \<and> i < n}"
    unfolding set_enumerate_slice len by force
  ultimately show ?thesis using update_cells_pixel [OF f, of _ "\<lambda>x. grid ! y ! x" y] by fastforce
qed

definition cell_of :: "Cell list list \<Rightarrow> Screen \<Rightarrow> nat \<Rightarrow> nat \<Rightarrow> u32" where
  "cell_of grid s X Y = cell_colour s (grid ! (Y div 16) ! (X div 8)) (X mod 8) (Y mod 16)"

lemma reset_lines_pixel:
  assumes "grid_ok grid n s" "\<forall>(y, l) \<in> set ls. y < length grid \<and> l = grid ! y"
  shows "\<exists>s'. reset_lines a ls s = Some s' \<and> same_frame s s' \<and>
    (\<forall>X Y. X < stride (gop s) \<longrightarrow> pixel_at s' X Y =
      (if Y div 16 \<in> fst ` set ls \<and> a \<le> X div 8 \<and> X div 8 < a + 3 \<and> X div 8 < n then cell_of grid s X Y else pixel_at s X Y))"
  using assms
proof (induction ls arbitrary: s)
  case (Cons yl ls)
  obtain y l where yl: "yl = (y, l)" by force
  with Cons.prems have y: "y < length grid" "l = grid ! y" by auto
  have sl: "take 3 (drop a xs) = drop a (take (a + 3) xs)" for xs :: "(nat \<times> Cell) list" by (simp add: take_drop add.commute)
  from update_line_pixel [OF Cons.prems(1) y(1), of a "a + 3"] obtain s1 where
    s1: "update_cells y (take 3 (drop a (enumerate 0 l))) s = Some s1" "same_frame s s1"
    and p1: "\<And>X Y. X < stride (gop s) \<Longrightarrow> pixel_at s1 X Y =
      (if Y div 16 = y \<and> a \<le> X div 8 \<and> X div 8 < a + 3 \<and> X div 8 < n then cell_colour s (grid ! y ! (X div 8)) (X mod 8) (Y mod 16) else pixel_at s X Y)"
    by (auto simp: sl y(2))
  note sf = same_frame_font [OF s1(2)]
  from Cons.IH [of s1] Cons.prems grid_ok_frame [OF s1(2)] obtain s' where s': "reset_lines a ls s1 = Some s'" "same_frame s1 s'"
    and p': "\<And>X Y. X < stride (gop s) \<Longrightarrow> pixel_at s' X Y =
      (if Y div 16 \<in> fst ` set ls \<and> a \<le> X div 8 \<and> X div 8 < a + 3 \<and> X div 8 < n then cell_of grid s X Y else pixel_at s1 X Y)"
    by (auto simp: sf cell_of_def)
  have "reset_lines a (yl # ls) s = Some s'" using s1(1) s'(1) by (simp add: yl)
  moreover have "pixel_at s' X Y =
      (if Y div 16 \<in> fst ` set (yl # ls) \<and> a \<le> X div 8 \<and> X div 8 < a + 3 \<and> X div 8 < n then cell_of grid s X Y else pixel_at s X Y)"
    if "X < stride (gop s)" for X Y
    using p' [OF that, of Y] p1 [OF that, of Y] by (auto simp: yl cell_of_def)
  ultimately show ?case using same_frame_trans [OF s1(2) s'(2)] by blast
qed simp

lemma redraw_lines_pixel:
  assumes "grid_ok grid n s" "\<forall>(y, l) \<in> set ls. y < length grid \<and> l = grid ! y"
  shows "\<exists>s'. redraw_lines b cc pos colour ls s = Some s' \<and> same_frame s s' \<and>
    (\<forall>X Y. X < stride (gop s) \<longrightarrow> \<not> under_cursor (gop s) pos X Y \<longrightarrow> pixel_at s' X Y =
      (if Y div 16 \<in> fst ` set ls \<and> min_x b \<le> X div 8 \<and> X div 8 < max_x b \<and> X div 8 < n then cell_of grid s X Y else pixel_at s X Y))"
  using assms
proof (induction ls arbitrary: s)
  case (Cons yl ls)
  obtain y l where yl: "yl = (y, l)" by force
  with Cons.prems have y: "y < length grid" "l = grid ! y" by auto
  from update_line_pixel [OF Cons.prems(1) y(1), of "min_x b" "max_x b"] obtain s1 where
    s1: "update_cells y (drop (min_x b) (take (max_x b) (enumerate 0 l))) s = Some s1" "same_frame s s1"
    and p1: "\<And>X Y. X < stride (gop s) \<Longrightarrow> pixel_at s1 X Y =
      (if Y div 16 = y \<and> min_x b \<le> X div 8 \<and> X div 8 < max_x b \<and> X div 8 < n then cell_colour s (grid ! y ! (X div 8)) (X mod 8) (Y mod 16) else pixel_at s X Y)"
    by (auto simp: y(2))
  have g1: "gop s1 = gop s" using s1(2) by (simp add: same_frame_def)
  obtain s2 where s2: "(if y = cc then draw_cursor pos colour MOUSE_POINTER s1 else Some s1) = Some s2" "same_frame s1 s2"
    and p2: "\<And>X Y. X < stride (gop s) \<Longrightarrow> \<not> under_cursor (gop s) pos X Y \<Longrightarrow> pixel_at s2 X Y = pixel_at s1 X Y"
    using draw_cursor_pixel [of s1 pos colour] Cons.prems(1) by (cases "y = cc") (auto simp: g1 grid_ok_def)
  have f2: "same_frame s s2" using s1(2) s2(2) by (rule same_frame_trans)
  note sf = same_frame_font [OF f2]
  from Cons.IH [of s2] Cons.prems grid_ok_frame [OF f2] obtain s' where s': "redraw_lines b cc pos colour ls s2 = Some s'" "same_frame s2 s'"
    and p': "\<And>X Y. X < stride (gop s) \<Longrightarrow> \<not> under_cursor (gop s) pos X Y \<Longrightarrow> pixel_at s' X Y =
      (if Y div 16 \<in> fst ` set ls \<and> min_x b \<le> X div 8 \<and> X div 8 < max_x b \<and> X div 8 < n then cell_of grid s X Y else pixel_at s2 X Y)"
    by (auto simp: sf cell_of_def)
  have "redraw_lines b cc pos colour (yl # ls) s = Some s'" using s1(1) s2(1) s'(1) by (simp add: yl)
  moreover have "pixel_at s' X Y =
      (if Y div 16 \<in> fst ` set (yl # ls) \<and> min_x b \<le> X div 8 \<and> X div 8 < max_x b \<and> X div 8 < n then cell_of grid s X Y else pixel_at s X Y)"
    if "X < stride (gop s)" "\<not> under_cursor (gop s) pos X Y" for X Y
    using p' [OF that] p2 [OF that] p1 [OF that(1), of Y] by (auto simp: yl cell_of_def)
  ultimately show ?case using same_frame_trans [OF f2 s'(2)] by blast
qed simp

subsection \<open>Writing marks what it changes\<close>

definition dirty :: "TTY \<Rightarrow> nat \<Rightarrow> nat \<Rightarrow> bool" where
  "dirty t x y \<longleftrightarrow>
     (case dirty_box t of None \<Rightarrow> False | Some b \<Rightarrow> min_x b \<le> x \<and> x < max_x b \<and> min_y b \<le> y \<and> y < max_y b)"

definition tty_ok :: "TTY \<Rightarrow> bool" where
  "tty_ok t \<longleftrightarrow> length (buffer t) = dims_y t \<and> (\<forall>line \<in> set (buffer t). length line = dims_x t) \<and>
     pos_x t < dims_x t \<and> pos_y t < dims_y t \<and> dims_y t \<le> dims_x t"

definition marked :: "TTY \<Rightarrow> TTY \<Rightarrow> bool" where
  "marked t t' \<longleftrightarrow> dims_x t' = dims_x t \<and> dims_y t' = dims_y t \<and>
     (\<forall>x < dims_x t. \<forall>y < dims_y t. \<not> dirty t' x y \<longrightarrow> \<not> dirty t x y \<and> buffer t' ! y ! x = buffer t ! y ! x)"

lemma marked_refl [simp]: "marked t t"
  by (simp add: marked_def)

lemma marked_trans: "marked t t' \<Longrightarrow> marked t' t'' \<Longrightarrow> marked t t''"
  by (simp add: marked_def)

lemma marked_complete:
  assumes "dims_x t' = dims_x t" "dims_y t' = dims_y t"
  shows "marked t (set_complete_dirty t')"
  using assms by (simp add: marked_def set_complete_dirty_def dirty_def from_max_def)

lemma newline_ok:
  assumes "tty_ok t"
  shows "\<exists>t'. newline t = Some t' \<and> tty_ok t' \<and> marked t t'"
proof (cases "pos_y t + 1 = dims_y t")
  case True
  define cleared where "cleared = map (\<lambda>c. c\<lparr>chr := 32\<rparr>) (rotate 1 (buffer t) ! (dims_y t - 1))"
  define t' where "t' = t\<lparr>pos_x := 0, buffer := (rotate 1 (buffer t))[dims_y t - 1 := cleared]\<rparr>"
  have "newline t = Some (set_complete_dirty t')"
    using assms True by (simp add: newline_def t'_def cleared_def tty_ok_def Let_def)
  moreover have "length (rotate 1 (buffer t) ! (dims_y t - 1)) = dims_x t"
    using assms by (metis tty_ok_def length_rotate nth_mem set_rotate diff_less less_imp_Suc_add zero_less_one zero_less_Suc)
  then have "tty_ok t'" using assms
    by (auto simp: tty_ok_def t'_def cleared_def simp del: rotate_Suc dest!: set_update_subset_insert [THEN subsetD])
  then have "tty_ok (set_complete_dirty t')" by (simp add: tty_ok_def set_complete_dirty_def)
  moreover have "marked t (set_complete_dirty t')" by (rule marked_complete) (simp_all add: t'_def)
  ultimately show ?thesis by blast
next
  case False
  then have "newline t = Some (t\<lparr>pos_x := 0, pos_y := pos_y t + 1\<rparr>)" by (simp add: newline_def)
  then show ?thesis using assms False by (simp add: tty_ok_def marked_def dirty_def)
qed

lemma update_at_ok:
  assumes "tty_ok t"
  shows "\<exists>t'. update_at f t = Some t' \<and> tty_ok (set_cell_dirty (pos_x t') (pos_y t') t') \<and> marked t (set_cell_dirty (pos_x t') (pos_y t') t')"
proof -
  define t' where "t' = t\<lparr>buffer := (buffer t)[pos_y t := (buffer t ! pos_y t)[pos_x t := f (buffer t ! pos_y t ! pos_x t)]]\<rparr>"
  have len: "length (buffer t ! pos_y t) = dims_x t" using assms by (simp add: tty_ok_def)
  have "update_at f t = Some t'" using assms len by (simp add: update_at_def t'_def tty_ok_def Let_def)
  moreover have "tty_ok t'" using assms len by (auto simp: tty_ok_def t'_def dest!: set_update_subset_insert [THEN subsetD])
  then have "tty_ok (set_cell_dirty (pos_x t') (pos_y t') t')" by (simp add: tty_ok_def set_cell_dirty_def)
  moreover have "marked t (set_cell_dirty (pos_x t') (pos_y t') t')"
    using assms by (auto simp: marked_def tty_ok_def set_cell_dirty_def t'_def dirty_def nth_list_update split: option.splits)
  ultimately show ?thesis by blast
qed

lemma write_char_ok:
  assumes "tty_ok t"
  shows "\<exists>t'. write_char c t = Some t' \<and> tty_ok t' \<and> marked t t'"
proof -
  consider "c = 10" | "c = 8" | "c \<noteq> 10" "c \<noteq> 8" by blast
  then show ?thesis
  proof cases
    case 1
    then show ?thesis using newline_ok [OF assms] by (simp add: write_char_def)
  next
    case 2
    define t1 where "t1 = (if pos_x t = 0 \<and> pos_y t = 0 then t else if pos_x t = 0 then t\<lparr>pos_y := pos_y t - 1, pos_x := dims_y t - 1\<rparr>
      else t\<lparr>pos_x := pos_x t - 1\<rparr>)"
    have o: "tty_ok t1" "marked t t1" using assms by (auto simp: t1_def tty_ok_def marked_def dirty_def)
    from update_at_ok [OF o(1)] obtain t2 where t2: "update_at (\<lambda>cell. cell\<lparr>chr := 32\<rparr>) t1 = Some t2"
      "tty_ok (set_cell_dirty (pos_x t2) (pos_y t2) t2)" "marked t1 (set_cell_dirty (pos_x t2) (pos_y t2) t2)" by blast
    have "write_char c t = Some (set_cell_dirty (pos_x t2) (pos_y t2) t2)"
      using t2(1) 2 assms by (auto simp: write_char_def t1_def sub_usize_def tty_ok_def)
    then show ?thesis using t2 marked_trans [OF o(2)] by blast
  next
    case 3
    from update_at_ok [OF assms] obtain t1 where t1: "update_at (\<lambda>cell. \<lparr>chr = c, fg = fg_color t, bg = bg_color t\<rparr>) t = Some t1"
      "tty_ok (set_cell_dirty (pos_x t1) (pos_y t1) t1)" "marked t (set_cell_dirty (pos_x t1) (pos_y t1) t1)" by blast
    define t2 where "t2 = set_cell_dirty (pos_x t1) (pos_y t1) t1"
    have "\<exists>t'. advance_char t2 = Some t' \<and> tty_ok t' \<and> marked t2 t'"
      using newline_ok [OF t1(2) [folded t2_def]] t1(2) [folded t2_def]
      by (auto simp: advance_char_def tty_ok_def marked_def dirty_def)
    then obtain t' where "advance_char t2 = Some t'" "tty_ok t'" "marked t2 t'" by blast
    then show ?thesis using t1 3 marked_trans [OF t1(3)] by (auto simp: write_char_def t2_def)
  qed
qed

lemma tty_clear_ok: "tty_ok t \<Longrightarrow> tty_ok (tty_clear t) \<and> marked t (tty_clear t)"
  unfolding tty_clear_def by (intro conjI marked_complete) (auto simp: tty_ok_def set_complete_dirty_def)

subsection \<open>The screen shows the buffer\<close>

definition shown :: "Writer \<Rightarrow> nat \<Rightarrow> nat \<Rightarrow> bool" where
  "shown w X Y \<longleftrightarrow> pixel_at (screen w) X Y = cell_of (buffer (tty w)) (screen w) X Y"

definition writer_ok :: "Writer \<Rightarrow> bool" where
  "writer_ok w \<longleftrightarrow> tty_ok (tty w) \<and> grid_ok (buffer (tty w)) (dims_x (tty w)) (screen w) \<and>
     px (mouse_pos w) + 8 \<le> horizonal (gop (screen w)) \<and> py (mouse_pos w) + 16 \<le> vertical (gop (screen w)) \<and>
     (\<forall>X Y. X div 8 < dims_x (tty w) \<and> Y div 16 < dims_y (tty w) \<and> \<not> dirty (tty w) (X div 8) (Y div 16) \<and>
       \<not> under_cursor (gop (screen w)) (mouse_pos w) X Y \<longrightarrow> shown w X Y)"

lemma writer_tty_change:
  assumes "writer_ok w" "tty_ok t" "marked (tty w) t"
  shows "writer_ok (w\<lparr>tty := t\<rparr>)"
proof -
  have d: "dims_x t = dims_x (tty w)" "dims_y t = dims_y (tty w)" using assms(3) by (simp_all add: marked_def)
  have "grid_ok (buffer t) (dims_x t) (screen w)" using assms(1,2) d by (simp add: writer_ok_def grid_ok_def tty_ok_def)
  moreover have "shown (w\<lparr>tty := t\<rparr>) X Y" if "X div 8 < dims_x t" "Y div 16 < dims_y t" "\<not> dirty t (X div 8) (Y div 16)"
    "\<not> under_cursor (gop (screen w)) (mouse_pos w) X Y" for X Y
  proof -
    have "\<not> dirty (tty w) (X div 8) (Y div 16)" "buffer t ! (Y div 16) ! (X div 8) = buffer (tty w) ! (Y div 16) ! (X div 8)"
      using assms(3) that d by (simp_all add: marked_def)
    moreover from this that d assms(1) have "shown w X Y" by (simp add: writer_ok_def)
    ultimately show ?thesis by (simp add: shown_def cell_of_def)
  qed
  ultimately show ?thesis using assms(1,2) by (simp add: writer_ok_def)
qed

lemma write_str_ok: "writer_ok w \<Longrightarrow> \<exists>w'. write_str cs w = Some w' \<and> writer_ok w' \<and> gop (screen w') = gop (screen w)"
proof (induction cs arbitrary: w)
  case (Cons c cs)
  then have "tty_ok (tty w)" by (simp add: writer_ok_def)
  from write_char_ok [OF this] obtain t where t: "write_char c (tty w) = Some t" "tty_ok t" "marked (tty w) t" by blast
  from Cons.IH [OF writer_tty_change [OF Cons.prems t(2,3)]] t(1) show ?case by simp
qed simp

lemma cell_below: "X div 8 < n \<Longrightarrow> n * 8 \<le> (m :: nat) \<Longrightarrow> X < m"
  by (simp add: div_less_iff_less_mult)

lemma near_cells: "(u :: nat) - 1 \<le> q \<Longrightarrow> q \<le> u + 1 \<Longrightarrow> u - 1 \<le> q \<and> q < u - 1 + 3"
  by arith

lemma near_div: "(k :: nat) > 0 \<Longrightarrow> a - k \<le> x \<Longrightarrow> x < a + k \<Longrightarrow> a div k - 1 \<le> x div k \<and> x div k \<le> a div k + 1"
proof -
  assume k: "k > 0" and x: "a - k \<le> x" "x < a + k"
  have "a div k - 1 = (a - k) div k"
  proof (cases "a < k")
    case False
    then have "a div k = Suc ((a - k) div k)" using k by (intro le_div_geq) simp_all
    then show ?thesis by simp
  qed simp
  also have "\<dots> \<le> x div k" using x(1) by (rule div_le_mono)
  finally have "a div k - 1 \<le> x div k" .
  moreover have "x div k \<le> (a + k) div k" using x(2) by (intro div_le_mono) simp
  moreover have "(a + k) div k = a div k + 1" using k by (intro div_add_self2) simp
  ultimately show ?thesis by simp
qed

lemma cursor_cells:
  assumes "under_cursor g p X Y" "px p + 8 \<le> horizonal g" "py p + 16 \<le> vertical g"
  shows "px p div 8 - 1 \<le> X div 8 \<and> X div 8 < px p div 8 - 1 + 3 \<and> py p div 16 - 1 \<le> Y div 16 \<and> Y div 16 < py p div 16 - 1 + 3"
proof -
  have m: "min a (h - 16) \<le> X \<Longrightarrow> a + 8 \<le> h \<Longrightarrow> a - 8 \<le> X" "X < min a c + k \<Longrightarrow> X < a + k" for a h X c k :: nat by arith+
  have n: "min a (v - 16) \<le> Y \<Longrightarrow> a + 16 \<le> v \<Longrightarrow> a - 16 \<le> Y" for a v Y :: nat by arith
  have "px p - 8 \<le> X" "X < px p + 8" "py p - 16 \<le> Y" "Y < py p + 16"
    using assms m n unfolding under_cursor_def by blast+
  then have "px p div 8 - 1 \<le> X div 8 \<and> X div 8 \<le> px p div 8 + 1" "py p div 16 - 1 \<le> Y div 16 \<and> Y div 16 \<le> py p div 16 + 1"
    by (simp_all only: near_div zero_less_numeral)
  then show ?thesis using near_cells by blast
qed

lemma update_cursor_ok:
  assumes ok: "writer_ok w" and pos: "px pos + 8 \<le> horizonal (gop (screen w))" "py pos + 16 \<le> vertical (gop (screen w))"
  shows "\<exists>w'. update_cursor pos colour w = Some w' \<and> writer_ok w' \<and> gop (screen w') = gop (screen w)"
proof -
  define g where "g = gop (screen w)"
  define a where "a = px (mouse_pos w) div 8 - 1"
  define c where "c = py (mouse_pos w) div 16 - 1"
  define ls where "ls = take 3 (drop c (enumerate 0 (buffer (tty w))))"
  have grid: "grid_ok (buffer (tty w)) (dims_x (tty w)) (screen w)" and len: "length (buffer (tty w)) = dims_y (tty w)"
    and w8: "dims_x (tty w) * 8 \<le> stride g" using ok by (simp_all add: writer_ok_def tty_ok_def grid_ok_def g_def)
  have set_ls: "set ls = {(i, buffer (tty w) ! i) | i. c \<le> i \<and> i < c + 3 \<and> i < dims_y (tty w)}"
    using set_enumerate_slice [of c "c + 3" "buffer (tty w)"] by (simp add: ls_def take_drop add.commute len)
  then have "\<forall>(y, l) \<in> set ls. y < length (buffer (tty w)) \<and> l = buffer (tty w) ! y" by (auto simp: len)
  from reset_lines_pixel [OF grid this, of a] obtain s1 where s1: "reset_lines a ls (screen w) = Some s1" "same_frame (screen w) s1"
    and p1: "\<And>X Y. X < stride g \<Longrightarrow> pixel_at s1 X Y =
      (if Y div 16 \<in> fst ` set ls \<and> a \<le> X div 8 \<and> X div 8 < a + 3 \<and> X div 8 < dims_x (tty w) then cell_of (buffer (tty w)) (screen w) X Y else pixel_at (screen w) X Y)"
    by (auto simp: g_def)
  have g1: "gop s1 = g" using s1(2) by (simp add: same_frame_def g_def)
  from draw_cursor_pixel [of s1 pos colour] grid obtain s2 where s2: "draw_cursor pos colour MOUSE_POINTER s1 = Some s2" "same_frame s1 s2"
    and p2: "\<And>X Y. X < stride g \<Longrightarrow> \<not> under_cursor g pos X Y \<Longrightarrow> pixel_at s2 X Y = pixel_at s1 X Y"
    by (auto simp: g1 grid_ok_def g_def)
  have f: "same_frame (screen w) s2" using s1(2) s2(2) by (rule same_frame_trans)
  define w' where "w' = w\<lparr>screen := s2, mouse_pos := pos, mouse_colour := colour\<rparr>"
  have "update_cursor pos colour w = Some w'"
    using s1(1) s2(1) by (simp add: update_cursor_def w'_def a_def c_def ls_def CHAR_WIDTH_def CHAR_HEIGHT_def Let_def)
  moreover have "shown w' X Y" if h: "X div 8 < dims_x (tty w)" "Y div 16 < dims_y (tty w)" "\<not> dirty (tty w) (X div 8) (Y div 16)"
    "\<not> under_cursor g pos X Y" for X Y
  proof -
    have X: "X < stride g" using h(1) w8 by (rule cell_below)
    have "pixel_at s1 X Y = cell_of (buffer (tty w)) (screen w) X Y"
    proof (cases "under_cursor g (mouse_pos w) X Y")
      case True
      then have "a \<le> X div 8 \<and> X div 8 < a + 3 \<and> c \<le> Y div 16 \<and> Y div 16 < c + 3"
        using cursor_cells ok by (simp add: a_def c_def writer_ok_def g_def)
      moreover from this have "Y div 16 \<in> fst ` set ls" using h(2) unfolding set_ls by force
      ultimately show ?thesis using p1 [OF X, of Y] h(1) by simp
    next
      case False
      with ok h have "shown w X Y" by (simp add: writer_ok_def g_def)
      then show ?thesis using p1 [OF X, of Y] by (simp add: shown_def)
    qed
    then show ?thesis using p2 [OF X h(4)] same_frame_font [OF f] by (simp add: shown_def w'_def cell_of_def)
  qed
  moreover have g2: "gop s2 = g" using f by (simp add: same_frame_def g_def)
  ultimately show ?thesis using ok pos grid_ok_frame [OF f] by (auto simp: writer_ok_def w'_def g_def)
qed

lemma redraw_ok:
  assumes ok: "writer_ok w"
  shows "\<exists>w'. redraw_if_needed w = Some w' \<and> writer_ok w' \<and> gop (screen w') = gop (screen w) \<and> dirty_box (tty w') = None \<and>
    tty w' = (tty w)\<lparr>dirty_box := None\<rparr> \<and> mouse_pos w' = mouse_pos w"
proof (cases "dirty_box (tty w)")
  case None
  then show ?thesis using ok by (simp add: redraw_if_needed_def)
next
  case (Some b)
  define g where "g = gop (screen w)"
  define ls where "ls = drop (min_y b) (take (max_y b) (enumerate 0 (buffer (tty w))))"
  define cc where "cc = py (mouse_pos w) div 16 + 1"
  have grid: "grid_ok (buffer (tty w)) (dims_x (tty w)) (screen w)" and len: "length (buffer (tty w)) = dims_y (tty w)"
    and w8: "dims_x (tty w) * 8 \<le> stride g" using ok by (simp_all add: writer_ok_def tty_ok_def grid_ok_def g_def)
  have set_ls: "set ls = {(i, buffer (tty w) ! i) | i. min_y b \<le> i \<and> i < max_y b \<and> i < dims_y (tty w)}"
    unfolding ls_def set_enumerate_slice len ..
  then have "\<forall>(y, l) \<in> set ls. y < length (buffer (tty w)) \<and> l = buffer (tty w) ! y" by (auto simp: len)
  from redraw_lines_pixel [OF grid this, of b cc "mouse_pos w" "mouse_colour w"] obtain s1 where
    s1: "redraw_lines b cc (mouse_pos w) (mouse_colour w) ls (screen w) = Some s1" "same_frame (screen w) s1"
    and p1: "\<And>X Y. X < stride g \<Longrightarrow> \<not> under_cursor g (mouse_pos w) X Y \<Longrightarrow> pixel_at s1 X Y =
      (if Y div 16 \<in> fst ` set ls \<and> min_x b \<le> X div 8 \<and> X div 8 < max_x b \<and> X div 8 < dims_x (tty w)
       then cell_of (buffer (tty w)) (screen w) X Y else pixel_at (screen w) X Y)"
    by (auto simp: g_def)
  have g1: "gop s1 = g" using s1(2) by (simp add: same_frame_def g_def)
  from draw_cursor_pixel [of s1 "mouse_pos w" "mouse_colour w"] grid obtain s2 where
    s2: "draw_cursor (mouse_pos w) (mouse_colour w) MOUSE_POINTER s1 = Some s2" "same_frame s1 s2"
    and p2: "\<And>X Y. X < stride g \<Longrightarrow> \<not> under_cursor g (mouse_pos w) X Y \<Longrightarrow> pixel_at s2 X Y = pixel_at s1 X Y"
    by (auto simp: g1 grid_ok_def g_def)
  have f: "same_frame (screen w) s2" using s1(2) s2(2) by (rule same_frame_trans)
  define w' where "w' = w\<lparr>screen := s2, tty := (tty w)\<lparr>dirty_box := None\<rparr>\<rparr>"
  have "redraw_if_needed w = Some w'"
    using s1(1) s2(1) by (simp add: redraw_if_needed_def Some w'_def ls_def cc_def CHAR_HEIGHT_def Let_def)
  moreover have "shown w' X Y" if h: "X div 8 < dims_x (tty w)" "Y div 16 < dims_y (tty w)" "\<not> under_cursor g (mouse_pos w) X Y" for X Y
  proof -
    have X: "X < stride g" using h(1) w8 by (rule cell_below)
    have "pixel_at s1 X Y = cell_of (buffer (tty w)) (screen w) X Y"
    proof (cases "dirty (tty w) (X div 8) (Y div 16)")
      case True
      then have "min_x b \<le> X div 8 \<and> X div 8 < max_x b \<and> min_y b \<le> Y div 16 \<and> Y div 16 < max_y b" by (simp add: dirty_def Some)
      moreover from this have "Y div 16 \<in> fst ` set ls" using h(2) unfolding set_ls by force
      ultimately show ?thesis using p1 [OF X h(3)] h(1) by simp
    next
      case False
      with ok h have "shown w X Y" by (simp add: writer_ok_def g_def)
      then show ?thesis using p1 [OF X h(3)] by (simp add: shown_def)
    qed
    then show ?thesis using p2 [OF X h(3)] same_frame_font [OF f] by (simp add: shown_def w'_def cell_of_def)
  qed
  moreover have g2: "gop s2 = g" using f by (simp add: same_frame_def g_def)
  ultimately show ?thesis using ok grid_ok_frame [OF f] by (auto simp: writer_ok_def w'_def g_def tty_ok_def)
qed

text \<open>What the tasks of the screen do, one step at a time and in any order.\<close>

datatype screen_op = Print "codepoint list" | ClearScreen | ResetScreen u32 | SetFg u32 | MoveMouse MousePacket | Redraw

primrec screen_step :: "screen_op \<Rightarrow> Pos \<times> Writer \<Rightarrow> (Pos \<times> Writer) option" where
  "screen_step (Print cs) g = map_option (Pair (fst g)) (write_str cs (snd g))"
| "screen_step ClearScreen g = Some (fst g, writer_clear (snd g))"
| "screen_step (ResetScreen c) g = Some (fst g, reset_screen c (snd g))"
| "screen_step (SetFg c) g = Some (fst g, (snd g)\<lparr>tty := snd (set_fg_colour c (tty (snd g)))\<rparr>)"
| "screen_step (MoveMouse m) g = monitor_cursor_step (MouseEvent m) g"
| "screen_step Redraw g = map_option (Pair (fst g)) (redraw_if_needed (snd g))"

primrec screen_run :: "screen_op list \<Rightarrow> Pos \<times> Writer \<Rightarrow> (Pos \<times> Writer) option" where
  "screen_run [] g = Some g"
| "screen_run (x # xs) g = do { g' \<leftarrow> screen_step x g; screen_run xs g' }"

lemma reset_screen_ok:
  assumes "writer_ok w"
  shows "writer_ok (reset_screen c w) \<and> gop (screen (reset_screen c w)) = gop (screen w)"
proof -
  define t where "t = (tty_clear ((tty w)\<lparr>bg_color := c\<rparr>))\<lparr>pos_x := 0, pos_y := 0\<rparr>"
  have eq: "reset_screen c w = w\<lparr>tty := t\<rparr>" by (simp add: reset_screen_def writer_clear_def t_def Let_def)
  have "tty_ok (tty w)" using assms by (simp add: writer_ok_def)
  then have "tty_ok t" by (auto simp: t_def tty_ok_def tty_clear_def set_complete_dirty_def)
  moreover have "marked (tty w) t"
    by (simp add: t_def tty_clear_def marked_def dirty_def set_complete_dirty_def from_max_def)
  ultimately show ?thesis using writer_tty_change [OF assms] by (simp add: eq)
qed

lemma print_cursor_ok:
  assumes "writer_ok w"
  shows "\<exists>p w'. print_cursor pos m w = Some (p, w') \<and> writer_ok w' \<and> gop (screen w') = gop (screen w)"
proof -
  define h where "h = horizonal (gop (screen w))"
  define v where "v = vertical (gop (screen w))"
  have hv: "16 \<le> h" "16 \<le> v" using assms by (simp_all add: writer_ok_def grid_ok_def h_def v_def)
  define p where "p = \<lparr>px = (if saturating_add_signed (px pos) (x_mov m) > h - 8 then h - 8 else saturating_add_signed (px pos) (x_mov m)),
    py = (if saturating_add_signed (py pos) (y_mov m) > v - 16 then v - 16 else saturating_add_signed (py pos) (y_mov m))\<rparr>"
  have b: "px p + 8 \<le> h" "py p + 16 \<le> v" using hv by (auto simp: p_def)
  have "print_cursor pos m w = do { w' \<leftarrow> update_cursor p (button_colour m) w; Some (p, w') }"
    using hv by (simp add: print_cursor_def sub_usize_def h_def v_def p_def Let_def)
  then show ?thesis using update_cursor_ok [OF assms, of p "button_colour m"] b by (auto simp: h_def v_def)
qed

lemma screen_step_ok:
  assumes "writer_ok w"
  shows "\<exists>p' w'. screen_step x (p, w) = Some (p', w') \<and> writer_ok w' \<and> gop (screen w') = gop (screen w)"
proof (cases x)
  case (Print cs)
  then show ?thesis using write_str_ok [OF assms, of cs] by auto
next
  case ClearScreen
  have "tty_ok (tty w)" using assms by (simp add: writer_ok_def)
  from tty_clear_ok [OF this] show ?thesis using writer_tty_change [OF assms] by (simp add: ClearScreen writer_clear_def)
next
  case (ResetScreen c)
  then show ?thesis using reset_screen_ok [OF assms] by simp
next
  case (SetFg c)
  have "tty_ok ((tty w)\<lparr>fg_color := c\<rparr>)" "marked (tty w) ((tty w)\<lparr>fg_color := c\<rparr>)"
    using assms by (simp_all add: writer_ok_def tty_ok_def marked_def dirty_def)
  from writer_tty_change [OF assms this] show ?thesis by (simp add: SetFg set_fg_colour_def)
next
  case (MoveMouse m)
  then show ?thesis using print_cursor_ok [OF assms, of p m] by (simp add: monitor_cursor_step_def)
next
  case Redraw
  then show ?thesis using redraw_ok [OF assms] by auto
qed

lemma screen_run_ok:
  "writer_ok w \<Longrightarrow> \<exists>p' w'. screen_run xs (p, w) = Some (p', w') \<and> writer_ok w' \<and> gop (screen w') = gop (screen w)"
proof (induction xs arbitrary: p w)
  case (Cons x xs)
  from screen_step_ok [OF Cons.prems, of x p] obtain p1 w1 where s: "screen_step x (p, w) = Some (p1, w1)" "writer_ok w1"
    "gop (screen w1) = gop (screen w)" by blast
  from Cons.IH [OF s(2), of p1] s show ?case by simp
qed simp

definition screen_fits :: "GopInfo \<Rightarrow> bool" where
  "screen_fits g \<longleftrightarrow> 16 \<le> horizonal g \<and> 16 \<le> vertical g \<and> horizonal g \<le> stride g \<and> vertical g div 16 \<le> horizonal g div 8"

lemma writer_new_ok:
  assumes "screen_fits g" "writer_new g f start = Some w" "font_ok (screen w)"
  shows "writer_ok w \<and> gop (screen w) = g"
proof -
  from assms(2) obtain table where w: "w = \<lparr>screen = \<lparr>gop = g, font = f, unicode_table = table, pixels = start\<rparr>,
      tty = tty_new (horizonal g div 8) (vertical g div 16), mouse_pos = \<lparr>px = 0, py = 0\<rparr>, mouse_colour = 0xFFFFFF\<rparr>"
    by (auto simp: writer_new_def bind_eq_Some_conv CHAR_WIDTH_def CHAR_HEIGHT_def)
  have pos: "0 < horizonal g div 8" "0 < vertical g div 16" "horizonal g div 8 * 8 \<le> horizonal g"
    using assms(1) by (simp_all add: screen_fits_def div_greater_zero_iff)
  have "tty_ok (tty w)" using assms(1) pos by (simp add: w tty_new_def tty_ok_def screen_fits_def)
  moreover have "grid_ok (buffer (tty w)) (dims_x (tty w)) (screen w)"
    using assms le_trans [OF pos(3)] by (simp add: w tty_new_def grid_ok_def screen_fits_def)
  moreover have "dirty (tty w) x y" if "x < dims_x (tty w)" "y < dims_y (tty w)" for x y
    using that by (simp add: w tty_new_def dirty_def from_max_def)
  ultimately show ?thesis using assms(1) by (auto simp: writer_ok_def w screen_fits_def)
qed

text \<open>
  C11. What is on the screen is what is in the text buffer.  Take a screen of at least 16 by 16 pixels
  that is at least as many cells wide as high, with a font that has a glyph for every entry of its
  table.  Let any text be printed, the screen be cleared, the colours be changed, the mouse be moved
  and the screen be redrawn, in any order.  None of it panics, and after a redraw, which repaints only
  the dirty box, every pixel of every cell has the colour that the buffer asks for, except under the
  mouse cursor.  So the dirty box misses no change, and moving the cursor leaves no traces.
\<close>

theorem redraw_shows_buffer:
  assumes "screen_fits g" "writer_new g f start = Some w0" "font_ok (screen w0)"
  shows "\<exists>p w w'. screen_run ops (\<lparr>px = 0, py = 0\<rparr>, w0) = Some (p, w) \<and> redraw_if_needed w = Some w' \<and>
    buffer (tty w') = buffer (tty w) \<and>
    (\<forall>x y ix iy. x < dims_x (tty w) \<longrightarrow> y < dims_y (tty w) \<longrightarrow> ix < 8 \<longrightarrow> iy < 16 \<longrightarrow>
      \<not> under_cursor g (mouse_pos w') (x * 8 + ix) (y * 16 + iy) \<longrightarrow>
      pixel_at (screen w') (x * 8 + ix) (y * 16 + iy) = cell_colour (screen w') (buffer (tty w) ! y ! x) ix iy)"
proof -
  note new = writer_new_ok [OF assms]
  from screen_run_ok [of w0 ops "\<lparr>px = 0, py = 0\<rparr>"] new obtain p w where
    run: "screen_run ops (\<lparr>px = 0, py = 0\<rparr>, w0) = Some (p, w)" "writer_ok w" "gop (screen w) = g" by auto
  from redraw_ok [OF run(2)] obtain w' where r: "redraw_if_needed w = Some w'" "writer_ok w'" "gop (screen w') = g"
    "tty w' = (tty w)\<lparr>dirty_box := None\<rparr>" using run(3) by auto
  have "pixel_at (screen w') (x * 8 + ix) (y * 16 + iy) = cell_colour (screen w') (buffer (tty w) ! y ! x) ix iy"
    if h: "x < dims_x (tty w)" "y < dims_y (tty w)" "ix < 8" "iy < 16" "\<not> under_cursor g (mouse_pos w') (x * 8 + ix) (y * 16 + iy)" for x y ix iy
  proof -
    have "shown w' (x * 8 + ix) (y * 16 + iy)" using r h by (simp add: writer_ok_def dirty_def)
    then show ?thesis using h by (simp add: shown_def cell_of_def r(4))
  qed
  then show ?thesis using run(1) r(1,4) by (intro exI [of _ p] exI [of _ w] exI [of _ w']) simp
qed

theorem redraw_shows_buffer_witness:
  "\<exists>w0 p w w'. writer_new \<lparr>horizonal = 16, vertical = 16, stride = 16\<rparr>
       \<lparr>psf1_header = \<lparr>magic = PSF1_MAGIC, mode_512 = 0, charsize = 16\<rparr>, glyph_buffer = replicate 16 0xFF, unicode_buffer = []\<rparr> (\<lambda>_. 0) = Some w0 \<and>
     screen_run [Print [65, 66], MoveMouse \<lparr>left = False, right = False, middle = False, x_mov = 3, y_mov = 0\<rparr>] (\<lparr>px = 0, py = 0\<rparr>, w0) = Some (p, w) \<and>
     redraw_if_needed w = Some w' \<and> buffer (tty w') = buffer (tty w)"
proof -
  define g where "g = \<lparr>horizonal = 16, vertical = 16, stride = 16\<rparr>"
  define f where "f = \<lparr>psf1_header = \<lparr>magic = PSF1_MAGIC, mode_512 = 0, charsize = 16\<rparr>, glyph_buffer = replicate 16 0xFF, unicode_buffer = []\<rparr>"
  have fits: "screen_fits g" by (simp add: screen_fits_def g_def)
  obtain w0 where w0: "writer_new g f (\<lambda>_. 0) = Some w0" by (simp add: writer_new_def f_def)
  then have "font_ok (screen w0)" by (auto simp: writer_new_def f_def font_ok_def)
  from redraw_shows_buffer [OF fits w0 this] w0 show ?thesis unfolding g_def f_def by blast
qed

end
