(* ===== verification/Bytes.thy ===== *)
theory Bytes
  imports Prelude
begin

text \<open>
  Packed little-endian data: numbers as byte strings, fields of a packed structure, and values that
  have to fit into a field of a given width.
\<close>

definition chk :: "nat \<Rightarrow> nat \<Rightarrow> nat option" where
  "chk w x = (if x < 2 ^ w then Some x else None)"

primrec le_bytes :: "u8 list \<Rightarrow> nat" where
  "le_bytes [] = 0"
| "le_bytes (b # bs) = unat b + 256 * le_bytes bs"

definition field :: "nat \<Rightarrow> nat \<Rightarrow> u8 list \<Rightarrow> nat" where
  "field offset len buf = le_bytes (take len (drop offset buf))"

primrec to_le :: "nat \<Rightarrow> nat \<Rightarrow> u8 list" where
  "to_le 0 v = []"
| "to_le (Suc n) v = of_nat (v mod 256) # to_le n (v div 256)"

text \<open>\<open>u16::to_be\<close> on a little-endian machine.\<close>

definition to_be16 :: "u16 \<Rightarrow> u16" where
  "to_be16 w = push_bit 8 w OR drop_bit 8 w"

lemma length_to_le [simp]: "length (to_le n v) = n"
  by (induction n arbitrary: v) simp_all

lemma le_bytes_to_le: "le_bytes (to_le n v) = v mod 256 ^ n"
proof (induction n arbitrary: v)
  case (Suc n)
  have "unat (of_nat (v mod 256) :: u8) = v mod 256" by (simp add: unat_of_nat)
  then show ?case using Suc by (simp add: mod_mult2_eq add.commute)
qed simp

lemma field_first: "length bs = n \<Longrightarrow> field 0 n (bs @ rest) = le_bytes bs"
  by (simp add: field_def)

lemma field_skip: "length bs \<le> k \<Longrightarrow> field k n (bs @ rest) = field (k - length bs) n rest"
  by (simp add: field_def)

lemma field_to_le: "v < 256 ^ n \<Longrightarrow> field 0 n (to_le n v @ rest) = v" "v < 256 ^ n \<Longrightarrow> field 0 n (to_le n v) = v"
  by (simp_all add: field_def le_bytes_to_le)

lemma le_bytes_less: "le_bytes bs < 256 ^ length bs"
proof (induction bs)
  case (Cons b bs)
  have "unat b < 256" using unsigned_less [of b] by simp
  then show ?case using Cons by (simp add: algebra_simps)
qed simp

lemma field_less: "field k n buf < 256 ^ n"
proof -
  have "le_bytes (take n (drop k buf)) < 256 ^ length (take n (drop k buf))" by (rule le_bytes_less)
  also have "\<dots> \<le> 256 ^ n" by (intro power_increasing) simp_all
  finally show ?thesis by (simp add: field_def)
qed

end
