(* ===== verification/Fat.thy ===== *)
theory Fat
  imports Bytes
begin

text \<open>
  The FAT file system: \<open>kernel/src/fs/fat.rs\<close>, \<open>kernel/src/fs/mbr.rs\<close> and the partition window of
  \<open>kernel/src/fs/mod.rs\<close>.  The disk is what a read of a sector delivers, 512 bytes.  Strings are
  lists of code points.  \<open>u16\<close> and \<open>u32\<close> arithmetic is checked with \<open>chk\<close>.
\<close>

subsection \<open>Strings\<close>

type_synonym str = "nat list"

definition REPLACEMENT_CHARACTER :: nat where
  "REPLACEMENT_CHARACTER = 0xFFFD"

text \<open>\<open>char::decode_utf16\<close> with every unpaired surrogate replaced.\<close>

fun decode_utf16 :: "nat list \<Rightarrow> str" where
  "decode_utf16 [] = []"
| "decode_utf16 [u] = [if 0xD800 \<le> u \<and> u \<le> 0xDFFF then REPLACEMENT_CHARACTER else u]"
| "decode_utf16 (u # v # us) =
     (if 0xD800 \<le> u \<and> u \<le> 0xDBFF \<and> 0xDC00 \<le> v \<and> v \<le> 0xDFFF
      then (0x10000 + (u - 0xD800) * 1024 + (v - 0xDC00)) # decode_utf16 us
      else (if 0xD800 \<le> u \<and> u \<le> 0xDFFF then REPLACEMENT_CHARACTER else u) # decode_utf16 (v # us))"

text \<open>
  \<open>String::from_utf8_lossy\<close>: the length and value of the first character, or of the longest prefix
  of one, which becomes one replacement character.
\<close>

definition cont_byte :: "nat \<Rightarrow> bool" where
  "cont_byte b \<longleftrightarrow> 0x80 \<le> b \<and> b \<le> 0xBF"

definition second_ok :: "nat \<Rightarrow> nat \<Rightarrow> bool" where
  "second_ok a b \<longleftrightarrow>
     (if a = 0xE0 then 0xA0 \<le> b \<and> b \<le> 0xBF
      else if a = 0xED then 0x80 \<le> b \<and> b \<le> 0x9F
      else if a = 0xF0 then 0x90 \<le> b \<and> b \<le> 0xBF
      else if a = 0xF4 then 0x80 \<le> b \<and> b \<le> 0x8F
      else cont_byte b)"

fun utf8_char :: "nat list \<Rightarrow> nat \<times> nat" where
  "utf8_char [] = (0, REPLACEMENT_CHARACTER)"
| "utf8_char (a # bs) =
     (if a < 0x80 then (1, a)
      else if a < 0xC2 \<or> 0xF4 < a then (1, REPLACEMENT_CHARACTER)
      else case bs of
        [] \<Rightarrow> (1, REPLACEMENT_CHARACTER)
      | b # bs2 \<Rightarrow>
          if \<not> second_ok a b then (1, REPLACEMENT_CHARACTER)
          else if a < 0xE0 then (2, (a - 0xC0) * 64 + (b - 0x80))
          else case bs2 of
            [] \<Rightarrow> (2, REPLACEMENT_CHARACTER)
          | c # bs3 \<Rightarrow>
              if \<not> cont_byte c then (2, REPLACEMENT_CHARACTER)
              else if a < 0xF0 then (3, (a - 0xE0) * 4096 + (b - 0x80) * 64 + (c - 0x80))
              else case bs3 of
                [] \<Rightarrow> (3, REPLACEMENT_CHARACTER)
              | d # _ \<Rightarrow>
                  if \<not> cont_byte d then (3, REPLACEMENT_CHARACTER)
                  else (4, (a - 0xF0) * 262144 + (b - 0x80) * 4096 + (c - 0x80) * 64 + (d - 0x80)))"

lemma utf8_char_pos: "bs \<noteq> [] \<Longrightarrow> 0 < fst (utf8_char bs)"
  by (cases bs) (auto split: list.splits)

function from_utf8_lossy :: "nat list \<Rightarrow> str" where
  "from_utf8_lossy bs =
     (if bs = [] then [] else snd (utf8_char bs) # from_utf8_lossy (drop (fst (utf8_char bs)) bs))"
  by pat_completeness auto
termination
  by (relation "measure length") (auto simp: utf8_char_pos)

declare from_utf8_lossy.simps [simp del]

definition is_whitespace :: "nat \<Rightarrow> bool" where
  "is_whitespace c \<longleftrightarrow> 9 \<le> c \<and> c \<le> 13 \<or> 0x2000 \<le> c \<and> c \<le> 0x200A \<or>
     c \<in> {32, 0x85, 0xA0, 0x1680, 0x2028, 0x2029, 0x202F, 0x205F, 0x3000}"

definition trim :: "str \<Rightarrow> str" where
  "trim s = rev (dropWhile is_whitespace (rev (dropWhile is_whitespace s)))"

text \<open>The order of \<open>String\<close>, and a \<open>BTreeMap\<close> with strings as keys as its sorted list of entries.\<close>

fun str_less :: "str \<Rightarrow> str \<Rightarrow> bool" where
  "str_less _ [] = False"
| "str_less [] (_ # _) = True"
| "str_less (a # as) (b # bs) = (a < b \<or> a = b \<and> str_less as bs)"

type_synonym 'v strmap = "(str \<times> 'v) list"

fun strmap_insert :: "str \<Rightarrow> 'v \<Rightarrow> 'v strmap \<Rightarrow> 'v strmap" where
  "strmap_insert k v [] = [(k, v)]"
| "strmap_insert k v ((k', v') # m) =
     (if k = k' then (k, v) # m
      else if str_less k k' then (k, v) # (k', v') # m
      else (k', v') # strmap_insert k v m)"

subsection \<open>The disk\<close>

text \<open>A partition of a disk whose sectors are given.\<close>

record FSPartitionDisk =
  backing_disk :: "nat \<Rightarrow> u8 list"
  partition_offset :: nat
  partition_length :: nat

definition disk_read :: "FSPartitionDisk \<Rightarrow> nat \<Rightarrow> nat \<Rightarrow> u8 list option" where
  "disk_read d sector sector_count = do {
     stop \<leftarrow> add_usize sector sector_count;
     rassert (stop \<le> partition_length d);
     first \<leftarrow> add_usize sector (partition_offset d);
     Some (concat (map (backing_disk d) [first ..< first + sector_count]))
   }"

subsection \<open>Structures on the disk\<close>

record BiosParameterBlock =
  bytes_per_sector :: nat
  sectors_per_cluster :: nat
  reserved_sectors :: nat
  fat_copies :: nat
  root_dir_entries :: nat
  total_sectors :: nat
  fat_sector_cnt :: nat
  total_sectors_ext :: nat

definition read_bpb :: "u8 list \<Rightarrow> BiosParameterBlock" where
  "read_bpb buf =
     \<lparr>bytes_per_sector = field 11 2 buf, sectors_per_cluster = field 13 1 buf, reserved_sectors = field 14 2 buf,
      fat_copies = field 16 1 buf, root_dir_entries = field 17 2 buf, total_sectors = field 19 2 buf,
      fat_sector_cnt = field 22 2 buf, total_sectors_ext = field 32 4 buf\<rparr>"

datatype FatExtendedBootRecord = FAT16 | FAT32 (sectors_per_fat: nat) (root_cluster: nat)

definition read_fat32_ext :: "u8 list \<Rightarrow> FatExtendedBootRecord" where
  "read_fat32_ext buf = FAT32 (field 36 4 buf) (field 44 4 buf)"

record DirectoryEntry =
  de_name :: "u8 list"
  de_ext :: "u8 list"
  attributes :: u8
  first_cluster_hi :: nat
  first_cluster_low :: nat
  de_size :: nat
  lfn_chars :: "nat list"

text \<open>An entry of 32 bytes; \<open>lfn_chars\<close> is its reading as a \<open>LongFileName\<close>.\<close>

definition read_entry :: "u8 list \<Rightarrow> DirectoryEntry" where
  "read_entry b =
     \<lparr>de_name = take 8 b, de_ext = take 3 (drop 8 b), attributes = b ! 11, first_cluster_hi = field 20 2 b,
      first_cluster_low = field 26 2 b, de_size = field 28 4 b,
      lfn_chars = map (\<lambda>i. field i 2 b) [1, 3, 5, 7, 9, 14, 16, 18, 20, 22, 24, 28, 30]\<rparr>"

definition read_entries :: "nat \<Rightarrow> u8 list \<Rightarrow> DirectoryEntry list" where
  "read_entries n buf = map (\<lambda>i. read_entry (take 32 (drop (32 * i) buf))) [0 ..< n]"

datatype FATFileType = Folder "nat strmap option" | File nat

record FATFile =
  cluster :: nat
  entry_type :: FATFileType

record FAT =
  fat_partition_id :: nat
  bpb :: BiosParameterBlock
  fat_ebr :: FatExtendedBootRecord
  disk :: FSPartitionDisk
  file_id_lookup :: "nat \<Rightarrow> FATFile option"
  cluster_chain_buffer :: "nat \<Rightarrow> u8 list option"

subsection \<open>Where clusters are\<close>

definition root_dir_sectors :: "FAT \<Rightarrow> nat option" where
  "root_dir_sectors f =
     (case fat_ebr f of
        FAT16 \<Rightarrow> do {
          a \<leftarrow> chk 16 (root_dir_entries (bpb f) * 32);
          b \<leftarrow> chk 16 (a + bytes_per_sector (bpb f));
          c \<leftarrow> sub_usize b 1;
          div_usize c (bytes_per_sector (bpb f))
        }
      | FAT32 _ _ \<Rightarrow> Some 0)"

definition first_data_sector :: "FAT \<Rightarrow> nat option" where
  "first_data_sector f =
     (case fat_ebr f of
        FAT16 \<Rightarrow> do {
          a \<leftarrow> chk 32 (fat_sector_cnt (bpb f) * fat_copies (bpb f));
          b \<leftarrow> chk 32 (reserved_sectors (bpb f) + a);
          r \<leftarrow> root_dir_sectors f;
          chk 32 (b + r)
        }
      | FAT32 spf _ \<Rightarrow> do {
          a \<leftarrow> chk 32 (spf * fat_copies (bpb f));
          chk 32 (reserved_sectors (bpb f) + a)
        })"

definition get_start_sector_of_cluster :: "FAT \<Rightarrow> nat \<Rightarrow> nat option" where
  "get_start_sector_of_cluster f c = do {
     rassert (c \<ge> 2);
     a \<leftarrow> chk 32 ((c - 2) * sectors_per_cluster (bpb f));
     d \<leftarrow> first_data_sector f;
     chk 32 (a + d)
   }"

definition get_root_directory_sector :: "FAT \<Rightarrow> nat option" where
  "get_root_directory_sector f =
     (case fat_ebr f of
        FAT16 \<Rightarrow> do { d \<leftarrow> first_data_sector f; r \<leftarrow> root_dir_sectors f; sub_usize d r }
      | FAT32 _ root \<Rightarrow> get_start_sector_of_cluster f root)"

definition fat_size :: "FAT \<Rightarrow> nat" where
  "fat_size f = (case fat_ebr f of FAT16 \<Rightarrow> 2 | FAT32 _ _ \<Rightarrow> 4)"

text \<open>The entry of the allocation table, through the buffer of its sectors.\<close>

definition get_next_cluster :: "FAT \<Rightarrow> nat \<Rightarrow> (nat \<times> FAT) option" where
  "get_next_cluster f c = do {
     off \<leftarrow> chk 32 (c div (512 div fat_size f) + reserved_sectors (bpb f));
     (buf, f1) \<leftarrow> (case cluster_chain_buffer f off of
         Some b \<Rightarrow> Some (b, f)
       | None \<Rightarrow> do {
           b \<leftarrow> disk_read (disk f) off 1;
           Some (b, f\<lparr>cluster_chain_buffer := (cluster_chain_buffer f)(off := Some b)\<rparr>)
         });
     Some (field (c mod (512 div fat_size f) * fat_size f) (fat_size f) buf, f1)
   }"

subsection \<open>Directories\<close>

definition lfn_name :: "DirectoryEntry \<Rightarrow> str" where
  "lfn_name e = decode_utf16 (takeWhile (\<lambda>b. b \<noteq> 0) (lfn_chars e))"

definition is_folder :: "DirectoryEntry \<Rightarrow> bool" where
  "is_folder e \<longleftrightarrow> attributes e AND 0x10 \<noteq> 0"

definition short_name :: "DirectoryEntry \<Rightarrow> str" where
  "short_name e =
     (let name = trim (from_utf8_lossy (map unat (de_name e)));
          ext = trim (from_utf8_lossy (map unat (de_ext e))) in
      if \<not> is_folder e \<and> ext \<noteq> [] then name @ [46] @ ext else name)"

definition entry_cluster :: "DirectoryEntry \<Rightarrow> nat" where
  "entry_cluster e = unat ((push_bit 8 (of_nat (first_cluster_hi e)) OR of_nat (first_cluster_low e)) :: u32)"

definition entry_file :: "DirectoryEntry \<Rightarrow> FATFile" where
  "entry_file e = \<lparr>cluster = entry_cluster e, entry_type = (if is_folder e then Folder None else File (de_size e))\<rparr>"

text \<open>\<open>ids\<close> is the counter of \<open>next_file_id\<close>, which all partitions share.\<close>

primrec parse_entries ::
  "DirectoryEntry list \<Rightarrow> nat strmap \<Rightarrow> str \<Rightarrow> nat \<Rightarrow> (nat \<Rightarrow> FATFile option) \<Rightarrow>
   bool \<times> nat strmap \<times> str \<times> nat \<times> (nat \<Rightarrow> FATFile option)" where
  "parse_entries [] dir lfn ids lookup = (False, dir, lfn, ids, lookup)"
| "parse_entries (e # es) dir lfn ids lookup =
     (if de_name e ! 0 = 0 then (True, dir, lfn, ids, lookup)
      else if de_name e ! 0 = 0xE5 then parse_entries es dir lfn ids lookup
      else if attributes e = 0x0F then parse_entries es dir (lfn_name e @ lfn) ids lookup
      else
        let name = (if lfn = [] then short_name e else lfn) in
        if name = [46] \<or> name = [46, 46] then parse_entries es dir [] ids lookup
        else parse_entries es (strmap_insert name ids dir) [] (ids + 1) (lookup(ids := Some (entry_file e))))"

text \<open>
  The loop over the clusters of a directory.  It ends at an entry that starts with zero or at a
  cluster number of zero; the marks for the end of a chain are not among its exits.
\<close>

partial_function (option) read_directory_loop ::
  "nat \<Rightarrow> nat strmap \<Rightarrow> str \<Rightarrow> FAT \<Rightarrow> nat \<Rightarrow> (nat strmap \<times> FAT \<times> nat) option" where
  "read_directory_loop c entries lfn f ids =
     (if c = 0 then Some (entries, f, ids)
      else do {
        sector \<leftarrow> get_start_sector_of_cluster f c;
        buffer \<leftarrow> disk_read (disk f) sector (sectors_per_cluster (bpb f));
        let r = parse_entries (read_entries (16 * sectors_per_cluster (bpb f)) buffer) entries lfn ids (file_id_lookup f);
        let f1 = f\<lparr>file_id_lookup := snd (snd (snd (snd r)))\<rparr>;
        let ids1 = fst (snd (snd (snd r)));
        if fst r then Some (fst (snd r), f1, ids1)
        else do {
          (c', f2) \<leftarrow> get_next_cluster f1 c;
          read_directory_loop c' (fst (snd r)) (fst (snd (snd r))) f2 ids1
        }
      })"

definition read_directory :: "nat \<Rightarrow> FAT \<Rightarrow> nat \<Rightarrow> (nat strmap \<times> FAT \<times> nat) option" where
  "read_directory c f ids = read_directory_loop c [] [] f ids"

text \<open>The root directory of a FAT16 volume is a range of sectors.\<close>

primrec read_root_sectors ::
  "nat list \<Rightarrow> nat strmap \<Rightarrow> str \<Rightarrow> FAT \<Rightarrow> nat \<Rightarrow> (nat strmap \<times> FAT \<times> nat) option" where
  "read_root_sectors [] entries lfn f ids = Some (entries, f, ids)"
| "read_root_sectors (s # ss) entries lfn f ids = do {
     buffer \<leftarrow> disk_read (disk f) s 1;
     let r = parse_entries (read_entries 16 buffer) entries lfn ids (file_id_lookup f);
     let f1 = f\<lparr>file_id_lookup := snd (snd (snd (snd r)))\<rparr>;
     if fst r then Some (fst (snd r), f1, fst (snd (snd (snd r))))
     else read_root_sectors ss (fst (snd r)) (fst (snd (snd r))) f1 (fst (snd (snd (snd r))))
   }"

definition enumerate_root :: "FAT \<Rightarrow> nat \<Rightarrow> (FAT \<times> nat) option" where
  "enumerate_root f ids = do {
     rassert (file_id_lookup f 0 = None);
     (children, f1, ids1) \<leftarrow> (case fat_ebr f of
         FAT32 _ root \<Rightarrow> read_directory root f ids
       | FAT16 \<Rightarrow> do {
           d \<leftarrow> first_data_sector f;
           r \<leftarrow> root_dir_sectors f;
           first \<leftarrow> sub_usize d r;
           read_root_sectors [first ..< d] [] [] f ids
         });
     Some (f1\<lparr>file_id_lookup := (file_id_lookup f1)(0 := Some \<lparr>cluster = 0, entry_type = Folder (Some children)\<rparr>)\<rparr>, ids1)
   }"

definition read_bios_block :: "nat \<Rightarrow> FSPartitionDisk \<Rightarrow> nat \<Rightarrow> (FAT \<times> nat) option" where
  "read_bios_block pid d ids = do {
     buffer \<leftarrow> disk_read d 0 1;
     let b = read_bpb buffer;
     n0 \<leftarrow> div_usize (total_sectors b) (sectors_per_cluster b);
     n \<leftarrow> (if n0 = 0 then div_usize (total_sectors_ext b) (sectors_per_cluster b) else Some n0);
     rassert (\<not> n < 4085);
     let ebr = (if n < 65535 then FAT16 else read_fat32_ext buffer);
     enumerate_root \<lparr>fat_partition_id = pid, bpb = b, fat_ebr = ebr, disk = d, file_id_lookup = (\<lambda>_. None),
       cluster_chain_buffer = (\<lambda>_. None)\<rparr> ids
   }"

subsection \<open>Files\<close>

datatype FSServiceError = NoSuchPartition nat | CouldNotFollowPath | FileNotFound | InvalidRequestForFileType

datatype VFileSpecialized = VFolder "(nat \<times> nat) strmap" | VFile_File nat

record VFile =
  vf_location :: "nat \<times> nat"
  specialized :: VFileSpecialized

definition fat_get_file_by_id :: "nat \<Rightarrow> FAT \<Rightarrow> nat \<Rightarrow> ((FSServiceError + VFile) \<times> FAT \<times> nat) option" where
  "fat_get_file_by_id file_id f ids =
     (case file_id_lookup f file_id of
        None \<Rightarrow> Some (Inl FileNotFound, f, ids)
      | Some fat_file \<Rightarrow>
          (case entry_type fat_file of
             File n \<Rightarrow> Some (Inr \<lparr>vf_location = (fat_partition_id f, file_id), specialized = VFile_File n\<rparr>, f, ids)
           | Folder (Some cs) \<Rightarrow>
               Some (Inr \<lparr>vf_location = (fat_partition_id f, file_id),
                 specialized = VFolder (map (\<lambda>(a, b). (a, (fat_partition_id f, b))) cs)\<rparr>, f, ids)
           | Folder None \<Rightarrow> do {
               (cs, f1, ids1) \<leftarrow> read_directory (cluster fat_file) f ids;
               Some (Inr \<lparr>vf_location = (fat_partition_id f, file_id),
                   specialized = VFolder (map (\<lambda>(a, b). (a, (fat_partition_id f, b))) cs)\<rparr>,
                 f1\<lparr>file_id_lookup := (file_id_lookup f1)(file_id := Some fat_file)\<rparr>, ids1)
             }))"

text \<open>The first loop of \<open>read_file\<close>: runs of consecutive sectors.\<close>

definition push_run :: "nat \<Rightarrow> nat \<Rightarrow> (nat \<times> nat) list \<Rightarrow> (nat \<times> nat) list option" where
  "push_run file_sector read_amount runs =
     (if runs = [] then Some [(file_sector, read_amount)]
      else do {
        stop \<leftarrow> chk 32 (fst (last runs) + snd (last runs));
        if stop = file_sector then do {
          n \<leftarrow> chk 32 (snd (last runs) + read_amount);
          Some (butlast runs @ [(fst (last runs), n)])
        } else Some (runs @ [(file_sector, read_amount)])
      })"

partial_function (option) collect_runs ::
  "nat \<Rightarrow> nat \<Rightarrow> (nat \<times> nat) list \<Rightarrow> FAT \<Rightarrow> ((nat \<times> nat) list \<times> FAT) option" where
  "collect_runs sectors_to_read c runs f =
     (if sectors_to_read = 0 then Some (runs, f)
      else do {
        let read_amount = min sectors_to_read (sectors_per_cluster (bpb f));
        file_sector \<leftarrow> get_start_sector_of_cluster f c;
        runs1 \<leftarrow> push_run file_sector read_amount runs;
        (c', f1) \<leftarrow> get_next_cluster f c;
        collect_runs (sectors_to_read - read_amount) c' runs1 f1
      })"

text \<open>The second loop: every run in pieces of at most 56 sectors.\<close>

function read_run :: "FSPartitionDisk \<Rightarrow> nat \<Rightarrow> nat \<Rightarrow> u8 list option" where
  "read_run d sector len =
     (if len = 0 then Some []
      else do {
        bs \<leftarrow> disk_read d sector (min len 56);
        sector1 \<leftarrow> chk 32 (sector + min len 56);
        rest \<leftarrow> read_run d sector1 (len - min len 56);
        Some (bs @ rest)
      })"
  by pat_completeness auto
termination by (relation "measure (\<lambda>(d, s, n). n)") auto

declare read_run.simps [simp del]

primrec read_runs :: "FSPartitionDisk \<Rightarrow> (nat \<times> nat) list \<Rightarrow> u8 list option" where
  "read_runs d [] = Some []"
| "read_runs d (r # rs) = do {
     bs \<leftarrow> read_run d (fst r) (snd r);
     rest \<leftarrow> read_runs d rs;
     Some (bs @ rest)
   }"

definition fat_read_file :: "nat \<Rightarrow> FAT \<Rightarrow> ((FSServiceError + u8 list) \<times> FAT) option" where
  "fat_read_file file_id f =
     (case file_id_lookup f file_id of
        None \<Rightarrow> Some (Inl FileNotFound, f)
      | Some fat_file \<Rightarrow>
          (case entry_type fat_file of
             Folder _ \<Rightarrow> Some (Inl InvalidRequestForFileType, f)
           | File len \<Rightarrow> do {
               n \<leftarrow> chk 32 (len + 511);
               (runs, f1) \<leftarrow> collect_runs (n div 512) (cluster fat_file) [] f;
               bytes \<leftarrow> read_runs (disk f) runs;
               Some (Inr (take len bytes), f1)
             }))"

primrec follow_chain :: "nat \<Rightarrow> nat \<Rightarrow> FAT \<Rightarrow> (nat \<times> FAT) option" where
  "follow_chain 0 c f = Some (c, f)"
| "follow_chain (Suc n) c f = do { (c', f1) \<leftarrow> get_next_cluster f c; follow_chain n c' f1 }"

text \<open>One sector of a file: the number of bytes it reports and the sector it read.\<close>

definition fat_read_file_sector ::
  "nat \<Rightarrow> nat \<Rightarrow> FAT \<Rightarrow> ((FSServiceError + (nat \<times> u8 list) option) \<times> FAT) option" where
  "fat_read_file_sector file_id file_sector f =
     (case file_id_lookup f file_id of
        None \<Rightarrow> Some (Inl FileNotFound, f)
      | Some fat_file \<Rightarrow>
          (case entry_type fat_file of
             Folder _ \<Rightarrow> Some (Inl InvalidRequestForFileType, f)
           | File len \<Rightarrow> do {
               n \<leftarrow> chk 32 (len + 511);
               if file_sector = n div 512 then Some (Inr None, f)
               else do {
                 let reported = (if file_sector + 1 = n div 512 then len mod 512 else 512);
                 hops \<leftarrow> div_usize file_sector (sectors_per_cluster (bpb f));
                 (c, f1) \<leftarrow> follow_chain hops (cluster fat_file) f;
                 s \<leftarrow> get_start_sector_of_cluster f1 c;
                 s' \<leftarrow> chk 32 (s + file_sector mod 2 ^ 32 mod sectors_per_cluster (bpb f));
                 bytes \<leftarrow> disk_read (disk f1) s' 1;
                 Some (Inr (Some (reported, bytes)), f1)
               }
             }))"

subsection \<open>Partition tables\<close>

record PartitionTableEntry =
  bootable :: nat
  partition_type :: nat
  start_lba :: nat
  pte_length :: nat

definition read_partition_entry :: "u8 list \<Rightarrow> nat \<Rightarrow> PartitionTableEntry" where
  "read_partition_entry buf i =
     (let b = drop (446 + 16 * i) buf in
      \<lparr>bootable = field 0 1 b, partition_type = field 4 1 b, start_lba = field 8 4 b, pte_length = field 12 4 b\<rparr>)"

subsection \<open>The buffer of the allocation table is transparent\<close>

definition fat_entry :: "FAT \<Rightarrow> nat \<Rightarrow> nat option" where
  "fat_entry f c = do {
     off \<leftarrow> chk 32 (c div (512 div fat_size f) + reserved_sectors (bpb f));
     buf \<leftarrow> disk_read (disk f) off 1;
     Some (field (c mod (512 div fat_size f) * fat_size f) (fat_size f) buf)
   }"

definition cache_ok :: "FAT \<Rightarrow> bool" where
  "cache_ok f \<longleftrightarrow> (\<forall>off b. cluster_chain_buffer f off = Some b \<longrightarrow> disk_read (disk f) off 1 = Some b)"

lemma get_next_cluster_entry:
  assumes "cache_ok f" "fat_entry f c = Some v"
  shows "\<exists>x. get_next_cluster f c = Some (v, f\<lparr>cluster_chain_buffer := x\<rparr>) \<and> cache_ok (f\<lparr>cluster_chain_buffer := x\<rparr>)"
proof -
  from assms(2) obtain off buf where
    o: "chk 32 (c div (512 div fat_size f) + reserved_sectors (bpb f)) = Some off" "disk_read (disk f) off 1 = Some buf"
      "v = field (c mod (512 div fat_size f) * fat_size f) (fat_size f) buf"
    by (auto simp: fat_entry_def bind_eq_Some_conv)
  show ?thesis
  proof (cases "cluster_chain_buffer f off")
    case None
    then show ?thesis
      using o assms(1)
      by (intro exI [of _ "(cluster_chain_buffer f)(off := Some buf)"]) (auto simp: get_next_cluster_def cache_ok_def)
  next
    case (Some b)
    then have "b = buf" using assms(1) o(2) by (auto simp: cache_ok_def)
    then show ?thesis
      using Some o assms(1) by (intro exI [of _ "cluster_chain_buffer f"]) (simp add: get_next_cluster_def)
  qed
qed

lemma fat_frame [simp]:
  "fat_size (f\<lparr>cluster_chain_buffer := x\<rparr>) = fat_size f" "fat_entry (f\<lparr>cluster_chain_buffer := x\<rparr>) c = fat_entry f c"
  "get_start_sector_of_cluster (f\<lparr>cluster_chain_buffer := x\<rparr>) c = get_start_sector_of_cluster f c"
proof -
  show fs: "fat_size (f\<lparr>cluster_chain_buffer := x\<rparr>) = fat_size f" by (simp add: fat_size_def)
  show "fat_entry (f\<lparr>cluster_chain_buffer := x\<rparr>) c = fat_entry f c" by (simp add: fat_entry_def fs)
  have "root_dir_sectors (f\<lparr>cluster_chain_buffer := x\<rparr>) = root_dir_sectors f"
    by (simp add: root_dir_sectors_def cong: FatExtendedBootRecord.case_cong)
  then show "get_start_sector_of_cluster (f\<lparr>cluster_chain_buffer := x\<rparr>) c = get_start_sector_of_cluster f c"
    by (simp add: get_start_sector_of_cluster_def first_data_sector_def cong: FatExtendedBootRecord.case_cong)
qed

subsection \<open>The sectors of a file, one by one\<close>

text \<open>
  The reference: the first \<open>n\<close> sectors of the chain of clusters that starts at \<open>c\<close>, following the
  table on the disk.
\<close>

function chain_sectors :: "FAT \<Rightarrow> nat \<Rightarrow> nat \<Rightarrow> nat list option" where
  "chain_sectors f n c =
     (if n = 0 then Some []
      else if sectors_per_cluster (bpb f) = 0 then None
      else do {
        s \<leftarrow> get_start_sector_of_cluster f c;
        c' \<leftarrow> fat_entry f c;
        rest \<leftarrow> chain_sectors f (n - min n (sectors_per_cluster (bpb f))) c';
        Some ([s ..< s + min n (sectors_per_cluster (bpb f))] @ rest)
      })"
  by pat_completeness auto
termination by (relation "measure (\<lambda>(f, n, c). n)") auto

declare chain_sectors.simps [simp del]

lemma chain_sectors_0 [simp]: "chain_sectors f 0 c = Some []"
  by (simp add: chain_sectors.simps)

lemma collect_runs_0 [simp]: "collect_runs 0 c runs f = Some (runs, f)"
  by (simp add: collect_runs.simps)

lemma chain_sectors_frame [simp]: "chain_sectors (f\<lparr>cluster_chain_buffer := x\<rparr>) n c = chain_sectors f n c"
proof (induction n arbitrary: c rule: less_induct)
  case (less n)
  show ?case
  proof (cases "n = 0 \<or> sectors_per_cluster (bpb f) = 0")
    case True
    then show ?thesis by (auto simp: chain_sectors.simps [of _ n c])
  next
    case False
    have "chain_sectors (f\<lparr>cluster_chain_buffer := x\<rparr>) (n - min n (sectors_per_cluster (bpb f))) c' =
        chain_sectors f (n - min n (sectors_per_cluster (bpb f))) c'" for c'
      by (rule less.IH) (use False in auto)
    then show ?thesis by (simp add: chain_sectors.simps [of _ n c])
  qed
qed

lemma chain_sectors_length: "chain_sectors f n c = Some ss \<Longrightarrow> length ss = n"
proof (induction n arbitrary: c ss rule: less_induct)
  case (less n)
  show ?case
  proof (cases "n = 0")
    case False
    with less.prems obtain s c' rest where spc: "sectors_per_cluster (bpb f) \<noteq> 0"
      and r: "chain_sectors f (n - min n (sectors_per_cluster (bpb f))) c' = Some rest"
      "ss = [s ..< s + min n (sectors_per_cluster (bpb f))] @ rest"
      by (auto simp: chain_sectors.simps [of f n c] bind_eq_Some_conv split: if_splits)
    have "length rest = n - min n (sectors_per_cluster (bpb f))"
      by (rule less.IH [OF _ r(1)]) (use False spc in auto)
    then show ?thesis using r(2) by simp
  qed (use less.prems in simp)
qed

definition expand :: "(nat \<times> nat) list \<Rightarrow> nat list" where
  "expand runs = concat (map (\<lambda>r. [fst r ..< fst r + snd r]) runs)"

definition runs_ok :: "nat \<Rightarrow> (nat \<times> nat) list \<Rightarrow> bool" where
  "runs_ok n runs \<longleftrightarrow> (\<forall>r \<in> set runs. fst r + snd r \<le> n)"

lemma push_run_expand:
  assumes "runs_ok n runs" "s + k \<le> n" "n < 2 ^ 32"
  shows "\<exists>runs'. push_run s k runs = Some runs' \<and> runs_ok n runs' \<and> expand runs' = expand runs @ [s ..< s + k]"
proof (cases "runs = []")
  case True
  then show ?thesis using assms by (simp add: push_run_def runs_ok_def expand_def)
next
  case False
  define a b where "a = fst (last runs)" and "b = snd (last runs)"
  have ab: "a + b \<le> n" using assms(1) False by (auto simp: runs_ok_def a_def b_def)
  have e: "expand runs = expand (butlast runs) @ [a ..< a + b]"
    using append_butlast_last_id [OF False] by (metis (no_types, lifting) a_def b_def concat.simps concat_append
      append_Nil2 expand_def list.map(1,2) map_append)
  have ok: "runs_ok n (butlast runs)" using assms(1) by (auto simp: runs_ok_def dest: in_set_butlastD)
  have lt: "a + b < 2 ^ 32" using ab assms(3) by simp
  show ?thesis
  proof (cases "a + b = s")
    case True
    have "push_run s k runs = Some (butlast runs @ [(a, b + k)])"
      using False True lt assms(2,3) by (simp add: push_run_def a_def [symmetric] b_def [symmetric] chk_def)
    moreover have "[a ..< a + (b + k)] = [a ..< a + b] @ [s ..< s + k]"
      using True upt_add_eq_append [of a "a + b" k] by (simp add: add.assoc [symmetric])
    ultimately show ?thesis
      using e ok True assms(2) by (auto simp: runs_ok_def expand_def)
  next
    case False': False
    have "push_run s k runs = Some (runs @ [(s, k)])"
      using False False' lt by (simp add: push_run_def a_def [symmetric] b_def [symmetric] chk_def)
    then show ?thesis using assms by (auto simp: runs_ok_def expand_def)
  qed
qed

lemma collect_runs_expand:
  assumes "cache_ok f" "chain_sectors f n c = Some ss" "\<forall>s \<in> set ss. s < m" "m < 2 ^ 32" "runs_ok m runs"
  shows "\<exists>runs' x. collect_runs n c runs f = Some (runs', f\<lparr>cluster_chain_buffer := x\<rparr>) \<and>
    cache_ok (f\<lparr>cluster_chain_buffer := x\<rparr>) \<and> runs_ok m runs' \<and> expand runs' = expand runs @ ss"
  using assms
proof (induction n arbitrary: c ss runs f rule: less_induct)
  case (less n)
  show ?case
  proof (cases "n = 0")
    case True
    then show ?thesis using less.prems
      by (intro exI [of _ runs] exI [of _ "cluster_chain_buffer f"]) simp
  next
    case False
    define k where "k = min n (sectors_per_cluster (bpb f))"
    from less.prems(2) False obtain s c' rest where spc: "sectors_per_cluster (bpb f) \<noteq> 0"
      and s: "get_start_sector_of_cluster f c = Some s" "fat_entry f c = Some c'"
      and r: "chain_sectors f (n - k) c' = Some rest" "ss = [s ..< s + k] @ rest"
      by (auto simp: chain_sectors.simps [of f n c] bind_eq_Some_conv k_def split: if_splits)
    have k: "0 < k" "n - k < n" using False spc by (auto simp: k_def)
    have "s + k - 1 \<in> set ss" using k(1) by (auto simp: r(2))
    then have "s + k \<le> m" using less.prems(3) k(1) by fastforce
    from push_run_expand [OF less.prems(5) this less.prems(4)] obtain runs1 where
      p: "push_run s k runs = Some runs1" "runs_ok m runs1" "expand runs1 = expand runs @ [s ..< s + k]" by blast
    from get_next_cluster_entry [OF less.prems(1) s(2)] obtain x where
      g: "get_next_cluster f c = Some (c', f\<lparr>cluster_chain_buffer := x\<rparr>)" "cache_ok (f\<lparr>cluster_chain_buffer := x\<rparr>)" by blast
    have "\<exists>runs' y. collect_runs (n - k) c' runs1 (f\<lparr>cluster_chain_buffer := x\<rparr>) =
        Some (runs', f\<lparr>cluster_chain_buffer := x\<rparr>\<lparr>cluster_chain_buffer := y\<rparr>) \<and>
        cache_ok (f\<lparr>cluster_chain_buffer := x\<rparr>\<lparr>cluster_chain_buffer := y\<rparr>) \<and> runs_ok m runs' \<and>
        expand runs' = expand runs1 @ rest"
      by (rule less.IH [OF k(2) g(2)]) (use r less.prems(3,4) p(2) in auto)
    then show ?thesis
      using False s(1) p g(1) r(2) by (auto simp: collect_runs.simps [of n c] k_def [symmetric] Let_def)
  qed
qed

subsection \<open>Reading the runs\<close>

definition sector :: "FSPartitionDisk \<Rightarrow> nat \<Rightarrow> u8 list" where
  "sector d s = backing_disk d (s + partition_offset d)"

definition disk_small :: "FSPartitionDisk \<Rightarrow> bool" where
  "disk_small d \<longleftrightarrow> partition_length d < 2 ^ 32 \<and> partition_offset d < 2 ^ 32"

lemma disk_read_sectors:
  assumes "disk_small d" "s + n \<le> partition_length d"
  shows "disk_read d s n = Some (concat (map (sector d) [s ..< s + n]))"
proof -
  have b: "s + n < usize_bound" "s + partition_offset d < usize_bound"
    using assms by (auto simp: disk_small_def)
  have "[s + partition_offset d ..< s + partition_offset d + n] = map (\<lambda>i. i + partition_offset d) [s ..< s + n]"
    by (rule nth_equalityI) simp_all
  then have "concat (map (backing_disk d) [s + partition_offset d ..< s + partition_offset d + n]) =
      concat (map (sector d) [s ..< s + n])" unfolding sector_def [abs_def] by (simp add: comp_def)
  then show ?thesis using b assms(2) unfolding disk_read_def add_usize_def by simp
qed

lemma read_run_sectors:
  "disk_small d \<Longrightarrow> s + n \<le> partition_length d \<Longrightarrow> read_run d s n = Some (concat (map (sector d) [s ..< s + n]))"
proof (induction n arbitrary: s rule: less_induct)
  case (less n)
  show ?case
  proof (cases "n = 0")
    case False
    define k where "k = min n 56"
    have k: "0 < k" "k \<le> n" "n - k < n" using False by (auto simp: k_def)
    have "s + k < 2 ^ 32" using less.prems k(2) by (simp add: disk_small_def)
    moreover have "[s ..< s + n] = [s ..< s + k] @ [s + k ..< s + k + (n - k)]"
      using upt_add_eq_append [of s "s + k" "n - k"] k(2) by simp
    ultimately show ?thesis
      using False less.IH [OF k(3) less.prems(1), of "s + k"] disk_read_sectors [OF less.prems(1), of s k] less.prems(2) k(2)
      by (simp add: read_run.simps [of d s n] k_def [symmetric] chk_def)
  qed (simp add: read_run.simps)
qed

lemma read_runs_sectors:
  "disk_small d \<Longrightarrow> runs_ok (partition_length d) runs \<Longrightarrow> read_runs d runs = Some (concat (map (sector d) (expand runs)))"
  by (induction runs) (simp_all add: runs_ok_def expand_def read_run_sectors)

subsection \<open>Reading files\<close>

text \<open>
  C12.  Reading a whole file gives the bytes of its chain of clusters.  The code gathers the clusters
  into runs of consecutive sectors, reads every run in pieces of at most 56 sectors and follows the
  chain through a buffer of table sectors; the result is the same as reading the sectors of the
  chain one by one with the table as it is on the disk, cut to the size of the file, and the buffer
  stays coherent.
\<close>
theorem read_file_equals_chain:
  assumes "cache_ok f" "disk_small (disk f)" "file_id_lookup f i = Some \<lparr>cluster = c, entry_type = File len\<rparr>"
    and "len + 511 < 2 ^ 32" "chain_sectors f ((len + 511) div 512) c = Some ss"
    and "\<forall>s \<in> set ss. s < partition_length (disk f)"
  shows "\<exists>x. fat_read_file i f = Some (Inr (take len (concat (map (sector (disk f)) ss))), f\<lparr>cluster_chain_buffer := x\<rparr>) \<and>
    cache_ok (f\<lparr>cluster_chain_buffer := x\<rparr>)"
proof -
  have "partition_length (disk f) < 2 ^ 32" using assms(2) by (simp add: disk_small_def)
  from collect_runs_expand [OF assms(1,5,6) this, of "[]"] obtain runs x where
    r: "collect_runs ((len + 511) div 512) c [] f = Some (runs, f\<lparr>cluster_chain_buffer := x\<rparr>)"
      "cache_ok (f\<lparr>cluster_chain_buffer := x\<rparr>)" "runs_ok (partition_length (disk f)) runs" "expand runs = ss"
    by (auto simp: runs_ok_def expand_def)
  from read_runs_sectors [OF assms(2) r(3)] r assms(3,4) show ?thesis by (auto simp: fat_read_file_def chk_def)
qed

definition sample_fat :: FAT where
  "sample_fat = \<lparr>fat_partition_id = 0,
     bpb = \<lparr>bytes_per_sector = 512, sectors_per_cluster = 1, reserved_sectors = 1, fat_copies = 1, root_dir_entries = 16,
       total_sectors = 5000, fat_sector_cnt = 1, total_sectors_ext = 0\<rparr>,
     fat_ebr = FAT16, disk = \<lparr>backing_disk = (\<lambda>s. replicate 512 (of_nat s)), partition_offset = 0, partition_length = 5000\<rparr>,
     file_id_lookup = [7 \<mapsto> \<lparr>cluster = 2, entry_type = File 512\<rparr>], cluster_chain_buffer = (\<lambda>_. None)\<rparr>"

lemma sample_fat_ok:
  "cache_ok sample_fat" "disk_small (disk sample_fat)" "file_id_lookup sample_fat 7 = Some \<lparr>cluster = 2, entry_type = File 512\<rparr>"
  "chain_sectors sample_fat 1 2 = Some [3]" "partition_length (disk sample_fat) = 5000"
proof -
  have "get_start_sector_of_cluster sample_fat 2 = Some 3"
    by (simp add: get_start_sector_of_cluster_def first_data_sector_def root_dir_sectors_def sample_fat_def chk_def
      sub_usize_def div_usize_def)
  moreover have "\<exists>c. fat_entry sample_fat 2 = Some c"
    by (simp add: fat_entry_def sample_fat_def fat_size_def chk_def disk_read_def add_usize_def)
  moreover have "sectors_per_cluster (bpb sample_fat) = 1" by (simp add: sample_fat_def)
  ultimately show "chain_sectors sample_fat 1 2 = Some [3]"
    by (auto simp: chain_sectors.simps [of sample_fat "Suc 0" 2])
qed (simp_all add: sample_fat_def cache_ok_def disk_small_def)

theorem read_file_equals_chain_witness:
  "\<exists>x. fat_read_file 7 sample_fat = Some (Inr (take 512 (concat (map (sector (disk sample_fat)) [3]))), sample_fat\<lparr>cluster_chain_buffer := x\<rparr>)"
  using read_file_equals_chain [OF sample_fat_ok(1,2,3), of "[3]"] sample_fat_ok(4,5) by auto

lemma follow_chain_sector:
  assumes "cache_ok f" "chain_sectors f n c = Some ss" "k < n" "0 < sectors_per_cluster (bpb f)"
  shows "\<exists>c' x s. follow_chain (k div sectors_per_cluster (bpb f)) c f = Some (c', f\<lparr>cluster_chain_buffer := x\<rparr>) \<and>
    cache_ok (f\<lparr>cluster_chain_buffer := x\<rparr>) \<and> get_start_sector_of_cluster f c' = Some s \<and>
    ss ! k = s + k mod sectors_per_cluster (bpb f)"
  using assms
proof (induction "k div sectors_per_cluster (bpb f)" arbitrary: k n c ss f)
  case 0
  define p where "p = sectors_per_cluster (bpb f)"
  have k: "k < p" using 0 by (auto simp: p_def div_eq_0_iff)
  from 0 obtain s c' rest where "get_start_sector_of_cluster f c = Some s" "ss = [s ..< s + min n p] @ rest"
    by (auto simp: chain_sectors.simps [of f n c] bind_eq_Some_conv p_def split: if_splits)
  moreover have "([s ..< s + min n p] @ rest) ! k = s + k" using k 0(4) by (simp add: nth_append)
  ultimately show ?case
    using 0 k by (intro exI [of _ c] exI [of _ "cluster_chain_buffer f"] exI [of _ s]) (simp add: p_def)
next
  case (Suc h)
  define p where "p = sectors_per_cluster (bpb f)"
  have p: "0 < p" "p \<le> k" using Suc by (auto simp: p_def) (metis div_less nat.distinct(1) not_le)
  have n: "min n p = p" using p(2) Suc.prems(3) by simp
  from Suc.prems obtain s c' rest where e: "fat_entry f c = Some c'"
    and r: "chain_sectors f (n - p) c' = Some rest" "ss = [s ..< s + p] @ rest"
    by (auto simp: chain_sectors.simps [of f n c] bind_eq_Some_conv p_def [symmetric] n split: if_splits)
  from get_next_cluster_entry [OF Suc.prems(1) e] obtain x where
    g: "get_next_cluster f c = Some (c', f\<lparr>cluster_chain_buffer := x\<rparr>)" "cache_ok (f\<lparr>cluster_chain_buffer := x\<rparr>)" by blast
  have h: "h = (k - p) div p" "k div p = Suc h" "k mod p = (k - p) mod p"
    using Suc(2) p by (simp_all add: p_def [symmetric] le_div_geq le_mod_geq)
  have "\<exists>d y s'. follow_chain ((k - p) div p) c' (f\<lparr>cluster_chain_buffer := x\<rparr>) =
      Some (d, f\<lparr>cluster_chain_buffer := x\<rparr>\<lparr>cluster_chain_buffer := y\<rparr>) \<and>
      cache_ok (f\<lparr>cluster_chain_buffer := x\<rparr>\<lparr>cluster_chain_buffer := y\<rparr>) \<and>
      get_start_sector_of_cluster (f\<lparr>cluster_chain_buffer := x\<rparr>) d = Some s' \<and> rest ! (k - p) = s' + (k - p) mod p"
    using Suc.hyps(1) [of "k - p" "f\<lparr>cluster_chain_buffer := x\<rparr>" "n - p" c' rest] h(1) g(2) r(1) Suc.prems(3) p
    by (simp add: p_def)
  moreover have "ss ! k = rest ! (k - p)" using r(2) p(2) by (simp add: nth_append)
  ultimately show ?case using g(1) h by (auto simp: p_def [symmetric])
qed

text \<open>
  C35.  Reading a file sector by sector reads the same sectors: the \<open>k\<close>-th call delivers the \<open>k\<close>-th
  sector of the chain.  The number of valid bytes it reports is 512, and for the last sector the
  size modulo 512.  The last sector of a file whose size is a multiple of 512 is therefore reported
  as empty.
\<close>
theorem read_sector_equals_chain:
  assumes "cache_ok f" "disk_small (disk f)" "file_id_lookup f i = Some \<lparr>cluster = c, entry_type = File len\<rparr>"
    and "len + 511 < 2 ^ 32" "chain_sectors f ((len + 511) div 512) c = Some ss"
    and "\<forall>s \<in> set ss. s < partition_length (disk f)" and "k < length ss"
  shows "\<exists>x. fat_read_file_sector i k f =
    Some (Inr (Some (if k + 1 = (len + 511) div 512 then len mod 512 else 512, sector (disk f) (ss ! k))),
      f\<lparr>cluster_chain_buffer := x\<rparr>)"
proof -
  define n where "n = (len + 511) div 512"
  have kn: "k < n" using assms(7) chain_sectors_length [OF assms(5)] by (simp add: n_def)
  have spc: "0 < sectors_per_cluster (bpb f)"
    using assms(5) kn by (auto simp: chain_sectors.simps [of f] n_def [symmetric] split: if_splits)
  from follow_chain_sector [OF assms(1) assms(5) [folded n_def] kn spc] obtain c' x s where
    fc: "follow_chain (k div sectors_per_cluster (bpb f)) c f = Some (c', f\<lparr>cluster_chain_buffer := x\<rparr>)"
      "get_start_sector_of_cluster f c' = Some s" "ss ! k = s + k mod sectors_per_cluster (bpb f)" by blast
  have lt: "ss ! k < partition_length (disk f)" using assms(6,7) by simp
  then have b: "s + k mod sectors_per_cluster (bpb f) < 2 ^ 32" using assms(2) fc(3) by (simp add: disk_small_def)
  have km: "k mod 2 ^ 32 = k" using kn assms(4) by (simp add: n_def)
  have "disk_read (disk f) (ss ! k) 1 = Some (sector (disk f) (ss ! k))"
    using disk_read_sectors [OF assms(2), of "ss ! k" 1] lt by simp
  then show ?thesis
    using assms(3,4) fc b km kn spc
    by (intro exI [of _ x]) (simp add: fat_read_file_sector_def chk_def n_def [symmetric] div_usize_def Let_def)
qed

theorem read_sector_equals_chain_witness:
  "\<exists>x. fat_read_file_sector 7 0 sample_fat = Some (Inr (Some (0, sector (disk sample_fat) 3)), sample_fat\<lparr>cluster_chain_buffer := x\<rparr>)"
  using read_sector_equals_chain [OF sample_fat_ok(1,2,3), of "[3]" 0] sample_fat_ok(4,5) by auto

end
