(* ===== verification/Vfs.thy ===== *)
theory Vfs
  imports Fat "HOL-Library.AList"
begin

text \<open>
  The file-system service: \<open>kernel/src/fs/mod.rs\<close>, the partition scan of \<open>kernel/src/fs/mbr.rs\<close> and
  the path arithmetic of \<open>kernel_userspace/src/fs.rs\<close>.  The state is the table of mounted partitions
  with the two counters of the file system.
\<close>

subsection \<open>Mounted partitions\<close>

record vfs =
  partitions :: "(nat \<times> FAT) list"
  next_partition_id :: nat
  next_file_id :: nat

definition mount :: "FSPartitionDisk \<Rightarrow> vfs \<Rightarrow> vfs option" where
  "mount d v = do {
     (f, ids) \<leftarrow> read_bios_block (next_partition_id v) d (next_file_id v);
     Some (v\<lparr>partitions := partitions v @ [(next_partition_id v, f)], next_partition_id := next_partition_id v + 1,
       next_file_id := ids\<rparr>)
   }"

primrec mount_entries :: "(nat \<Rightarrow> u8 list) \<Rightarrow> PartitionTableEntry list \<Rightarrow> vfs \<Rightarrow> vfs option" where
  "mount_entries drive [] v = Some v"
| "mount_entries drive (part # parts) v =
     (if start_lba part > 0 \<or> bootable part > 0
      then do {
        v1 \<leftarrow> mount \<lparr>backing_disk = drive, partition_offset = start_lba part, partition_length = pte_length part\<rparr> v;
        mount_entries drive parts v1
      }
      else mount_entries drive parts v)"

definition read_partitions :: "(nat \<Rightarrow> u8 list) \<Rightarrow> vfs \<Rightarrow> vfs option" where
  "read_partitions drive v = do {
     rassert (drop 510 (drive 0) = [0x55, 0xAA]);
     mount_entries drive (map (read_partition_entry (drive 0)) [0 ..< 4]) v
   }"

subsection \<open>Access by partition\<close>

definition with_partition ::
  "nat \<Rightarrow> (FAT \<Rightarrow> nat \<Rightarrow> ((FSServiceError + 'r) \<times> FAT \<times> nat) option) \<Rightarrow> vfs \<Rightarrow> ((FSServiceError + 'r) \<times> vfs) option" where
  "with_partition i g v =
     (case map_of (partitions v) i of
        None \<Rightarrow> Some (Inl (NoSuchPartition i), v)
      | Some f \<Rightarrow> do {
          (r, f1, ids) \<leftarrow> g f (next_file_id v);
          Some (r, v\<lparr>partitions := AList.update i f1 (partitions v), next_file_id := ids\<rparr>)
        })"

definition get_file_by_id :: "nat \<times> nat \<Rightarrow> vfs \<Rightarrow> ((FSServiceError + VFile) \<times> vfs) option" where
  "get_file_by_id i v = with_partition (fst i) (fat_get_file_by_id (snd i)) v"

definition read_file :: "nat \<times> nat \<Rightarrow> vfs \<Rightarrow> ((FSServiceError + u8 list) \<times> vfs) option" where
  "read_file i v =
     with_partition (fst i) (\<lambda>f ids. do { (r, f1) \<leftarrow> fat_read_file (snd i) f; Some (r, f1, ids) }) v"

definition read_file_sector :: "nat \<times> nat \<Rightarrow> nat \<Rightarrow> vfs \<Rightarrow> ((FSServiceError + (nat \<times> u8 list) option) \<times> vfs) option" where
  "read_file_sector i s v =
     with_partition (fst i) (\<lambda>f ids. do { (r, f1) \<leftarrow> fat_read_file_sector (snd i) s f; Some (r, f1, ids) }) v"

subsection \<open>Paths\<close>

text \<open>\<open>str::split\<close> at one character.\<close>

fun split_at :: "nat \<Rightarrow> str \<Rightarrow> str list" where
  "split_at x [] = [[]]"
| "split_at x (c # cs) =
     (if c = x then [] # split_at x cs
      else (c # hd (split_at x cs)) # tl (split_at x cs))"

primrec follow_path :: "str list \<Rightarrow> VFile \<Rightarrow> vfs \<Rightarrow> ((FSServiceError + VFile) \<times> vfs) option" where
  "follow_path [] file v = Some (Inr file, v)"
| "follow_path (sect # sects) file v =
     (if sect = [] then follow_path sects file v
      else case specialized file of
        VFile_File _ \<Rightarrow> Some (Inl CouldNotFollowPath, v)
      | VFolder cs \<Rightarrow>
          (case map_of cs sect of
             None \<Rightarrow> Some (Inl CouldNotFollowPath, v)
           | Some i \<Rightarrow> do {
               (r, v1) \<leftarrow> get_file_by_id i v;
               (case r of Inl e \<Rightarrow> Some (Inl e, v1) | Inr f \<Rightarrow> follow_path sects f v1)
             }))"

definition get_file_from_path :: "nat \<Rightarrow> str \<Rightarrow> vfs \<Rightarrow> ((FSServiceError + VFile) \<times> vfs) option" where
  "get_file_from_path p path v = do {
     (r, v1) \<leftarrow> get_file_by_id (p, 0) v;
     (case r of Inl e \<Rightarrow> Some (Inl e, v1) | Inr file \<Rightarrow> follow_path (split_at 47 path) file v1)
   }"

subsection \<open>Requests\<close>

datatype FSServiceMessage =
    RunStat nat str
  | ReadRequest nat nat nat
  | ReadFullFileRequest nat nat
  | GetDisksRequest

datatype StatResponse = StatFile nat nat | StatFolder nat "str list"

datatype FSServiceMessageResp =
    StatResponse StatResponse
  | ReadResponse "nat option"
  | GetDisksResponse "nat list"

text \<open>The answer with the bytes of the message object that goes with it.\<close>

definition run_fs_query ::
  "FSServiceMessage \<Rightarrow> vfs \<Rightarrow> ((FSServiceError + FSServiceMessageResp \<times> u8 list option) \<times> vfs) option" where
  "run_fs_query query v =
     (case query of
        RunStat dsk path \<Rightarrow> do {
          (r, v1) \<leftarrow> get_file_from_path dsk path v;
          Some (case r of
              Inl e \<Rightarrow> Inl e
            | Inr file \<Rightarrow> Inr (StatResponse (case specialized file of
                  VFolder cs \<Rightarrow> StatFolder (snd (vf_location file)) (map fst cs)
                | VFile_File n \<Rightarrow> StatFile (snd (vf_location file)) n), None), v1)
        }
      | ReadRequest dsk node sect \<Rightarrow> do {
          (r, v1) \<leftarrow> read_file_sector (dsk, node) sect v;
          Some (case r of
              Inl e \<Rightarrow> Inl e
            | Inr (Some (len, bytes)) \<Rightarrow> Inr (ReadResponse (Some len), Some (take len bytes))
            | Inr None \<Rightarrow> Inr (ReadResponse None, None), v1)
        }
      | ReadFullFileRequest dsk node \<Rightarrow> do {
          (r, v1) \<leftarrow> read_file (dsk, node) v;
          Some (case r of
              Inl e \<Rightarrow> Inl e
            | Inr bytes \<Rightarrow> Inr (ReadResponse (Some (length bytes)), Some bytes), v1)
        }
      | GetDisksRequest \<Rightarrow> Some (Inr (GetDisksResponse (map fst (partitions v)), None), v))"

text \<open>Joining a path to the folder it is relative to.\<close>

definition path_step :: "str \<Rightarrow> str list \<Rightarrow> str list" where
  "path_step sect path =
     (if sect = [] \<or> sect = [46] then path
      else if sect = [46, 46] then butlast path
      else path @ [sect])"

primrec join_path :: "str list \<Rightarrow> str" where
  "join_path [] = []"
| "join_path (s # ss) = s @ (if ss = [] then [] else 47 # join_path ss)"

definition add_path :: "str \<Rightarrow> str \<Rightarrow> str" where
  "add_path folder file =
     (if file \<noteq> [] \<and> hd file = 47 then file
      else 47 # join_path (fold path_step (split_at 47 file) (filter (\<lambda>a. a \<noteq> []) (split_at 47 folder))))"

subsection \<open>Names in a directory resolve\<close>

text \<open>Every child that a listed folder names is a known file of the partition.\<close>

definition children_ok :: "FAT \<Rightarrow> bool" where
  "children_ok f \<longleftrightarrow> (\<forall>i x cs. file_id_lookup f i = Some x \<longrightarrow> entry_type x = Folder (Some cs) \<longrightarrow>
     snd ` set cs \<subseteq> dom (file_id_lookup f))"

definition lookup_grows :: "(nat \<Rightarrow> FATFile option) \<Rightarrow> (nat \<Rightarrow> FATFile option) \<Rightarrow> bool" where
  "lookup_grows l l' \<longleftrightarrow> dom l \<subseteq> dom l' \<and>
     (\<forall>i x cs. l' i = Some x \<longrightarrow> entry_type x = Folder (Some cs) \<longrightarrow> l i = Some x)"

lemma lookup_grows_refl [simp]: "lookup_grows l l"
  by (simp add: lookup_grows_def)

lemma lookup_grows_trans: "lookup_grows l m \<Longrightarrow> lookup_grows m n \<Longrightarrow> lookup_grows l n"
  unfolding lookup_grows_def by blast

lemma children_ok_grows: "children_ok f \<Longrightarrow> lookup_grows (file_id_lookup f) (file_id_lookup f') \<Longrightarrow> children_ok f'"
  unfolding children_ok_def lookup_grows_def by blast

lemma strmap_insert_set: "set (strmap_insert k v m) \<subseteq> insert (k, v) (set m)"
  by (induction m) (auto split: if_splits)

lemma parse_entries_grows:
  "parse_entries es dir lfn ids lk = (b, dir', lfn', ids', lk') \<Longrightarrow>
   lookup_grows lk lk' \<and> snd ` set dir' \<subseteq> snd ` set dir \<union> dom lk'"
proof (induction es arbitrary: dir lfn ids lk)
  case (Cons e es)
  define name where "name = (if lfn = [] then short_name e else lfn)"
  define new where "new = lk(ids := Some (entry_file e))"
  have g: "lookup_grows lk new"
    by (auto simp: lookup_grows_def new_def entry_file_def split: if_splits)
  show ?case
  proof (cases "de_name e ! 0 = 0 \<or> de_name e ! 0 = 0xE5 \<or> attributes e = 0x0F \<or> name = [46] \<or> name = [46, 46]")
    case True
    then have "(dir' = dir \<and> lk' = lk) \<or> (\<exists>l. parse_entries es dir l ids lk = (b, dir', lfn', ids', lk'))"
      using Cons.prems unfolding parse_entries.simps Let_def name_def [symmetric] by (simp split: if_splits) blast+
    then show ?thesis
    proof
      assume "dir' = dir \<and> lk' = lk"
      then show ?thesis by simp
    next
      assume "\<exists>l. parse_entries es dir l ids lk = (b, dir', lfn', ids', lk')"
      then obtain l where "parse_entries es dir l ids lk = (b, dir', lfn', ids', lk')" ..
      then show ?thesis by (rule Cons.IH)
    qed
  next
    case False
    then have "parse_entries es (strmap_insert name ids dir) [] (ids + 1) new = (b, dir', lfn', ids', lk')"
      using Cons.prems unfolding parse_entries.simps Let_def name_def [symmetric] new_def [symmetric] by simp
    from Cons.IH [OF this] have ih: "lookup_grows new lk'" "snd ` set dir' \<subseteq> snd ` set (strmap_insert name ids dir) \<union> dom lk'" by auto
    have "ids \<in> dom new" by (simp add: new_def)
    then have "ids \<in> dom lk'" using ih(1) unfolding lookup_grows_def by blast
    moreover have "snd ` set (strmap_insert name ids dir) \<subseteq> insert ids (snd ` set dir)"
      using image_mono [OF strmap_insert_set [of name ids dir], of snd] by simp
    ultimately have "snd ` set dir' \<subseteq> snd ` set dir \<union> dom lk'" using ih(2) by blast
    then show ?thesis using lookup_grows_trans [OF g ih(1)] by simp
  qed
qed auto

definition dir_result :: "nat strmap \<Rightarrow> FAT \<Rightarrow> nat strmap \<times> FAT \<times> nat \<Rightarrow> bool" where
  "dir_result entries f r \<longleftrightarrow>
     (case r of (entries', f', ids') \<Rightarrow>
        lookup_grows (file_id_lookup f) (file_id_lookup f') \<and>
        snd ` set entries' \<subseteq> snd ` set entries \<union> dom (file_id_lookup f') \<and> fat_partition_id f' = fat_partition_id f)"

lemma get_next_cluster_frame:
  "get_next_cluster f c = Some (c', f') \<Longrightarrow> file_id_lookup f' = file_id_lookup f \<and> fat_partition_id f' = fat_partition_id f"
  by (auto simp: get_next_cluster_def bind_eq_Some_conv split: option.splits)

lemma dir_result_step:
  assumes "parse_entries es entries lfn ids (file_id_lookup f) = (b, dir, lfn', ids', lk)"
    and "file_id_lookup f2 = lk" "fat_partition_id f2 = fat_partition_id f" "dir_result dir f2 r"
  shows "dir_result entries f r"
proof -
  from parse_entries_grows [OF assms(1)] have p: "lookup_grows (file_id_lookup f) lk" "snd ` set dir \<subseteq> snd ` set entries \<union> dom lk" by auto
  obtain e3 f3 i3 where r: "r = (e3, f3, i3)" by (metis prod.exhaust)
  from assms(4) have g: "lookup_grows lk (file_id_lookup f3)" by (simp add: r dir_result_def assms(2))
  then have "dom lk \<subseteq> dom (file_id_lookup f3)" by (simp add: lookup_grows_def)
  moreover have "snd ` set e3 \<subseteq> snd ` set dir \<union> dom (file_id_lookup f3)" using assms(4) by (simp add: r dir_result_def)
  ultimately have "snd ` set e3 \<subseteq> snd ` set entries \<union> dom (file_id_lookup f3)" using p(2) by blast
  then show ?thesis using assms(3,4) lookup_grows_trans [OF p(1) g] by (simp add: r dir_result_def)
qed

lemma dir_result_done:
  "parse_entries es entries lfn ids (file_id_lookup f) = (b, dir, lfn', ids', lk) \<Longrightarrow>
   dir_result entries f (dir, f\<lparr>file_id_lookup := lk\<rparr>, n)"
  by (erule dir_result_step [where ?f2.0 = "f\<lparr>file_id_lookup := lk\<rparr>"]) (simp_all add: dir_result_def)

lemma read_directory_loop_result: "read_directory_loop c entries lfn f ids = Some r \<Longrightarrow> dir_result entries f r"
proof (erule read_directory_loop.raw_induct [rotated], goal_cases)
  case (1 loop c entries lfn f ids r)
  show ?case
  proof (cases "c = 0")
    case True
    then show ?thesis using 1(2) by (auto simp: dir_result_def)
  next
    case False
    with 1(2) obtain buffer where body:
      "(let r = parse_entries (read_entries (16 * sectors_per_cluster (bpb f)) buffer) entries lfn ids (file_id_lookup f);
          f1 = f\<lparr>file_id_lookup := snd (snd (snd (snd r)))\<rparr>; ids1 = fst (snd (snd (snd r)))
        in if fst r then Some (fst (snd r), f1, ids1)
           else get_next_cluster f1 c \<bind> (\<lambda>(c', f2). loop c' (fst (snd r)) (fst (snd (snd r))) f2 ids1)) = Some r"
      by (auto simp: bind_eq_Some_conv)
    obtain b' dir lfn' ids' lk where
      p: "parse_entries (read_entries (16 * sectors_per_cluster (bpb f)) buffer) entries lfn ids (file_id_lookup f) = (b', dir, lfn', ids', lk)"
      by (metis prod.exhaust)
    show ?thesis
    proof (cases b')
      case True
      then show ?thesis using body p dir_result_done [OF p] by (auto simp: Let_def)
    next
      case False
      with body p obtain c' f2 where
        n: "get_next_cluster (f\<lparr>file_id_lookup := lk\<rparr>) c = Some (c', f2)" "loop c' dir lfn' f2 ids' = Some r"
        by (auto simp: Let_def bind_eq_Some_conv)
      from dir_result_step [OF p _ _ 1(1) [OF n(2)]] get_next_cluster_frame [OF n(1)] show ?thesis by simp
    qed
  qed
qed

lemma fat_get_file_result:
  assumes "fat_get_file_by_id i f ids = Some (r, f', ids')" "children_ok f"
  shows "children_ok f'" "lookup_grows (file_id_lookup f) (file_id_lookup f')" "fat_partition_id f' = fat_partition_id f"
    "r = Inl e \<Longrightarrow> i \<notin> dom (file_id_lookup f)"
    "r = Inr x \<Longrightarrow> specialized x = VFolder cs \<Longrightarrow>
       \<forall>y \<in> snd ` set cs. fst y = fat_partition_id f \<and> snd y \<in> dom (file_id_lookup f')"
proof -
  have *: "lookup_grows (file_id_lookup f) (file_id_lookup f') \<and> fat_partition_id f' = fat_partition_id f \<and>
    (\<forall>e. r = Inl e \<longrightarrow> i \<notin> dom (file_id_lookup f)) \<and>
    (\<forall>x cs. r = Inr x \<longrightarrow> specialized x = VFolder cs \<longrightarrow>
       (\<forall>y \<in> snd ` set cs. fst y = fat_partition_id f \<and> snd y \<in> dom (file_id_lookup f')))"
  proof (cases "file_id_lookup f i")
    case None
    then show ?thesis using assms(1) by (auto simp: fat_get_file_by_id_def)
  next
    case (Some ff)
    show ?thesis
    proof (cases "entry_type ff")
      case (File n)
      then show ?thesis using assms(1) Some by (auto simp: fat_get_file_by_id_def)
    next
      case (Folder d)
      show ?thesis
      proof (cases d)
        case None
        with assms(1) Some Folder obtain cs f1 where
          rd: "read_directory (cluster ff) f ids = Some (cs, f1, ids')" "f' = f1\<lparr>file_id_lookup := (file_id_lookup f1)(i := Some ff)\<rparr>"
          "r = Inr \<lparr>vf_location = (fat_partition_id f, i), specialized = VFolder (map (\<lambda>(a, b). (a, (fat_partition_id f, b))) cs)\<rparr>"
          by (auto simp: fat_get_file_by_id_def bind_eq_Some_conv)
        have dr: "dir_result [] f (cs, f1, ids')"
          using read_directory_loop_result rd(1) unfolding read_directory_def by blast
        have "lookup_grows (file_id_lookup f) (file_id_lookup f')"
          using dr Some Folder None by (auto simp: rd(2) dir_result_def lookup_grows_def split: if_splits)
        moreover have "snd ` set cs \<subseteq> dom (file_id_lookup f')" using dr by (auto simp: rd(2) dir_result_def)
        ultimately show ?thesis using dr by (auto simp: rd dir_result_def)
      next
        case (Some cs)
        then have eq: "f' = f" "r = Inr \<lparr>vf_location = (fat_partition_id f, i),
            specialized = VFolder (map (\<lambda>(a, b). (a, (fat_partition_id f, b))) cs)\<rparr>"
          using assms(1) Folder \<open>file_id_lookup f i = Some ff\<close> by (auto simp: fat_get_file_by_id_def)
        have "snd ` set cs \<subseteq> dom (file_id_lookup f)"
          using assms(2) Folder Some \<open>file_id_lookup f i = Some ff\<close> unfolding children_ok_def by blast
        then show ?thesis by (auto simp: eq)
      qed
    qed
  qed
  show "children_ok f'" using * children_ok_grows [OF assms(2)] by simp
  show "lookup_grows (file_id_lookup f) (file_id_lookup f')" "fat_partition_id f' = fat_partition_id f"
    "r = Inl e \<Longrightarrow> i \<notin> dom (file_id_lookup f)"
    using * by simp_all
  show "\<forall>y \<in> snd ` set cs. fst y = fat_partition_id f \<and> snd y \<in> dom (file_id_lookup f')"
    if "r = Inr x" "specialized x = VFolder cs" using * that by simp
qed

subsection \<open>Paths resolve\<close>

text \<open>
  The partitions carry their own number, their roots and the children of their listed folders are
  known.
\<close>

definition vfs_ok :: "vfs \<Rightarrow> bool" where
  "vfs_ok v \<longleftrightarrow> distinct (map fst (partitions v)) \<and>
     (\<forall>p f. map_of (partitions v) p = Some f \<longrightarrow>
        fat_partition_id f = p \<and> 0 \<in> dom (file_id_lookup f) \<and> children_ok f)"

definition known :: "vfs \<Rightarrow> nat \<times> nat \<Rightarrow> bool" where
  "known v i \<longleftrightarrow> (\<exists>f. map_of (partitions v) (fst i) = Some f \<and> snd i \<in> dom (file_id_lookup f))"

lemma get_file_by_id_result:
  assumes ok: "vfs_ok v" and g: "get_file_by_id i v = Some (r, v')"
  shows "vfs_ok v'" "known v j \<Longrightarrow> known v' j" "dom (map_of (partitions v')) = dom (map_of (partitions v))"
    "known v i \<Longrightarrow> \<exists>x. r = Inr x"
    "r = Inr x \<Longrightarrow> specialized x = VFolder cs \<Longrightarrow> y \<in> snd ` set cs \<Longrightarrow> known v' y"
    "r = Inl e \<Longrightarrow> fst i \<notin> dom (map_of (partitions v)) \<and> e = NoSuchPartition (fst i) \<or> e = FileNotFound"
proof -
  consider (none) "map_of (partitions v) (fst i) = None" "r = Inl (NoSuchPartition (fst i))" "v' = v"
    | (some) f f' ids where "map_of (partitions v) (fst i) = Some f" "fat_get_file_by_id (snd i) f (next_file_id v) = Some (r, f', ids)"
      "v' = v\<lparr>partitions := AList.update (fst i) f' (partitions v), next_file_id := ids\<rparr>"
    using g by (auto simp: get_file_by_id_def with_partition_def bind_eq_Some_conv split: option.splits)
  note cases = this
  from cases have all: "vfs_ok v' \<and> (\<forall>j. known v j \<longrightarrow> known v' j) \<and> dom (map_of (partitions v')) = dom (map_of (partitions v)) \<and>
    (known v i \<longrightarrow> (\<exists>x. r = Inr x)) \<and>
    (\<forall>x cs y. r = Inr x \<longrightarrow> specialized x = VFolder cs \<longrightarrow> y \<in> snd ` set cs \<longrightarrow> known v' y) \<and>
    (\<forall>e. r = Inl e \<longrightarrow> fst i \<notin> dom (map_of (partitions v)) \<and> e = NoSuchPartition (fst i) \<or> e = FileNotFound)"
  proof cases
    case none
    then show ?thesis using ok by (auto simp: known_def)
  next
    case (some f f' ids)
    have f: "fat_partition_id f = fst i" "0 \<in> dom (file_id_lookup f)" "children_ok f"
      using ok some(1) by (auto simp: vfs_ok_def)
    note res = fat_get_file_result [OF some(2) f(3)]
    have m: "map_of (partitions v') = (map_of (partitions v))(fst i \<mapsto> f')"
      by (simp add: some(3) update_conv')
    have d: "dom (file_id_lookup f) \<subseteq> dom (file_id_lookup f')" using res(2) by (simp add: lookup_grows_def)
    have 1: "vfs_ok v'" using ok f res(1,3) d m
      by (auto simp: vfs_ok_def m some(3) distinct_update split: if_splits)
    have 2: "known v j \<longrightarrow> known v' j" for j using d some(1) by (auto simp: known_def m)
    have 3: "dom (map_of (partitions v')) = dom (map_of (partitions v))" using some(1) by (auto simp: m)
    have 4: "known v i \<longrightarrow> (\<exists>x. r = Inr x)" using some(1) res(4) by (cases r) (auto simp: known_def)
    have 5: "known v' y" if "r = Inr x" "specialized x = VFolder cs" "y \<in> snd ` set cs" for x cs y
      using res(5) [OF that(1,2)] that(3) f(1) by (auto simp: known_def m)
    have 6: "e = FileNotFound" if "r = Inl e" for e
      using some(2) that by (auto simp: fat_get_file_by_id_def bind_eq_Some_conv split: option.splits FATFileType.splits)
    show ?thesis using 1 2 3 4 5 6 by blast
  qed
  show "vfs_ok v'" "dom (map_of (partitions v')) = dom (map_of (partitions v))" "known v i \<Longrightarrow> \<exists>x. r = Inr x"
    "r = Inl e \<Longrightarrow> fst i \<notin> dom (map_of (partitions v)) \<and> e = NoSuchPartition (fst i) \<or> e = FileNotFound"
    using all by simp_all
  show "known v' j" if "known v j" using all that by (cases j) simp
  show "known v' y" if "r = Inr x" "specialized x = VFolder cs" "y \<in> snd ` set cs" using all that by (cases y) simp
qed

definition children_known :: "vfs \<Rightarrow> VFile \<Rightarrow> bool" where
  "children_known v x \<longleftrightarrow> (\<forall>cs y. specialized x = VFolder cs \<longrightarrow> y \<in> snd ` set cs \<longrightarrow> known v y)"

definition same_keys :: "vfs \<Rightarrow> vfs \<Rightarrow> bool" where
  "same_keys v v' \<longleftrightarrow> dom (map_of (partitions v')) = dom (map_of (partitions v))"

lemma follow_path_result:
  assumes "vfs_ok v" "children_known v x" "follow_path sects x v = Some (r, v')"
  shows "vfs_ok v' \<and> same_keys v v' \<and> (\<forall>e. r = Inl e \<longrightarrow> e = CouldNotFollowPath)"
  using assms
proof (induction sects arbitrary: x v)
  case (Cons s ss)
  show ?case
  proof (cases "s = []")
    case True
    then show ?thesis using Cons by simp
  next
    case False
    show ?thesis
    proof (cases "specialized x")
      case (VFile_File n)
      then show ?thesis using Cons.prems False by (auto simp: same_keys_def)
    next
      case (VFolder cs)
      show ?thesis
      proof (cases "map_of cs s")
        case None
        then show ?thesis using Cons.prems False VFolder by (auto simp: same_keys_def)
      next
        case (Some i)
        then have "i \<in> snd ` set cs" by (force dest: map_of_SomeD)
        then have k: "known v i" using Cons.prems(2) VFolder unfolding children_known_def by blast
        from Cons.prems(3) False VFolder Some obtain q v1 where
          g: "get_file_by_id i v = Some (q, v1)" by (auto simp: bind_eq_Some_conv)
        note res = get_file_by_id_result [OF Cons.prems(1) g]
        from res(4) [OF k] obtain f where q: "q = Inr f" by blast
        have ck: "children_known v1 f" unfolding children_known_def
        proof (intro allI impI)
          show "known v1 y" if "specialized f = VFolder cs'" "y \<in> snd ` set cs'" for cs' y
            using res(5) [OF q that] .
        qed
        have "follow_path ss f v1 = Some (r, v')" using Cons.prems(3) False VFolder Some g q by simp
        from Cons.IH [OF res(1) ck this] res(3) show ?thesis by (auto simp: same_keys_def)
      qed
    qed
  qed
qed (auto simp: same_keys_def)

lemma get_file_from_path_result:
  assumes ok: "vfs_ok v" and g: "get_file_from_path p path v = Some (r, v')"
  shows "vfs_ok v' \<and> same_keys v v' \<and>
    (\<forall>e. r = Inl e \<longrightarrow> e = CouldNotFollowPath \<or> e = NoSuchPartition p \<and> p \<notin> dom (map_of (partitions v)))"
proof -
  from g obtain q v1 where q: "get_file_by_id (p, 0) v = Some (q, v1)" by (auto simp: get_file_from_path_def bind_eq_Some_conv)
  note res = get_file_by_id_result [OF ok q]
  have k: "known v (p, 0)" if "p \<in> dom (map_of (partitions v))" using that ok unfolding vfs_ok_def known_def by (metis domD fst_conv snd_conv)
  show ?thesis
  proof (cases q)
    case (Inl e)
    then have "r = Inl e" "v' = v1" using g q by (auto simp: get_file_from_path_def)
    moreover have "p \<notin> dom (map_of (partitions v))" using k res(4) Inl by auto
    moreover have "e = NoSuchPartition p"
      using q Inl calculation(3) by (auto simp: get_file_by_id_def with_partition_def dom_def)
    ultimately show ?thesis using res(1,3) by (simp add: same_keys_def)
  next
    case (Inr f)
    then have f: "follow_path (split_at 47 path) f v1 = Some (r, v')" using g q by (simp add: get_file_from_path_def)
    have "children_known v1 f" unfolding children_known_def
    proof (intro allI impI)
      show "known v1 y" if "specialized f = VFolder cs" "y \<in> snd ` set cs" for cs y using res(5) [OF Inr that] .
    qed
    from follow_path_result [OF res(1) this f] res(3) show ?thesis by (auto simp: same_keys_def)
  qed
qed

text \<open>Reading files changes the buffer of the allocation table only.\<close>

lemma follow_chain_frame:
  "follow_chain n c f = Some (c', f') \<Longrightarrow> file_id_lookup f' = file_id_lookup f \<and> fat_partition_id f' = fat_partition_id f"
  by (induction n arbitrary: c f) (auto simp: bind_eq_Some_conv dest: get_next_cluster_frame)

lemma collect_runs_frame:
  "collect_runs n c runs f = Some r \<Longrightarrow> file_id_lookup (snd r) = file_id_lookup f \<and> fat_partition_id (snd r) = fat_partition_id f"
proof (erule collect_runs.raw_induct [rotated], goal_cases)
  case (1 loop n c runs f r)
  show ?case
  proof (cases "n = 0")
    case False
    with 1(2) obtain c' f1 n' runs' where g: "get_next_cluster f c = Some (c', f1)" "loop n' c' runs' f1 = Some r"
      by (auto simp: bind_eq_Some_conv Let_def)
    from 1(1) [OF g(2)] get_next_cluster_frame [OF g(1)] show ?thesis by simp
  qed (use 1(2) in auto)
qed

lemma with_partition_keeps:
  assumes ok: "vfs_ok v" and "with_partition p g v = Some (r, v')"
    and "\<And>f q f' ids ids'. g f ids = Some (q, f', ids') \<Longrightarrow>
      file_id_lookup f' = file_id_lookup f \<and> fat_partition_id f' = fat_partition_id f"
  shows "vfs_ok v' \<and> same_keys v v'"
proof (cases "map_of (partitions v) p")
  case None
  then show ?thesis using assms by (auto simp: with_partition_def same_keys_def)
next
  case (Some f)
  with assms(2) obtain f' ids where g: "g f (next_file_id v) = Some (r, f', ids)"
    "v' = v\<lparr>partitions := AList.update p f' (partitions v), next_file_id := ids\<rparr>"
    by (auto simp: with_partition_def bind_eq_Some_conv)
  note fr = assms(3) [OF g(1)]
  then have "children_ok f' = children_ok f" by (simp add: children_ok_def)
  then show ?thesis using ok Some fr
    by (auto simp: g(2) vfs_ok_def same_keys_def update_conv' distinct_update split: if_splits)
qed

lemma run_fs_query_keeps:
  assumes ok: "vfs_ok v" and "run_fs_query q v = Some (r, v')"
  shows "vfs_ok v' \<and> same_keys v v'"
proof (cases q)
  case (RunStat dsk path)
  with assms(2) obtain x where "get_file_from_path dsk path v = Some (x, v')" by (auto simp: run_fs_query_def bind_eq_Some_conv)
  from get_file_from_path_result [OF ok this] show ?thesis by simp
next
  case (ReadRequest dsk node sect)
  with assms(2) obtain x where x: "read_file_sector (dsk, node) sect v = Some (x, v')"
    by (auto simp: run_fs_query_def bind_eq_Some_conv)
  show ?thesis
    by (rule with_partition_keeps [OF ok x [unfolded read_file_sector_def]])
      (auto simp: fat_read_file_sector_def bind_eq_Some_conv Let_def split: option.splits FATFileType.splits if_splits
        dest: follow_chain_frame)
next
  case (ReadFullFileRequest dsk node)
  with assms(2) obtain x where x: "read_file (dsk, node) v = Some (x, v')"
    by (auto simp: run_fs_query_def bind_eq_Some_conv)
  show ?thesis
    by (rule with_partition_keeps [OF ok x [unfolded read_file_def]])
      (auto simp: fat_read_file_def bind_eq_Some_conv split: option.splits FATFileType.splits
        dest: collect_runs_frame)
next
  case GetDisksRequest
  then show ?thesis using assms by (simp add: run_fs_query_def same_keys_def)
qed

primrec run_fs_queries :: "FSServiceMessage list \<Rightarrow> vfs \<Rightarrow> vfs option" where
  "run_fs_queries [] v = Some v"
| "run_fs_queries (q # qs) v = do { (_, v1) \<leftarrow> run_fs_query q v; run_fs_queries qs v1 }"

lemma run_fs_queries_keeps: "vfs_ok v \<Longrightarrow> run_fs_queries qs v = Some v' \<Longrightarrow> vfs_ok v' \<and> same_keys v v'"
proof (induction qs arbitrary: v)
  case (Cons q qs)
  then obtain r v1 where "run_fs_query q v = Some (r, v1)" "run_fs_queries qs v1 = Some v'" by (auto simp: bind_eq_Some_conv)
  then show ?case using run_fs_query_keeps [OF Cons.prems(1)] Cons.IH [of v1] by (auto simp: same_keys_def)
qed (simp add: same_keys_def)

subsection \<open>Mounting\<close>

definition vfs_empty :: vfs where
  "vfs_empty = \<lparr>partitions = [], next_partition_id = 0, next_file_id = 1\<rparr>"

definition numbered :: "vfs \<Rightarrow> bool" where
  "numbered v \<longleftrightarrow> (\<forall>p \<in> set (map fst (partitions v)). p < next_partition_id v)"

lemma read_root_result:
  "read_root_sectors ss entries lfn f ids = Some r \<Longrightarrow> dir_result entries f r"
proof (induction ss arbitrary: entries lfn f ids)
  case Nil
  then show ?case by (auto simp: dir_result_def)
next
  case (Cons s ss)
  from Cons.prems obtain buffer where body:
    "(let r = parse_entries (read_entries 16 buffer) entries lfn ids (file_id_lookup f);
        f1 = f\<lparr>file_id_lookup := snd (snd (snd (snd r)))\<rparr>
      in if fst r then Some (fst (snd r), f1, fst (snd (snd (snd r))))
         else read_root_sectors ss (fst (snd r)) (fst (snd (snd r))) f1 (fst (snd (snd (snd r))))) = Some r"
    by (auto simp: bind_eq_Some_conv)
  obtain b dir lfn' ids' lk where
    p: "parse_entries (read_entries 16 buffer) entries lfn ids (file_id_lookup f) = (b, dir, lfn', ids', lk)" by (metis prod.exhaust)
  show ?case
  proof (cases b)
    case True
    then show ?thesis using body p dir_result_done [OF p] by (auto simp: Let_def)
  next
    case False
    then have "read_root_sectors ss dir lfn' (f\<lparr>file_id_lookup := lk\<rparr>) ids' = Some r" using body p by (simp add: Let_def)
    from dir_result_step [OF p _ _ Cons.IH [OF this]] show ?thesis by simp
  qed
qed

lemma enumerate_root_ok:
  assumes "enumerate_root f ids = Some (f', ids')" "file_id_lookup f = (\<lambda>_. None)"
  shows "fat_partition_id f' = fat_partition_id f \<and> 0 \<in> dom (file_id_lookup f') \<and> children_ok f'"
proof -
  from assms(1) obtain cs f1 where dr: "dir_result [] f (cs, f1, ids')"
    and f': "f' = f1\<lparr>file_id_lookup := (file_id_lookup f1)(0 := Some \<lparr>cluster = 0, entry_type = Folder (Some cs)\<rparr>)\<rparr>"
    by (auto simp: enumerate_root_def bind_eq_Some_conv read_directory_def
      split: FatExtendedBootRecord.splits dest: read_root_result read_directory_loop_result)
  have "children_ok f" using assms(2) by (simp add: children_ok_def)
  moreover have g: "lookup_grows (file_id_lookup f) (file_id_lookup f1)" "snd ` set cs \<subseteq> dom (file_id_lookup f1)"
    "fat_partition_id f1 = fat_partition_id f"
    using dr by (auto simp: dir_result_def)
  ultimately have c1: "children_ok f1" using children_ok_grows by blast
  have d: "dom (file_id_lookup f1) \<subseteq> dom (file_id_lookup f')" by (auto simp: f')
  have "children_ok f'" unfolding children_ok_def
  proof (intro allI impI)
    fix i x c assume x: "file_id_lookup f' i = Some x" "entry_type x = Folder (Some c)"
    have "snd ` set c \<subseteq> dom (file_id_lookup f1)"
    proof (cases "i = 0")
      case True
      then have "x = \<lparr>cluster = 0, entry_type = Folder (Some cs)\<rparr>" using x(1) by (simp add: f')
      then have "c = cs" using x(2) by simp
      then show ?thesis using g(2) by simp
    next
      case False
      then have "file_id_lookup f1 i = Some x" using x(1) by (simp add: f')
      then show ?thesis using c1 x(2) unfolding children_ok_def by blast
    qed
    then show "snd ` set c \<subseteq> dom (file_id_lookup f')" using d by (rule subset_trans)
  qed
  then show ?thesis using g(3) by (simp add: f')
qed

lemma mount_ok:
  assumes "vfs_ok v" "numbered v" "mount d v = Some v'"
  shows "vfs_ok v' \<and> numbered v'"
proof -
  from assms(3) obtain f ids f0 where
    v': "v' = v\<lparr>partitions := partitions v @ [(next_partition_id v, f)], next_partition_id := next_partition_id v + 1,
       next_file_id := ids\<rparr>" "enumerate_root f0 (next_file_id v) = Some (f, ids)" "file_id_lookup f0 = (\<lambda>_. None)"
      "fat_partition_id f0 = next_partition_id v"
    by (auto simp: mount_def read_bios_block_def bind_eq_Some_conv Let_def)
  from enumerate_root_ok [OF v'(2,3)] have f: "fat_partition_id f = next_partition_id v \<and> 0 \<in> dom (file_id_lookup f) \<and> children_ok f"
    using v'(4) by simp
  have new: "next_partition_id v \<notin> fst ` set (partitions v)" using assms(2) by (auto simp: numbered_def)
  have "vfs_ok v'" unfolding vfs_ok_def
  proof (intro conjI allI impI)
    show "distinct (map fst (partitions v'))" using assms(1) new by (auto simp: v'(1) vfs_ok_def)
    fix p g assume "map_of (partitions v') p = Some g"
    then have "map_of (partitions v) p = Some g \<or> p = next_partition_id v \<and> g = f"
      by (auto simp: v'(1) map_add_def split: option.splits if_splits)
    then have "fat_partition_id g = p \<and> 0 \<in> dom (file_id_lookup g) \<and> children_ok g"
      using assms(1) f unfolding vfs_ok_def by metis
    then show "fat_partition_id g = p" "0 \<in> dom (file_id_lookup g)" "children_ok g" by simp_all
  qed
  moreover have "numbered v'" using assms(2) by (auto simp: v'(1) numbered_def less_SucI)
  ultimately show ?thesis by simp
qed

lemma mount_entries_ok:
  "vfs_ok v \<Longrightarrow> numbered v \<Longrightarrow> mount_entries drive ps v = Some v' \<Longrightarrow> vfs_ok v'"
  by (induction ps arbitrary: v) (auto simp: bind_eq_Some_conv split: if_splits dest: mount_ok)

lemma read_partitions_ok: "read_partitions drive vfs_empty = Some v \<Longrightarrow> vfs_ok v"
  by (auto simp: read_partitions_def bind_eq_Some_conv elim!: mount_entries_ok [rotated 2])
    (auto simp: vfs_ok_def vfs_empty_def numbered_def)


text \<open>A drive whose partition table is empty.\<close>

definition blank_drive :: "nat \<Rightarrow> u8 list" where
  "blank_drive s = replicate 510 0 @ [0x55, 0xAA]"


subsection \<open>Joining paths\<close>

lemma split_at_nonempty [simp]: "split_at x s \<noteq> []"
  by (cases s) simp_all

lemma split_at_parts: "p \<in> set (split_at x s) \<Longrightarrow> x \<notin> set p"
proof (induction s arbitrary: p)
  case (Cons c s)
  have "split_at x s = hd (split_at x s) # tl (split_at x s)" by simp
  then have "hd (split_at x s) \<in> set (split_at x s)" "set (tl (split_at x s)) \<subseteq> set (split_at x s)"
    by (metis list.set_intros(1), metis set_subset_Cons)
  then show ?case using Cons by (auto split: if_splits)
qed simp

lemma split_at_one: "x \<notin> set s \<Longrightarrow> split_at x s = [s]"
  by (induction s) auto

lemma split_at_append: "x \<notin> set s \<Longrightarrow> split_at x (s @ x # r) = s # split_at x r"
  by (induction s) auto

lemma split_join: "(\<And>s. s \<in> set ss \<Longrightarrow> 47 \<notin> set s) \<Longrightarrow> ss \<noteq> [] \<Longrightarrow> split_at 47 (join_path ss) = ss"
proof (induction ss)
  case (Cons s ss)
  then show ?case by (cases "ss = []") (simp_all add: split_at_one split_at_append)
qed simp

definition path_part :: "str \<Rightarrow> bool" where
  "path_part s \<longleftrightarrow> s \<noteq> [] \<and> 47 \<notin> set s"

lemma path_step_parts: "list_all path_part ps \<Longrightarrow> 47 \<notin> set s \<Longrightarrow> list_all path_part (path_step s ps)"
  by (auto simp: path_step_def path_part_def list_all_iff dest: in_set_butlastD)

lemma path_fold_parts:
  "(\<And>s. s \<in> set ss \<Longrightarrow> 47 \<notin> set s) \<Longrightarrow> list_all path_part ps \<Longrightarrow> list_all path_part (fold path_step ss ps)"
  by (induction ss arbitrary: ps) (simp_all add: path_step_parts)

text \<open>The parts of a path, as the lookup of a path reads them.\<close>

definition path_parts :: "str \<Rightarrow> str list" where
  "path_parts path = filter (\<lambda>a. a \<noteq> []) (split_at 47 path)"



end
