(* ===== verification/Heap_Interface.thy ===== *)
theory Heap_Interface
  imports Prelude
begin

text \<open>
  What the heaps of the kernel and of user space promise: blocks that are handed out and not yet
  given back are aligned and do not overlap.  A layout is the pair of size and alignment that
  \<open>GlobalAlloc\<close> passes.
\<close>

type_synonym layout = "nat \<times> nat"
type_synonym live = "(nat \<times> layout) list"

text \<open>The number of blocks of a list, given as address and length, that contain an address.\<close>

definition inside :: "nat \<Rightarrow> nat \<times> nat \<Rightarrow> nat" where
  "inside x b = (if fst b \<le> x \<and> x < fst b + snd b then 1 else 0)"

definition cover :: "(nat \<times> nat) list \<Rightarrow> nat \<Rightarrow> nat" where
  "cover bs x = sum_list (map (inside x) bs)"

lemma cover_simps [simp]:
  "cover [] x = 0" "cover (b # bs) x = inside x b + cover bs x" "cover (as @ bs) x = cover as x + cover bs x"
  by (simp_all add: cover_def)

lemma cover_rev [simp]: "cover (rev bs) x = cover bs x"
  by (simp add: cover_def sum_list_rev rev_map [symmetric])

lemma cover_remove1: "b \<in> set bs \<Longrightarrow> cover (remove1 b bs) x + inside x b = cover bs x"
  by (induction bs) auto

lemma cover_nth2: "i < j \<Longrightarrow> j < length bs \<Longrightarrow> inside x (bs ! i) + inside x (bs ! j) \<le> cover bs x"
proof (induction bs arbitrary: i j)
  case (Cons b bs)
  have one: "k < length bs \<Longrightarrow> inside x (bs ! k) \<le> cover bs x" for k
    by (auto simp: cover_def intro: member_le_sum_list)
  show ?case using Cons one [of "j - 1"] by (cases i; cases j) (auto simp: trans_le_add2)
qed simp

definition overlap :: "nat \<times> nat \<Rightarrow> nat \<times> nat \<Rightarrow> bool" where
  "overlap a b \<longleftrightarrow> fst a < fst b + snd b \<and> fst b < fst a + snd a"

lemma overlap_inside: "overlap a b \<Longrightarrow> 0 < snd a \<Longrightarrow> 0 < snd b \<Longrightarrow> \<exists>x. inside x a = 1 \<and> inside x b = 1"
  by (rule exI [of _ "max (fst a) (fst b)"]) (auto simp: overlap_def inside_def)

lemma cover_disjoint:
  assumes "\<forall>x. cover bs x \<le> 1" "i < j" "j < length bs" "0 < snd (bs ! i)" "0 < snd (bs ! j)"
  shows "\<not> overlap (bs ! i) (bs ! j)"
proof
  assume "overlap (bs ! i) (bs ! j)"
  from overlap_inside [OF this assms(4,5)] obtain x where "inside x (bs ! i) = 1" "inside x (bs ! j) = 1" by blast
  with cover_nth2 [OF assms(2,3), of x] assms(1) show False by (metis le_trans not_numeral_le_zero numeral_le_one_iff one_add_one semiring_norm(69))
qed

lemma round_up_le: "0 < (a :: nat) \<Longrightarrow> n \<le> (n + a - 1) div a * a"
proof -
  assume a: "0 < a"
  have "(n + a - 1) mod a < a" using a by simp
  then show ?thesis using div_mult_mod_eq [of "n + a - 1" a] a by linarith
qed

text \<open>Runs of a heap: what is live after any sequence of allocations and releases.\<close>

inductive heap_run ::
  "(layout \<Rightarrow> 'h \<Rightarrow> (nat option \<times> 'h) option) \<Rightarrow> (nat \<Rightarrow> layout \<Rightarrow> 'h \<Rightarrow> 'h option) \<Rightarrow> (layout \<Rightarrow> bool) \<Rightarrow>
   'h \<Rightarrow> 'h \<Rightarrow> live \<Rightarrow> bool"
  for alloc dealloc valid h0 where
  Start: "heap_run alloc dealloc valid h0 h0 []"
| Alloc: "heap_run alloc dealloc valid h0 h ls \<Longrightarrow> valid l \<Longrightarrow> alloc l h = Some (Some p, h') \<Longrightarrow>
     heap_run alloc dealloc valid h0 h' ((p, l) # ls)"
| Refused: "heap_run alloc dealloc valid h0 h ls \<Longrightarrow> valid l \<Longrightarrow> alloc l h = Some (None, h') \<Longrightarrow>
     heap_run alloc dealloc valid h0 h' ls"
| Dealloc: "heap_run alloc dealloc valid h0 h ls \<Longrightarrow> (p, l) \<in> set ls \<Longrightarrow> dealloc p l h = Some h' \<Longrightarrow>
     heap_run alloc dealloc valid h0 h' (remove1 (p, l) ls)"

locale heap =
  fixes alloc :: "layout \<Rightarrow> 'h \<Rightarrow> (nat option \<times> 'h) option"
    and dealloc :: "nat \<Rightarrow> layout \<Rightarrow> 'h \<Rightarrow> 'h option"
    and valid :: "layout \<Rightarrow> bool"
    and extent :: "layout \<Rightarrow> nat"
    and placed :: "layout \<Rightarrow> nat \<Rightarrow> bool"
    and owned :: "'h \<Rightarrow> nat \<Rightarrow> nat"
    and arena :: "'h \<Rightarrow> nat \<Rightarrow> nat"
    and ok :: "'h \<Rightarrow> bool"
  assumes alloc_law: "ok h \<Longrightarrow> valid l \<Longrightarrow> alloc l h = Some (Some p, h') \<Longrightarrow>
      ok h' \<and> (\<forall>x. owned h' x + inside x (p, extent l) + arena h x \<le> owned h x + arena h' x) \<and> placed l p"
    and refused_law: "ok h \<Longrightarrow> valid l \<Longrightarrow> alloc l h = Some (None, h') \<Longrightarrow>
      ok h' \<and> (\<forall>x. owned h' x + arena h x \<le> owned h x + arena h' x)"
    and dealloc_law: "ok h \<Longrightarrow> valid l \<Longrightarrow> placed l p \<Longrightarrow> dealloc p l h = Some h' \<Longrightarrow>
      ok h' \<and> (\<forall>x. owned h' x + arena h x \<le> owned h x + inside x (p, extent l) + arena h' x)"
    and placed_law: "valid l \<Longrightarrow> placed l p \<Longrightarrow> snd l dvd p"
    and arena_one: "arena h x \<le> 1"
    and extent_law: "valid l \<Longrightarrow> fst l \<le> extent l \<and> 0 < extent l"
begin

definition extents :: "live \<Rightarrow> (nat \<times> nat) list" where
  "extents ls = map (\<lambda>(p, l). (p, extent l)) ls"

lemma cover_extents_remove:
  "(p, l) \<in> set ls \<Longrightarrow> cover (extents (remove1 (p, l) ls)) x + inside x (p, extent l) = cover (extents ls) x"
  by (induction ls) (auto simp: extents_def)

lemma run_inv:
  "heap_run alloc dealloc valid h0 h ls \<Longrightarrow> ok h0 \<Longrightarrow> \<forall>x. owned h0 x \<le> arena h0 x \<Longrightarrow>
   ok h \<and> (\<forall>x. owned h x + cover (extents ls) x \<le> arena h x) \<and> (\<forall>(p, l) \<in> set ls. valid l \<and> placed l p)"
proof (induction rule: heap_run.induct)
  case Start
  then show ?case by (simp add: extents_def)
next
  case (Alloc h ls l p h')
  then have ih: "ok h" "\<forall>x. owned h x + cover (extents ls) x \<le> arena h x" "\<forall>(p, l) \<in> set ls. valid l \<and> placed l p" by auto
  from alloc_law [OF ih(1) Alloc.hyps(2,3)] have a: "ok h'" "placed l p"
    "\<And>x. owned h' x + inside x (p, extent l) + arena h x \<le> owned h x + arena h' x" by auto
  have "owned h' x + cover (extents ((p, l) # ls)) x \<le> arena h' x" for x
    using a(3) [of x] ih(2) [rule_format, of x] by (simp add: extents_def)
  then show ?case using a ih(3) Alloc.hyps(2) by auto
next
  case (Refused h ls l h')
  then have ih: "ok h" "\<forall>x. owned h x + cover (extents ls) x \<le> arena h x" "\<forall>(p, l) \<in> set ls. valid l \<and> placed l p" by auto
  from refused_law [OF ih(1) Refused.hyps(2,3)] have a: "ok h'"
    "\<And>x. owned h' x + arena h x \<le> owned h x + arena h' x" by auto
  have "owned h' x + cover (extents ls) x \<le> arena h' x" for x
    using a(2) [of x] ih(2) [rule_format, of x] by simp
  then show ?case using a ih(3) by auto
next
  case (Dealloc h ls p l h')
  then have ih: "ok h" "\<forall>x. owned h x + cover (extents ls) x \<le> arena h x" "\<forall>(p, l) \<in> set ls. valid l \<and> placed l p" by auto
  with Dealloc.hyps(2) have "valid l" "placed l p" by auto
  from dealloc_law [OF ih(1) this Dealloc.hyps(3)] have a: "ok h'"
    "\<And>x. owned h' x + arena h x \<le> owned h x + inside x (p, extent l) + arena h' x" by auto
  have "owned h' x + cover (extents (remove1 (p, l) ls)) x \<le> arena h' x" for x
    using a(2) [of x] ih(2) [rule_format, of x] cover_extents_remove [OF Dealloc.hyps(2), of x] by simp
  moreover have "set (remove1 (p, l) ls) \<subseteq> set ls" by (rule set_remove1_subset)
  ultimately show ?case using a(1) ih(3) by blast
qed

text \<open>Live blocks are as large as asked for, aligned as asked for, and do not overlap.\<close>

lemma live_blocks:
  assumes "heap_run alloc dealloc valid h0 h ls" "ok h0" "\<forall>x. owned h0 x \<le> arena h0 x"
  shows "(\<forall>(p, l) \<in> set ls. snd l dvd p) \<and>
    (\<forall>i j. i < j \<longrightarrow> j < length ls \<longrightarrow> \<not> overlap (fst (ls ! i), fst (snd (ls ! i))) (fst (ls ! j), fst (snd (ls ! j))))"
proof -
  note inv = run_inv [OF assms]
  have one: "\<forall>x. cover (extents ls) x \<le> 1" using inv arena_one [of h] by (meson le_trans add_leD2)
  have "\<not> overlap (fst (ls ! i), fst (snd (ls ! i))) (fst (ls ! j), fst (snd (ls ! j)))" if "i < j" "j < length ls" for i j
  proof
    assume o: "overlap (fst (ls ! i), fst (snd (ls ! i))) (fst (ls ! j), fst (snd (ls ! j)))"
    have v: "valid (snd (ls ! i))" "valid (snd (ls ! j))" using inv that nth_mem [of i ls] nth_mem [of j ls] by fastforce+
    have e: "extents ls ! i = (fst (ls ! i), extent (snd (ls ! i)))" "extents ls ! j = (fst (ls ! j), extent (snd (ls ! j)))"
      using that by (simp_all add: extents_def split_beta)
    have "overlap (extents ls ! i) (extents ls ! j)"
      using o extent_law [OF v(1)] extent_law [OF v(2)] by (auto simp: e overlap_def)
    moreover have "\<not> overlap (extents ls ! i) (extents ls ! j)"
      by (rule cover_disjoint [OF one]) (use that extent_law [OF v(1)] extent_law [OF v(2)] in \<open>auto simp: e\<close>, simp add: extents_def)
    ultimately show False by simp
  qed
  then show ?thesis using inv placed_law by blast
qed

end

end
