(* ===== verification/Slab_Heap.thy ===== *)
theory Slab_Heap
  imports Heap_Interface Page_Table
begin

text \<open>
  The slab heaps: the kernel's (\<open>kernel/src/allocator/slab_allocator.rs\<close>), which maps pages into
  the heap's level-3 table itself, and the one of user space (\<open>userspace_slaballoc/src/slab.rs\<close>),
  which asks the kernel for pages.  A list of free blocks is the list of their addresses, head first.
\<close>

subsection \<open>Definitions\<close>

definition SLAB_SIZES :: "nat list" where
  "SLAB_SIZES = [8, 16, 32, 64, 128, 256, 512, 1024, 2048]"

definition block_size :: "nat \<Rightarrow> nat option" where
  "block_size min_size = position (\<lambda>sz. sz \<ge> min_size) SLAB_SIZES"

record SlabAllocator =
  slab_heads :: "nat list list"
  base_address :: nat

definition slab_new :: "nat \<Rightarrow> SlabAllocator" where
  "slab_new start = \<lparr>slab_heads = replicate (length SLAB_SIZES) [], base_address = start\<rparr>"

text \<open>The heap with the physical memory it maps and its level-3 table \<open>KERNEL_HEAP_MAP\<close>.\<close>

record kernel_heap =
  slab :: SlabAllocator
  heap_phys :: phys
  heap_map :: nat

definition map_frame :: "nat \<Rightarrow> nat \<Rightarrow> phys \<Rightarrow> phys option" where
  "map_frame table page m = do {
     (r, fs) \<leftarrow> allocate_page (frames m);
     frame \<leftarrow> r;
     pg \<leftarrow> page_new Size4KB page;
     (res, m') \<leftarrow> pt_map 3 1 table pg frame WRITEABLE (m\<lparr>frames := fs\<rparr>);
     case res of Inl _ \<Rightarrow> None | Inr _ \<Rightarrow> Some m'
   }"

primrec map_frames :: "nat \<Rightarrow> nat list \<Rightarrow> phys \<Rightarrow> phys option" where
  "map_frames table [] m = Some m"
| "map_frames table (p # ps) m = do {
     m' \<leftarrow> map_frame table p m;
     map_frames table ps m'
   }"

definition round_to_page :: "nat \<Rightarrow> nat option" where
  "round_to_page n = do {
     s \<leftarrow> add_usize n 0xFFF;
     Some (clear_low 12 s)
   }"

text \<open>Linking the blocks of a fresh page: each one in front of those before it.\<close>

definition link_blocks :: "nat \<Rightarrow> nat \<Rightarrow> nat list" where
  "link_blocks start sz = fold (\<lambda>block first. block # first) (step_by sz start (start + 0x1000)) []"

definition slab_alloc :: "layout \<Rightarrow> kernel_heap \<Rightarrow> (nat option \<times> kernel_heap) option" where
  "slab_alloc l h =
     (let a = slab h; min_size = max (fst l) (snd l) in
      case block_size min_size of
        Some index \<Rightarrow>
          (case slab_heads a ! index of
             first # next_node \<Rightarrow>
               Some (Some first, h\<lparr>slab := a\<lparr>slab_heads := (slab_heads a)[index := next_node]\<rparr>\<rparr>)
           | [] \<Rightarrow> do {
               next_base \<leftarrow> add_usize (base_address a) 0x1000;
               m \<leftarrow> map_frame (heap_map h) (base_address a) (heap_phys h);
               case link_blocks (base_address a) (SLAB_SIZES ! index) of
                 [] \<Rightarrow> None
               | nxt # rest \<Rightarrow> Some (Some nxt, h\<lparr>heap_phys := m,
                   slab := \<lparr>slab_heads = (slab_heads a)[index := rest], base_address = next_base\<rparr>\<rparr>)
             })
      | None \<Rightarrow> do {
          len \<leftarrow> round_to_page min_size;
          next_base \<leftarrow> add_usize (base_address a) len;
          m \<leftarrow> map_frames (heap_map h) (step_by 0x1000 (base_address a) next_base) (heap_phys h);
          Some (Some (base_address a), h\<lparr>heap_phys := m, slab := a\<lparr>base_address := next_base\<rparr>\<rparr>)
        })"

definition unmap_frame :: "nat \<Rightarrow> nat \<Rightarrow> phys \<Rightarrow> phys option" where
  "unmap_frame table page m = do {
     pg \<leftarrow> page_new Size4KB page;
     r \<leftarrow> pt_address_of 3 1 table pg m;
     phys_page \<leftarrow> r;
     (res, m') \<leftarrow> pt_unmap 3 1 table pg m;
     case res of Inl _ \<Rightarrow> None
     | Inr _ \<Rightarrow> Some (m'\<lparr>frames := frame_free_page phys_page (frames m')\<rparr>)
   }"

primrec unmap_frames :: "nat \<Rightarrow> nat list \<Rightarrow> phys \<Rightarrow> phys option" where
  "unmap_frames table [] m = Some m"
| "unmap_frames table (p # ps) m = do {
     m' \<leftarrow> unmap_frame table p m;
     unmap_frames table ps m'
   }"

definition slab_dealloc :: "nat \<Rightarrow> layout \<Rightarrow> kernel_heap \<Rightarrow> kernel_heap option" where
  "slab_dealloc ptr l h =
     (let a = slab h; max_size = max (fst l) (snd l) in
      case block_size max_size of
        Some index \<Rightarrow>
          Some (h\<lparr>slab := a\<lparr>slab_heads := (slab_heads a)[index := ptr # slab_heads a ! index]\<rparr>\<rparr>)
      | None \<Rightarrow> do {
          len \<leftarrow> round_to_page max_size;
          top \<leftarrow> add_usize ptr len;
          m \<leftarrow> unmap_frames (heap_map h) (step_by 0x1000 ptr top) (heap_phys h);
          Some (h\<lparr>heap_phys := m\<rparr>)
        })"

text \<open>
  The heap of a user process.  The kernel is reached by \<open>mmap_page\<close> and \<open>unmmap_page\<close>: what a call
  returns is an argument, and the calls made are part of the result.
\<close>

datatype page_call = MmapPage nat nat | UnmmapPage nat nat

definition user_slab_alloc ::
  "(nat \<Rightarrow> nat) \<Rightarrow> layout \<Rightarrow> nat list list \<Rightarrow> (nat \<times> nat list list \<times> page_call list) option" where
  "user_slab_alloc mapped_at l heads =
     (let min_size = max (fst l) (snd l) in
      case block_size min_size of
        Some index \<Rightarrow>
          (case heads ! index of
             first # next_node \<Rightarrow> Some (first, heads[index := next_node], [])
           | [] \<Rightarrow>
               (let start = mapped_at 0x1000 in
                case link_blocks start (SLAB_SIZES ! index) of
                  [] \<Rightarrow> None
                | nxt # rest \<Rightarrow> Some (nxt, heads[index := rest], [MmapPage 0 0x1000])))
      | None \<Rightarrow> Some (mapped_at min_size, heads, [MmapPage 0 min_size]))"

definition user_slab_dealloc :: "nat \<Rightarrow> layout \<Rightarrow> nat list list \<Rightarrow> nat list list \<times> page_call list" where
  "user_slab_dealloc ptr l heads =
     (let max_size = max (fst l) (snd l) in
      case block_size max_size of
        Some index \<Rightarrow> (heads[index := ptr # heads ! index], [])
      | None \<Rightarrow> (heads, [UnmmapPage ptr max_size]))"

subsection \<open>Free blocks\<close>

definition slab_valid :: "layout \<Rightarrow> bool" where
  "slab_valid l \<longleftrightarrow> (\<exists>k \<le> 12. snd l = 2 ^ k)"

definition slab_extent :: "layout \<Rightarrow> nat" where
  "slab_extent l =
     (case block_size (max (fst l) (snd l)) of
        Some i \<Rightarrow> SLAB_SIZES ! i
      | None \<Rightarrow> clear_low 12 (max (fst l) (snd l) + 0xFFF))"

definition slab_placed :: "layout \<Rightarrow> nat \<Rightarrow> bool" where
  "slab_placed l p \<longleftrightarrow> snd l dvd p \<and> (\<forall>i. block_size (max (fst l) (snd l)) = Some i \<longrightarrow> SLAB_SIZES ! i dvd p)"

definition free_in :: "nat list list \<Rightarrow> nat \<Rightarrow> nat \<Rightarrow> nat" where
  "free_in heads x i = cover (map (\<lambda>a. (a, SLAB_SIZES ! i)) (heads ! i)) x"

definition slab_owned :: "kernel_heap \<Rightarrow> nat \<Rightarrow> nat" where
  "slab_owned h x = (\<Sum>i < 9. free_in (slab_heads (slab h)) x i)"

definition slab_arena :: "kernel_heap \<Rightarrow> nat \<Rightarrow> nat" where
  "slab_arena h x = (if x < base_address (slab h) then 1 else 0)"

definition slab_ok :: "kernel_heap \<Rightarrow> bool" where
  "slab_ok h \<longleftrightarrow> length (slab_heads (slab h)) = 9 \<and> 0x1000 dvd base_address (slab h) \<and>
     (\<forall>i < 9. \<forall>a \<in> set (slab_heads (slab h) ! i). SLAB_SIZES ! i dvd a)"

lemma SLAB_SIZES_nth:
  assumes "i < 9"
  shows "SLAB_SIZES ! i = 2 ^ (i + 3)"
proof -
  have "SLAB_SIZES = map (\<lambda>i. 2 ^ (i + 3)) [0 ..< 9]" by (simp add: SLAB_SIZES_def upt_rec)
  then have "SLAB_SIZES ! i = map (\<lambda>i. 2 ^ (i + 3)) [0 ..< 9] ! i" by (rule arg_cong)
  also have "\<dots> = 2 ^ (i + 3)" using assms by (subst nth_map) (simp_all del: upt_rec_numeral)
  finally show ?thesis .
qed

lemma block_size_Some: "block_size n = Some i \<Longrightarrow> i < 9 \<and> n \<le> SLAB_SIZES ! i"
  using position_Some [of "\<lambda>sz. sz \<ge> n" SLAB_SIZES i] by (simp add: block_size_def SLAB_SIZES_def)

lemma align_dvd_block:
  assumes "slab_valid l" "block_size (max (fst l) (snd l)) = Some i"
  shows "snd l dvd SLAB_SIZES ! i"
proof -
  from block_size_Some [OF assms(2)] have i: "i < 9" "snd l \<le> SLAB_SIZES ! i" by auto
  from assms(1) obtain k where k: "snd l = 2 ^ k" by (auto simp: slab_valid_def)
  with i have "k \<le> i + 3" by (simp add: SLAB_SIZES_nth)
  then show ?thesis using k i by (simp add: SLAB_SIZES_nth le_imp_power_dvd)
qed

lemma align_dvd_page: "slab_valid l \<Longrightarrow> snd l dvd 0x1000"
  using le_imp_power_dvd [of _ 12 "2 :: nat"] by (auto simp: slab_valid_def)

lemma free_in_update:
  "length heads = 9 \<Longrightarrow> i < 9 \<Longrightarrow>
   (\<Sum>j < 9. free_in (heads[i := xs]) x j) + free_in heads x i = (\<Sum>j < 9. free_in heads x j) + cover (map (\<lambda>a. (a, SLAB_SIZES ! i)) xs) x"
proof -
  assume a: "length heads = 9" "i < 9"
  have "(\<Sum>j < 9. free_in (heads[i := xs]) x j) = free_in (heads[i := xs]) x i + (\<Sum>j \<in> {..<9} - {i}. free_in (heads[i := xs]) x j)"
    using a by (intro sum.remove) auto
  moreover have "(\<Sum>j < 9. free_in heads x j) = free_in heads x i + (\<Sum>j \<in> {..<9} - {i}. free_in heads x j)"
    using a by (intro sum.remove) auto
  moreover have "(\<Sum>j \<in> {..<9} - {i}. free_in (heads[i := xs]) x j) = (\<Sum>j \<in> {..<9} - {i}. free_in heads x j)"
    by (rule sum.cong) (auto simp: free_in_def)
  ultimately show ?thesis using a by (simp add: free_in_def)
qed

lemma cover_row: "cover (map (\<lambda>i. (a + i * s, s)) [0 ..< n]) x = inside x (a, n * s)"
proof (induction n)
  case (Suc n)
  then show ?case by (auto simp: inside_def algebra_simps)
qed (simp add: inside_def)

lemma cover_blocks:
  assumes "s dvd 0x1000" "0 < s"
  shows "cover (map (\<lambda>a. (a, s)) (link_blocks start s)) x = inside x (start, 0x1000)"
proof -
  from assms obtain k where k: "0x1000 = s * k" by (auto elim: dvdE)
  have "(0x1000 + s - 1) div s = (s - 1 + s * k) div s" using assms(2) k by (simp add: algebra_simps)
  also have "\<dots> = k + (s - 1) div s" using assms(2) by (simp only: div_mult_self2 less_not_refl2 not_False_eq_True)
  also have "\<dots> = k" using assms(2) by simp
  finally have "(0x1000 + s - 1) div s = k" .
  then have "step_by s start (start + 0x1000) = map (\<lambda>i. start + i * s) [0 ..< k]" by (simp add: step_by_def)
  then have "link_blocks start s = rev (map (\<lambda>i. start + i * s) [0 ..< k])" by (simp add: link_blocks_def fold_Cons_rev)
  then have "cover (map (\<lambda>a. (a, s)) (link_blocks start s)) x = cover (map (\<lambda>i. (start + i * s, s)) [0 ..< k]) x"
    by (simp add: rev_map [symmetric] comp_def)
  then show ?thesis using k by (simp only: cover_row mult.commute [of k s])
qed

lemma set_link_blocks: "0 < s \<Longrightarrow> a \<in> set (link_blocks start s) \<Longrightarrow> s dvd a - start \<and> start \<le> a"
  by (simp add: link_blocks_def fold_Cons_rev set_step_by)

subsection \<open>The laws of a heap\<close>

lemma block_facts:
  assumes "i < 9"
  shows "0 < SLAB_SIZES ! i" "SLAB_SIZES ! i dvd 0x1000"
proof -
  have "(2 :: nat) ^ (i + 3) dvd 2 ^ 12" by (rule le_imp_power_dvd) (use assms in simp)
  then show "0 < SLAB_SIZES ! i" "SLAB_SIZES ! i dvd 0x1000" using assms by (simp_all add: SLAB_SIZES_nth)
qed

lemma slab_take_law:
  assumes ok: "slab_ok h" and v: "slab_valid l" and i: "block_size (max (fst l) (snd l)) = Some i"
    and c: "slab_heads (slab h) ! i = p # rest"
    and h': "h' = h\<lparr>slab := (slab h)\<lparr>slab_heads := (slab_heads (slab h))[i := rest]\<rparr>\<rparr>"
  shows "slab_ok h' \<and> (\<forall>x. slab_owned h' x + inside x (p, slab_extent l) + slab_arena h x \<le> slab_owned h x + slab_arena h' x) \<and> slab_placed l p"
proof (intro conjI allI)
  from block_size_Some [OF i] have lt: "i < 9" by simp
  have len: "length (slab_heads (slab h)) = 9" using ok by (simp add: slab_ok_def)
  have dv: "\<forall>a \<in> set (slab_heads (slab h) ! i). SLAB_SIZES ! i dvd a" using ok lt by (simp add: slab_ok_def)
  show "slab_ok h'" using ok dv c lt by (auto simp: slab_ok_def h' nth_list_update)
  show "slab_placed l p" using align_dvd_block [OF v i] dv c by (auto simp: slab_placed_def i intro: dvd_trans)
  fix x
  have "slab_owned h' x + free_in (slab_heads (slab h)) x i = slab_owned h x + cover (map (\<lambda>a. (a, SLAB_SIZES ! i)) rest) x"
    unfolding slab_owned_def h' using free_in_update [OF len lt, of rest x] by simp
  moreover have "free_in (slab_heads (slab h)) x i = inside x (p, SLAB_SIZES ! i) + cover (map (\<lambda>a. (a, SLAB_SIZES ! i)) rest) x"
    by (simp add: free_in_def c)
  ultimately show "slab_owned h' x + inside x (p, slab_extent l) + slab_arena h x \<le> slab_owned h x + slab_arena h' x"
    by (simp add: slab_extent_def i slab_arena_def h')
qed

lemma slab_page_law:
  assumes ok: "slab_ok h" and v: "slab_valid l" and i: "block_size (max (fst l) (snd l)) = Some i"
    and c: "slab_heads (slab h) ! i = []" and b: "link_blocks (base_address (slab h)) (SLAB_SIZES ! i) = p # rest"
    and h': "h' = h\<lparr>heap_phys := m, slab := \<lparr>slab_heads = (slab_heads (slab h))[i := rest], base_address = base_address (slab h) + 0x1000\<rparr>\<rparr>"
  shows "slab_ok h' \<and> (\<forall>x. slab_owned h' x + inside x (p, slab_extent l) + slab_arena h x \<le> slab_owned h x + slab_arena h' x) \<and> slab_placed l p"
proof (intro conjI allI)
  from block_size_Some [OF i] have lt: "i < 9" by simp
  note bf = block_facts [OF lt]
  have len: "length (slab_heads (slab h)) = 9" and al: "0x1000 dvd base_address (slab h)" using ok by (simp_all add: slab_ok_def)
  have "SLAB_SIZES ! i dvd a" if "a \<in> set (p # rest)" for a
  proof -
    from set_link_blocks [OF bf(1)] that b have "SLAB_SIZES ! i dvd a - base_address (slab h)" "base_address (slab h) \<le> a" by metis+
    then show ?thesis using dvd_trans [OF bf(2) al] by (metis dvd_add le_add_diff_inverse)
  qed
  then have dv: "\<forall>a \<in> set rest. SLAB_SIZES ! i dvd a" "SLAB_SIZES ! i dvd p" by auto
  show "slab_ok h'" using ok dv(1) lt al by (auto simp: slab_ok_def h' nth_list_update intro: dvd_add)
  show "slab_placed l p" using align_dvd_block [OF v i] dv(2) by (auto simp: slab_placed_def i intro: dvd_trans)
  fix x
  have "slab_owned h' x = slab_owned h x + cover (map (\<lambda>a. (a, SLAB_SIZES ! i)) rest) x"
    unfolding slab_owned_def h' using free_in_update [OF len lt, of rest x] by (simp add: free_in_def [of _ _ i] c)
  moreover have "inside x (p, SLAB_SIZES ! i) + cover (map (\<lambda>a. (a, SLAB_SIZES ! i)) rest) x = inside x (base_address (slab h), 0x1000)"
    using cover_blocks [OF bf(2,1), of "base_address (slab h)" x] by (simp add: b)
  moreover have "inside x (base_address (slab h), 0x1000) + slab_arena h x = slab_arena h' x"
    by (auto simp: inside_def slab_arena_def h')
  ultimately show "slab_owned h' x + inside x (p, slab_extent l) + slab_arena h x \<le> slab_owned h x + slab_arena h' x"
    by (simp add: slab_extent_def i)
qed

lemma round_to_page_Some: "round_to_page n = Some k \<Longrightarrow> k = clear_low 12 (n + 0xFFF) \<and> 0x1000 dvd k \<and> n \<le> k"
proof -
  have "n \<le> (n + 0xFFF) div 0x1000 * 0x1000" using round_up_le [of "0x1000" n] by simp
  then show "round_to_page n = Some k \<Longrightarrow> ?thesis"
    by (auto simp: round_to_page_def add_usize_def clear_low_def bind_eq_Some_conv split: if_splits)
qed

lemma slab_large_law:
  assumes ok: "slab_ok h" and v: "slab_valid l" and i: "block_size (max (fst l) (snd l)) = None"
    and r: "round_to_page (max (fst l) (snd l)) = Some n"
    and h': "h' = h\<lparr>heap_phys := m, slab := (slab h)\<lparr>base_address := base_address (slab h) + n\<rparr>\<rparr>"
  shows "slab_ok h' \<and> (\<forall>x. slab_owned h' x + inside x (base_address (slab h), slab_extent l) + slab_arena h x \<le> slab_owned h x + slab_arena h' x) \<and>
    slab_placed l (base_address (slab h))"
proof (intro conjI allI)
  note n = round_to_page_Some [OF r]
  have al: "0x1000 dvd base_address (slab h)" using ok by (simp add: slab_ok_def)
  show "slab_ok h'" using ok n by (auto simp: slab_ok_def h' intro: dvd_add)
  show "slab_placed l (base_address (slab h))" using align_dvd_page [OF v] al by (auto simp: slab_placed_def i intro: dvd_trans)
  fix x
  show "slab_owned h' x + inside x (base_address (slab h), slab_extent l) + slab_arena h x \<le> slab_owned h x + slab_arena h' x"
    using n by (auto simp: slab_extent_def i slab_owned_def slab_arena_def inside_def h')
qed

lemma slab_alloc_law:
  assumes "slab_ok h" "slab_valid l" "slab_alloc l h = Some (r, h')"
  shows "\<exists>p. r = Some p \<and> slab_ok h' \<and>
    (\<forall>x. slab_owned h' x + inside x (p, slab_extent l) + slab_arena h x \<le> slab_owned h x + slab_arena h' x) \<and> slab_placed l p"
proof (cases "block_size (max (fst l) (snd l))")
  case None
  from assms(3) obtain n m where "round_to_page (max (fst l) (snd l)) = Some n" and r: "r = Some (base_address (slab h))"
    and "h' = h\<lparr>heap_phys := m, slab := (slab h)\<lparr>base_address := base_address (slab h) + n\<rparr>\<rparr>"
    by (auto simp: slab_alloc_def Let_def None bind_eq_Some_conv add_usize_def split: if_splits)
  from slab_large_law [OF assms(1,2) None this(1,3)] r show ?thesis by blast
next
  case (Some i)
  show ?thesis
  proof (cases "slab_heads (slab h) ! i")
    case Nil
    from assms(3) obtain p rest m where "link_blocks (base_address (slab h)) (SLAB_SIZES ! i) = p # rest" and r: "r = Some p"
      and "h' = h\<lparr>heap_phys := m, slab := \<lparr>slab_heads = (slab_heads (slab h))[i := rest], base_address = base_address (slab h) + 0x1000\<rparr>\<rparr>"
      by (cases "link_blocks (base_address (slab h)) (SLAB_SIZES ! i)")
        (auto simp: slab_alloc_def Let_def Some Nil bind_eq_Some_conv add_usize_def split: if_splits)
    from slab_page_law [OF assms(1,2) Some Nil this(1,3)] r show ?thesis by blast
  next
    case (Cons p rest)
    from assms(3) have r: "r = Some p" and "h' = h\<lparr>slab := (slab h)\<lparr>slab_heads := (slab_heads (slab h))[i := rest]\<rparr>\<rparr>"
      by (simp_all add: slab_alloc_def Let_def Some Cons)
    from slab_take_law [OF assms(1,2) Some Cons this(2)] r show ?thesis by blast
  qed
qed

lemma slab_dealloc_law:
  assumes ok: "slab_ok h" and v: "slab_valid l" and al: "slab_placed l p"
    and d: "slab_dealloc p l h = Some h'"
  shows "slab_ok h' \<and> (\<forall>x. slab_owned h' x + slab_arena h x \<le> slab_owned h x + inside x (p, slab_extent l) + slab_arena h' x)"
proof (cases "block_size (max (fst l) (snd l))")
  case None
  from d obtain m where "h' = h\<lparr>heap_phys := m\<rparr>" by (auto simp: slab_dealloc_def Let_def None bind_eq_Some_conv)
  then show ?thesis using ok by (simp add: slab_ok_def slab_owned_def slab_arena_def)
next
  case (Some i)
  from block_size_Some [OF Some] have lt: "i < 9" by simp
  have len: "length (slab_heads (slab h)) = 9" using ok by (simp add: slab_ok_def)
  from d have h': "h' = h\<lparr>slab := (slab h)\<lparr>slab_heads := (slab_heads (slab h))[i := p # slab_heads (slab h) ! i]\<rparr>\<rparr>"
    by (simp add: slab_dealloc_def Let_def Some)
  have "slab_ok h'" using ok al lt by (auto simp: slab_ok_def h' nth_list_update Some slab_placed_def)
  moreover have "slab_owned h' x = slab_owned h x + inside x (p, slab_extent l)" for x
    unfolding slab_owned_def h' using free_in_update [OF len lt, of "p # slab_heads (slab h) ! i" x]
    by (simp add: free_in_def [of "slab_heads (slab h)" x i] slab_extent_def Some)
  ultimately show ?thesis by (simp add: slab_arena_def h')
qed

interpretation slab: heap slab_alloc slab_dealloc slab_valid slab_extent slab_placed slab_owned slab_arena slab_ok
proof (unfold_locales, goal_cases)
  case (1 h l p h')
  from slab_alloc_law [OF this] show ?case by blast
next
  case (2 h l h')
  from slab_alloc_law [OF this] show ?case by blast
next
  case (3 h l p h')
  then show ?case by (rule slab_dealloc_law)
next
  case (4 l p)
  then show ?case by (simp add: slab_placed_def)
next
  case (5 h x)
  show ?case by (simp add: slab_arena_def)
next
  case (6 l)
  then obtain k where "snd l = 2 ^ k" by (auto simp: slab_valid_def)
  then have pos: "0 < max (fst l) (snd l)" by (simp add: less_max_iff_disj)
  have up: "n \<le> clear_low 12 (n + 0xFFF)" for n
    using round_up_le [of "0x1000" n] by (simp add: clear_low_def)
  have "max (fst l) (snd l) \<le> slab_extent l"
  proof (cases "block_size (max (fst l) (snd l))")
    case None
    show ?thesis unfolding slab_extent_def None option.case by (rule up)
  next
    case (Some i)
    show ?thesis unfolding slab_extent_def Some option.case using block_size_Some [OF Some] by (rule conjunct2)
  qed
  with pos show ?case by linarith
qed

text \<open>
  C8. The kernel heap never hands out overlapping or misaligned memory.  Start it at a page-aligned
  address with any page table and physical memory, and let any sequence of \<open>alloc\<close> and \<open>dealloc\<close>
  run, where the alignments are powers of two of at most a page and \<open>dealloc\<close> is called on live
  blocks with the layout they were allocated with.  Then every live block starts at a multiple of its
  alignment and no two live blocks share a byte.
\<close>

theorem slab_blocks_separate:
  assumes "0x1000 dvd start"
    and "heap_run slab_alloc slab_dealloc slab_valid \<lparr>slab = slab_new start, heap_phys = m, heap_map = t\<rparr> h ls"
  shows "(\<forall>(p, l) \<in> set ls. snd l dvd p) \<and>
    (\<forall>i j. i < j \<longrightarrow> j < length ls \<longrightarrow> \<not> overlap (fst (ls ! i), fst (snd (ls ! i))) (fst (ls ! j), fst (snd (ls ! j))))"
proof (rule slab.live_blocks [OF assms(2)])
  have len: "length SLAB_SIZES = 9" by (simp add: SLAB_SIZES_def)
  have n: "replicate (length SLAB_SIZES) [] ! i = []" if "i < 9" for i
    unfolding len by (rule nth_replicate [OF that])
  show "slab_ok \<lparr>slab = slab_new start, heap_phys = m, heap_map = t\<rparr>"
    using assms(1) n len by (simp add: slab_ok_def slab_new_def)
  show "\<forall>x. slab_owned \<lparr>slab = slab_new start, heap_phys = m, heap_map = t\<rparr> x \<le> slab_arena \<lparr>slab = slab_new start, heap_phys = m, heap_map = t\<rparr> x"
    by (rule allI, rule order_trans [OF eq_refl le0], unfold slab_owned_def, rule sum.neutral)
      (simp add: slab_new_def free_in_def n)
qed

text \<open>A machine for the witness: the tables of the first heap page are present, one frame is free.\<close>

definition heap_entry :: "nat \<Rightarrow> PageDirectoryEntry" where
  "heap_entry a = zero_entry\<lparr>present := True, internal_address := a div 0x1000\<rparr>"

definition heap_machine :: phys where
  "heap_machine = \<lparr>tables = (\<lambda>t i. if t = 0x9000 then heap_entry 0xA000 else if t = 0xA000 then heap_entry 0xB000 else zero_entry),
     frames = \<lparr>free_lists = (\<lambda>k. if k = 0 then [0x4000] else []), reserved_32bit = [], captured_0x8000 = False, total_free = 0\<rparr>\<rparr>"

lemma heap_machine_maps: "\<exists>m. map_frame 0x9000 0xFFFFFF0000000000 heap_machine = Some m"
proof -
  have pg: "page_new Size4KB 0xFFFFFF0000000000 = Some 0xFFFFFF0000000000" "page_new Size4KB 0x4000 = Some 0x4000"
    by (auto simp: page_new_Some canonical_def PAGE_SIZE_def)
  have "allocate_page (frames heap_machine) = Some (Some 0x4000, (frames heap_machine)\<lparr>free_lists := (free_lists (frames heap_machine))(0 := [])\<rparr>)"
    by (simp add: allocate_page_def request_page_of_order.simps heap_machine_def pg)
  then show ?thesis
    by (simp add: map_frame_def pg numeral_3_eq_3 next_table_def map_inner_def heap_machine_def heap_entry_def
      zero_entry_def get_address_def set_address_def rassert_def shr_def Let_def)
qed

lemma block_size_24: "block_size 24 = Some 2"
  by (simp add: block_size_def SLAB_SIZES_def)

lemma link_blocks_two: "\<exists>p q rest. link_blocks a 32 = p # q # rest"
proof -
  have "length (link_blocks a 32) = 128" by (simp add: link_blocks_def fold_Cons_rev)
  then show ?thesis by (cases "link_blocks a 32"; cases "tl (link_blocks a 32)") auto
qed

theorem slab_blocks_separate_witness:
  "\<exists>h p q. heap_run slab_alloc slab_dealloc slab_valid
       \<lparr>slab = slab_new 0xFFFFFF0000000000, heap_phys = heap_machine, heap_map = 0x9000\<rparr> h [(q, (24, 8)), (p, (24, 8))] \<and>
     8 dvd p \<and> 8 dvd q \<and> \<not> overlap (q, 24) (p, 24)"
proof -
  define h0 where "h0 = \<lparr>slab = slab_new 0xFFFFFF0000000000, heap_phys = heap_machine, heap_map = 0x9000\<rparr>"
  obtain m where m: "map_frame 0x9000 0xFFFFFF0000000000 heap_machine = Some m" using heap_machine_maps by blast
  obtain p q rest where l: "link_blocks 0xFFFFFF0000000000 32 = p # q # rest" using link_blocks_two by blast
  define h1 where "h1 = h0\<lparr>heap_phys := m, slab := \<lparr>slab_heads = (slab_heads (slab h0))[2 := q # rest], base_address = 0xFFFFFF0000001000\<rparr>\<rparr>"
  define h2 where "h2 = h1\<lparr>slab := (slab h1)\<lparr>slab_heads := (slab_heads (slab h1))[2 := rest]\<rparr>\<rparr>"
  have s: "SLAB_SIZES ! 2 = 32" "length SLAB_SIZES = 9" by (simp_all add: SLAB_SIZES_def)
  have v: "slab_valid (24, 8)" by (auto simp: slab_valid_def intro: exI [of _ 3])
  have a1: "slab_alloc (24, 8) h0 = Some (Some p, h1)"
    by (simp add: slab_alloc_def block_size_24 h0_def slab_new_def s l m add_usize_def h1_def)
  have a2: "slab_alloc (24, 8) h1 = Some (Some q, h2)"
    by (simp add: slab_alloc_def block_size_24 h1_def h2_def h0_def slab_new_def s)
  have r: "heap_run slab_alloc slab_dealloc slab_valid h0 h2 [(q, (24, 8)), (p, (24, 8))]"
    by (rule heap_run.Alloc, rule heap_run.Alloc, rule heap_run.Start) (rule v a1 a2)+
  have "0x1000 dvd (0xFFFFFF0000000000 :: nat)" by simp
  note c = slab_blocks_separate [OF this r [unfolded h0_def]]
  have "8 dvd p \<and> 8 dvd q" using conjunct1 [OF c] by simp
  moreover have "\<not> overlap (q, 24) (p, 24)" using conjunct2 [OF c, rule_format, of 0 1] by simp
  ultimately have "8 dvd p \<and> 8 dvd q \<and> \<not> overlap (q, 24) (p, 24)" by blast
  with r show ?thesis unfolding h0_def by blast
qed

end
