(* ===== verification/Linked_List_Heap.thy ===== *)
theory Linked_List_Heap
  imports Heap_Interface
begin

text \<open>
  The linked-list heap (\<open>kernel/src/allocator/linked_list.rs\<close>, kept in the tree as an alternative to
  the slab heap).  The free list is the list of address and size of its nodes, in the order in which
  they are linked; a node takes 16 bytes and is aligned to 8.
\<close>

subsection \<open>Definitions\<close>

type_synonym free_list = "(nat \<times> nat) list"

definition align_up :: "nat \<Rightarrow> nat \<Rightarrow> nat option" where
  "align_up addr align = do {
     rassert (align \<noteq> 0);
     let remainder = addr mod align;
     if remainder = 0 then Some addr else add_usize (addr - remainder) align
   }"

definition end_addr :: "nat \<times> nat \<Rightarrow> nat option" where
  "end_addr r = add_usize (fst r) (snd r)"

definition add_free_region :: "nat \<Rightarrow> nat \<Rightarrow> free_list \<Rightarrow> free_list option" where
  "add_free_region addr sz fl = do {
     a \<leftarrow> align_up addr 8;
     rassert (a = addr);
     rassert (sz \<ge> 16);
     Some ((addr, sz) # fl)
   }"

definition ll_init :: "nat \<Rightarrow> nat \<Rightarrow> free_list option" where
  "ll_init heap_start heap_size = add_free_region heap_start heap_size []"

definition alloc_from_region :: "nat \<times> nat \<Rightarrow> nat \<Rightarrow> nat \<Rightarrow> (unit + nat) option" where
  "alloc_from_region region sz align = do {
     alloc_start \<leftarrow> align_up (fst region) align;
     case add_usize alloc_start sz of
       None \<Rightarrow> Some (Inl ())
     | Some alloc_end \<Rightarrow> do {
         e \<leftarrow> end_addr region;
         if alloc_end > e then Some (Inl ())
         else do {
           excess_size \<leftarrow> sub_usize e alloc_end;
           if excess_size > 0 \<and> excess_size < 16 then Some (Inl ()) else Some (Inr alloc_start)
         }
       }
   }"

primrec find_region :: "nat \<Rightarrow> nat \<Rightarrow> free_list \<Rightarrow> (((nat \<times> nat) \<times> nat) option \<times> free_list) option" where
  "find_region sz align [] = Some (None, [])"
| "find_region sz align (this_region # next_free) = do {
     r \<leftarrow> alloc_from_region this_region sz align;
     case r of
       Inr alloc_start \<Rightarrow> Some (Some (this_region, alloc_start), next_free)
     | Inl _ \<Rightarrow> do {
         (found, rest) \<leftarrow> find_region sz align next_free;
         Some (found, this_region # rest)
       }
   }"

definition size_align :: "layout \<Rightarrow> (nat \<times> nat) option" where
  "size_align l = do {
     let align = max (snd l) 8;
     rassert (fst l + align \<le> 2 ^ 63);
     let sz = (fst l + align - 1) div align * align;
     Some (max sz 16, align)
   }"

definition ll_alloc :: "layout \<Rightarrow> free_list \<Rightarrow> (nat option \<times> free_list) option" where
  "ll_alloc l fl = do {
     (sz, align) \<leftarrow> size_align l;
     (found, rest) \<leftarrow> find_region sz align fl;
     case found of
       None \<Rightarrow> Some (None, rest)
     | Some (region, alloc_start) \<Rightarrow> do {
         alloc_end \<leftarrow> add_usize alloc_start sz;
         e \<leftarrow> end_addr region;
         excess_size \<leftarrow> sub_usize e alloc_end;
         fl' \<leftarrow> (if excess_size > 0 then add_free_region alloc_end excess_size rest else Some rest);
         Some (Some alloc_start, fl')
       }
   }"

definition ll_dealloc :: "nat \<Rightarrow> layout \<Rightarrow> free_list \<Rightarrow> free_list option" where
  "ll_dealloc ptr l fl = do {
     (sz, _) \<leftarrow> size_align l;
     add_free_region ptr sz fl
   }"

subsection \<open>The laws of a heap\<close>

definition ll_valid :: "layout \<Rightarrow> bool" where
  "ll_valid l \<longleftrightarrow> (\<exists>k. snd l = 2 ^ k) \<and> fst l + max (snd l) 8 \<le> 2 ^ 63"

definition ll_extent :: "layout \<Rightarrow> nat" where
  "ll_extent l = (case size_align l of Some (sz, _) \<Rightarrow> sz | None \<Rightarrow> fst l)"

definition ll_placed :: "layout \<Rightarrow> nat \<Rightarrow> bool" where
  "ll_placed l p \<longleftrightarrow> max (snd l) 8 dvd p"

definition ll_ok :: "free_list \<Rightarrow> bool" where
  "ll_ok fl \<longleftrightarrow> list_all (\<lambda>(a, n). 8 dvd a \<and> 16 \<le> n) fl"

lemma ll_align:
  assumes "ll_valid l"
  shows "8 dvd max (snd l) 8" "snd l dvd max (snd l) 8" "max (snd l) 8 \<le> 2 ^ 63"
proof -
  from assms obtain k where k: "snd l = 2 ^ k" and le: "fst l + max (snd l) 8 \<le> 2 ^ 63" by (auto simp: ll_valid_def)
  have e: "max (snd l) 8 = 2 ^ max k 3"
    using power_increasing_iff [of "2 :: nat" k 3] power_increasing_iff [of "2 :: nat" 3 k] by (auto simp: k max_def)
  have "(2 :: nat) ^ 3 dvd 2 ^ max k 3" by (rule le_imp_power_dvd) simp
  then show "8 dvd max (snd l) 8" by (simp only: e) simp
  show "snd l dvd max (snd l) 8" unfolding e by (simp only: k) (rule le_imp_power_dvd, simp)
  show "max (snd l) 8 \<le> 2 ^ 63" using le by linarith
qed

lemma size_align_Some:
  assumes "ll_valid l"
  shows "\<exists>sz. size_align l = Some (sz, max (snd l) 8) \<and> ll_extent l = sz \<and> 8 dvd sz \<and> 16 \<le> sz \<and> fst l \<le> sz"
proof -
  define al where "al = max (snd l) 8"
  have "0 < al" by (simp add: al_def)
  from round_up_le [OF this] have "fst l \<le> (fst l + al - 1) div al * al" .
  moreover have "8 dvd (fst l + al - 1) div al * al" using ll_align(1) [OF assms] by (simp add: al_def)
  moreover define sz where "sz = max ((fst l + al - 1) div al * al) 16"
  ultimately have sz: "8 dvd sz" "16 \<le> sz" "fst l \<le> sz" by (simp_all add: max_def)
  have "fst l + al \<le> 2 ^ 63" using assms by (simp add: ll_valid_def al_def)
  then have "size_align l = Some (sz, al)"
    unfolding size_align_def al_def [symmetric] Let_def sz_def by (simp add: rassert_def)
  then show ?thesis unfolding al_def [symmetric] using sz by (intro exI [of _ sz]) (simp add: ll_extent_def)
qed

lemma align_up_Some:
  assumes "align_up a n = Some b"
  shows "a \<le> b \<and> n dvd b"
proof (cases "a mod n = 0")
  case True
  with assms show ?thesis by (simp add: align_up_def Let_def rassert_def bind_eq_Some_conv dvd_eq_mod_eq_0 split: if_splits)
next
  case False
  with assms have b: "b = a - a mod n + n" and n: "n \<noteq> 0"
    by (simp_all add: align_up_def Let_def rassert_def add_usize_def bind_eq_Some_conv split: if_splits)
  have "a mod n < n" using n by simp
  moreover have "n dvd a - a mod n" by (rule dvd_minus_mod)
  then have "n dvd a - a mod n + n" by (rule dvd_add) simp
  ultimately show ?thesis unfolding b by (intro conjI) simp_all
qed

lemma alloc_from_region_Some:
  "alloc_from_region (a, n) sz align = Some (Inr s) \<Longrightarrow>
   a \<le> s \<and> align dvd s \<and> s + sz \<le> a + n \<and> (s + sz = a + n \<or> s + sz + 16 \<le> a + n) \<and> a + n < 2 ^ 64"
  by (auto simp: alloc_from_region_def end_addr_def bind_eq_Some_conv add_usize_def sub_usize_def
    split: option.splits if_splits dest!: align_up_Some)

lemma find_region_Some:
  "find_region sz align fl = Some (found, rest) \<Longrightarrow>
   (case found of
      None \<Rightarrow> rest = fl
    | Some (region, s) \<Rightarrow> alloc_from_region region sz align = Some (Inr s) \<and>
        (\<exists>us vs. fl = us @ region # vs \<and> rest = us @ vs))"
proof (induction fl arbitrary: found rest)
  case (Cons r fl)
  from Cons.prems obtain x where x: "alloc_from_region r sz align = Some x" by (auto simp: bind_eq_Some_conv)
  show ?case
  proof (cases x)
    case (Inr s)
    with Cons.prems x have "found = Some (r, s)" "rest = fl" by auto
    with x Inr show ?thesis by (auto intro: exI [of _ "[]"])
  next
    case (Inl u)
    with Cons.prems x obtain rest' where "find_region sz align fl = Some (found, rest')" and rest: "rest = r # rest'"
      by (auto simp: bind_eq_Some_conv)
    note ih = Cons.IH [OF this(1)]
    show ?thesis
    proof (cases found)
      case None
      with ih rest show ?thesis by simp
    next
      case (Some f)
      obtain region s where f: "f = (region, s)" by (cases f) blast
      with ih Some obtain us vs where "alloc_from_region region sz align = Some (Inr s)" "fl = us @ region # vs" "rest' = us @ vs" by auto
      then show ?thesis using Some f rest by (simp, intro exI [of _ "r # us"] exI [of _ vs], simp)
    qed
  qed
qed simp

lemma add_free_region_Some:
  "add_free_region a n fl = Some fl' \<longleftrightarrow> 8 dvd a \<and> 16 \<le> n \<and> fl' = (a, n) # fl"
proof (cases "8 dvd a")
  case True
  then have "align_up a 8 = Some a" by (simp add: align_up_def rassert_def Let_def)
  then show ?thesis using True by (auto simp: add_free_region_def rassert_def)
next
  case False
  have "add_free_region a n fl = None"
  proof (cases "align_up a 8")
    case (Some b)
    then have "b \<noteq> a" using align_up_Some [OF Some] False by blast
    with Some show ?thesis by (simp add: add_free_region_def rassert_def)
  qed (simp add: add_free_region_def)
  then show ?thesis using False by simp
qed

lemma inside_split:
  "a \<le> s \<Longrightarrow> s + sz \<le> a + n \<Longrightarrow> inside x (s + sz, a + n - (s + sz)) + inside x (s, sz) \<le> inside x (a, n)"
  by (auto simp: inside_def)

lemma ll_alloc_found:
  assumes "size_align l = Some (sz, al)" "find_region sz al fl = Some (Some ((b, n), s), rest)"
  shows "p \<noteq> s \<Longrightarrow> ll_alloc l fl \<noteq> Some (Some p, fl')"
    and "s + sz \<le> b + n \<Longrightarrow> b + n < 2 ^ 64 \<Longrightarrow> ll_alloc l fl =
      map_option (Pair (Some s)) (if s + sz < b + n then add_free_region (s + sz) (b + n - (s + sz)) rest else Some rest)"
proof -
  show "p \<noteq> s \<Longrightarrow> ll_alloc l fl \<noteq> Some (Some p, fl')"
    unfolding ll_alloc_def assms(1) by (simp add: assms(2) bind_eq_Some_conv)
  assume "s + sz \<le> b + n" "b + n < 2 ^ 64"
  then have "add_usize s sz = Some (s + sz)" "end_addr (b, n) = Some (b + n)" "sub_usize (b + n) (s + sz) = Some (b + n - (s + sz))"
    by (simp_all add: add_usize_def end_addr_def sub_usize_def)
  then show "ll_alloc l fl =
      map_option (Pair (Some s)) (if s + sz < b + n then add_free_region (s + sz) (b + n - (s + sz)) rest else Some rest)"
    unfolding ll_alloc_def assms(1) by (cases "add_free_region (s + sz) (b + n - (s + sz)) rest") (simp_all add: assms(2))
qed

lemma ll_alloc_none: "size_align l = Some (sz, al) \<Longrightarrow> find_region sz al fl = Some (None, rest) \<Longrightarrow> ll_alloc l fl = Some (None, rest)"
  by (simp add: ll_alloc_def)

lemma ll_alloc_find: "size_align l = Some (sz, al) \<Longrightarrow> ll_alloc l fl = Some r \<Longrightarrow> \<exists>found rest. find_region sz al fl = Some (found, rest)"
  by (cases "find_region sz al fl") (auto simp: ll_alloc_def)

lemma ll_alloc_Some_None: "size_align l = Some (sz, al) \<Longrightarrow> find_region sz al fl = Some (Some f, rest) \<Longrightarrow> ll_alloc l fl \<noteq> Some (None, fl')"
  by (cases f) (simp add: ll_alloc_def bind_eq_Some_conv)

lemma ll_alloc_law:
  assumes ok: "ll_ok fl" and v: "ll_valid l" and a: "ll_alloc l fl = Some (Some p, fl')"
  shows "ll_ok fl' \<and> (\<forall>x. cover fl' x + inside x (p, ll_extent l) \<le> cover fl x) \<and> ll_placed l p"
proof -
  from size_align_Some [OF v] obtain sz where sz: "size_align l = Some (sz, max (snd l) 8)" "ll_extent l = sz" "8 dvd sz" by auto
  from ll_alloc_find [OF sz(1) a] obtain found rest where f: "find_region sz (max (snd l) 8) fl = Some (found, rest)" by blast
  with a ll_alloc_none [OF sz(1)] obtain r where r: "found = Some r" by (cases found) auto
  obtain b n s where bns: "r = ((b, n), s)" by (cases r; cases "fst r") auto
  have "s = p" using ll_alloc_found(1) [OF sz(1) f [unfolded r bns], of p fl'] a by blast
  then have found: "found = Some ((b, n), p)" using r bns by simp
  note f = f [unfolded found]
  from find_region_Some [OF f] obtain us vs where reg: "alloc_from_region (b, n) sz (max (snd l) 8) = Some (Inr p)"
    and fl: "fl = us @ (b, n) # vs" "rest = us @ vs" by auto
  note r = alloc_from_region_Some [OF reg]
  have okr: "ll_ok rest" using ok by (simp add: fl ll_ok_def)
  have "8 dvd p" using dvd_trans [OF ll_align(1) [OF v]] r by blast
  define next_list where "next_list = (if p + sz < b + n then add_free_region (p + sz) (b + n - (p + sz)) rest else Some rest)"
  have "map_option (Pair (Some p)) next_list = Some (Some p, fl')"
    using ll_alloc_found(2) [OF sz(1) f] r by (simp only: a next_list_def)
  then have "(if p + sz < b + n then add_free_region (p + sz) (b + n - (p + sz)) rest else Some rest) = Some fl'"
    unfolding next_list_def [symmetric] by (simp add: map_option_eq_Some)
  then have e: "fl' = (if p + sz < b + n then (p + sz, b + n - (p + sz)) # rest else rest)" and "ll_ok fl'"
    using r okr sz(3) \<open>8 dvd p\<close> by (auto simp: add_free_region_Some ll_ok_def split: if_splits)
  moreover have "cover fl' x + inside x (p, sz) \<le> cover fl x" for x
  proof -
    have "inside x (p + sz, b + n - (p + sz)) + inside x (p, sz) \<le> inside x (b, n)" by (rule inside_split) (use r in auto)
    then show ?thesis by (simp add: e fl)
  qed
  ultimately show ?thesis using r sz(2) by (simp add: ll_placed_def)
qed

lemma ll_refused_law:
  assumes "ll_valid l" "ll_alloc l fl = Some (None, fl')"
  shows "fl' = fl"
proof -
  from size_align_Some [OF assms(1)] obtain sz where sz: "size_align l = Some (sz, max (snd l) 8)" by auto
  from ll_alloc_find [OF sz assms(2)] obtain found rest where f: "find_region sz (max (snd l) 8) fl = Some (found, rest)" by blast
  with ll_alloc_Some_None [OF sz] assms(2) have "found = None" by (cases found) auto
  with f assms(2) ll_alloc_none [OF sz] find_region_Some [OF f] show ?thesis by simp
qed

interpretation ll: heap ll_alloc ll_dealloc ll_valid ll_extent ll_placed cover "\<lambda>_ _. 1" ll_ok
proof (unfold_locales, goal_cases)
  case (1 h l p h')
  from ll_alloc_law [OF this] show ?case by simp
next
  case (2 h l h')
  with ll_refused_law [OF this(2,3)] show ?case by simp
next
  case (3 h l p h')
  from size_align_Some [OF this(2)] obtain sz where sz: "size_align l = Some (sz, max (snd l) 8)" "ll_extent l = sz" by auto
  with 3(4) have "8 dvd p \<and> 16 \<le> sz \<and> h' = (p, sz) # h" by (simp add: ll_dealloc_def add_free_region_Some)
  then show ?case using 3(1) sz(2) by (simp add: ll_ok_def)
next
  case (4 l p)
  from dvd_trans [OF ll_align(2) [OF 4(1)] 4(2) [unfolded ll_placed_def]] show ?case .
next
  case (6 l)
  from size_align_Some [OF this] show ?case by auto
qed simp

text \<open>The assertions on a node that \<open>dealloc\<close> links never fail for a block of this heap.\<close>

lemma ll_dealloc_asserts:
  assumes "ll_valid l" "ll_placed l p"
  shows "ll_dealloc p l fl = Some ((p, ll_extent l) # fl)"
proof -
  from size_align_Some [OF assms(1)] obtain sz where sz: "size_align l = Some (sz, max (snd l) 8)" "ll_extent l = sz" "16 \<le> sz" by auto
  have "8 dvd p" by (rule dvd_trans [OF ll_align(1) [OF assms(1)] assms(2) [unfolded ll_placed_def]])
  with sz show ?thesis by (simp add: ll_dealloc_def add_free_region_Some)
qed

lemma ll_blocks_separate:
  assumes "ll_init start sz = Some fl0" "heap_run ll_alloc ll_dealloc ll_valid fl0 fl ls"
  shows "(\<forall>(p, l) \<in> set ls. snd l dvd p) \<and>
    (\<forall>i j. i < j \<longrightarrow> j < length ls \<longrightarrow> \<not> overlap (fst (ls ! i), fst (snd (ls ! i))) (fst (ls ! j), fst (snd (ls ! j))))"
proof (rule ll.live_blocks [OF assms(2)])
  have fl0: "8 dvd start" "16 \<le> sz" "fl0 = [(start, sz)]" using assms(1) by (simp_all add: ll_init_def add_free_region_Some)
  then show "ll_ok fl0" "\<forall>x. cover fl0 x \<le> 1" by (simp_all add: ll_ok_def inside_def)
qed

end
