(* ===== verification/Net.thy ===== *)
theory Net
  imports Bytes
begin

text \<open>
  Networking: addresses (\<open>kernel_userspace/src/net.rs\<close>), Ethernet frames and the address resolution
  protocol (\<open>kernel/src/net/\<close>), and the client (\<open>net/src/main.rs\<close>).  Packets are byte strings; the
  getters and setters that \<open>modular_bitfield\<close> generates read and write little-endian fields, and a
  setter panics on a value that is too wide.
\<close>

subsection \<open>Addresses\<close>

datatype IPAddr = V4 u8 u8 u8 u8

record NotSameSubnetError =
  subnet_a :: IPAddr
  subnet_b :: IPAddr
  subnet_mask :: u32

definition ipv4_addr_from_net :: "u32 \<Rightarrow> IPAddr" where
  "ipv4_addr_from_net ip = V4 (ucast ip) (ucast (drop_bit 8 ip)) (ucast (drop_bit 16 ip)) (ucast (drop_bit 24 ip))"

fun as_net_be :: "IPAddr \<Rightarrow> u32" where
  "as_net_be (V4 a b c d) = ucast a OR push_bit 8 (ucast b) OR push_bit 16 (ucast c) OR push_bit 24 (ucast d)"

fun ip_number :: "IPAddr \<Rightarrow> u32" where
  "ip_number (V4 a b c d) = push_bit 24 (ucast a) OR push_bit 16 (ucast b) OR push_bit 8 (ucast c) OR ucast d"

definition same_subnet :: "IPAddr \<Rightarrow> IPAddr \<Rightarrow> u32 \<Rightarrow> NotSameSubnetError + unit" where
  "same_subnet ip1 ip2 subnet =
     (if ip_number ip1 AND subnet = ip_number ip2 AND subnet then Inr ()
      else Inl \<lparr>subnet_a = ip1, subnet_b = ip2, subnet_mask = subnet\<rparr>)"

subsection \<open>Frames\<close>

record EthernetFrameHeader =
  dst_mac_be :: nat
  src_mac_be :: nat
  ether_type_be :: u16

definition header_bytes :: "EthernetFrameHeader \<Rightarrow> u8 list" where
  "header_bytes h = to_le 6 (dst_mac_be h) @ to_le 6 (src_mac_be h) @ to_le 2 (unat (ether_type_be h))"

definition read_header :: "u8 list \<Rightarrow> EthernetFrameHeader" where
  "read_header buf = \<lparr>dst_mac_be = field 0 6 buf, src_mac_be = field 6 6 buf, ether_type_be = of_nat (field 12 2 buf)\<rparr>"

record ARP =
  hardware_type :: u16
  protocol :: u16
  hardware_addr_size :: u8
  protocol_addr_size :: u8
  operation :: u16
  src_mac :: nat
  src_ip :: u32
  dst_mac :: nat
  dst_ip :: u32

definition arp_bytes :: "ARP \<Rightarrow> u8 list" where
  "arp_bytes a = to_le 2 (unat (hardware_type a)) @ to_le 2 (unat (protocol a)) @ to_le 1 (unat (hardware_addr_size a)) @
     to_le 1 (unat (protocol_addr_size a)) @ to_le 2 (unat (operation a)) @ to_le 6 (src_mac a) @ to_le 4 (unat (src_ip a)) @
     to_le 6 (dst_mac a) @ to_le 4 (unat (dst_ip a))"

definition read_arp :: "u8 list \<Rightarrow> ARP" where
  "read_arp buf = \<lparr>hardware_type = of_nat (field 0 2 buf), protocol = of_nat (field 2 2 buf),
     hardware_addr_size = of_nat (field 4 1 buf), protocol_addr_size = of_nat (field 5 1 buf),
     operation = of_nat (field 6 2 buf), src_mac = field 8 6 buf, src_ip = of_nat (field 14 4 buf),
     dst_mac = field 18 6 buf, dst_ip = of_nat (field 24 4 buf)\<rparr>"

definition HEADER_SIZE :: nat where "HEADER_SIZE = 14"
definition ARP_SIZE :: nat where "ARP_SIZE = 28"

type_synonym arp_table = "IPAddr \<rightharpoonup> nat"

definition learn :: "u32 \<Rightarrow> nat \<Rightarrow> arp_table \<Rightarrow> arp_table" where
  "learn ip mac table = (if mac \<noteq> 0xFFFFFF \<and> mac \<noteq> 0 then table(ipv4_addr_from_net ip \<mapsto> mac) else table)"

definition handle_ethernet_frame :: "EthernetFrameHeader \<Rightarrow> u8 list \<Rightarrow> arp_table \<Rightarrow> arp_table option" where
  "handle_ethernet_frame header data table =
     (if ether_type_be header = 1544 then do {
        rassert (length data \<ge> ARP_SIZE);
        let arp = read_arp data;
        Some (learn (dst_ip arp) (dst_mac arp) (learn (src_ip arp) (src_mac arp) table))
      } else Some table)"

text \<open>One round of \<open>monitor_packets\<close>.\<close>

definition monitor_packet :: "u8 list \<Rightarrow> arp_table \<Rightarrow> arp_table option" where
  "monitor_packet buffer table = do {
     rassert (length buffer > HEADER_SIZE);
     handle_ethernet_frame (read_header buffer) (drop HEADER_SIZE buffer) table
   }"

subsection \<open>Requests\<close>

definition IP_ADDR :: IPAddr where "IP_ADDR = V4 10 0 2 15"
definition SUBNET :: u32 where "SUBNET = 0xFF0000"

definition arp_request :: "nat \<Rightarrow> IPAddr \<Rightarrow> u8 list option" where
  "arp_request mac_addr ip = do {
     mac \<leftarrow> chk 48 mac_addr;
     let arp = \<lparr>hardware_type = to_be16 1, protocol = to_be16 0x0800, hardware_addr_size = 6, protocol_addr_size = 4,
       operation = to_be16 1, src_mac = mac, src_ip = as_net_be IP_ADDR, dst_mac = 0, dst_ip = as_net_be ip\<rparr>;
     let header = \<lparr>dst_mac_be = 0xFFFFFFFFFFFF, src_mac_be = mac, ether_type_be = to_be16 0x0806\<rparr>;
     Some (header_bytes header @ arp_bytes arp)
   }"

text \<open>The packet that \<open>send_arp\<close> hands to the network card, or the reason why it does not.\<close>

definition send_arp :: "nat \<Rightarrow> IPAddr \<Rightarrow> (NotSameSubnetError + u8 list) option" where
  "send_arp mac_addr ip =
     (case same_subnet IP_ADDR ip SUBNET of
        Inl e \<Rightarrow> Some (Inl e)
      | Inr _ \<Rightarrow> do { packet \<leftarrow> arp_request mac_addr ip; Some (Inr packet) })"

datatype Networking = ArpRequest IPAddr
datatype ArpResponse = Mac nat | Pending "NotSameSubnetError + unit"

text \<open>The answer of the service \<open>NETWORKING\<close> and the packets it sends for it.\<close>

fun networking_request :: "nat \<Rightarrow> arp_table \<Rightarrow> Networking \<Rightarrow> (ArpResponse \<times> u8 list list) option" where
  "networking_request mac table (ArpRequest ip) =
     (case table ip of
        Some m \<Rightarrow> Some (Mac m, [])
      | None \<Rightarrow> do {
          r \<leftarrow> send_arp mac ip;
          case r of
            Inl e \<Rightarrow> Some (Pending (Inl e), [])
          | Inr packet \<Rightarrow> Some (Pending (Inr ()), [packet])
        })"

fun lookup_ip :: "ArpResponse \<Rightarrow> NotSameSubnetError + nat option" where
  "lookup_ip (Mac mac) = Inr (Some mac)"
| "lookup_ip (Pending (Inl e)) = Inl e"
| "lookup_ip (Pending (Inr _)) = Inr None"

subsection \<open>Addresses and packets are read as they were written\<close>

lemma ipv4_addr_from_as_net: "ipv4_addr_from_net (as_net_be ip) = ip"
proof (cases ip)
  case (V4 a b c d)
  show ?thesis unfolding V4 ipv4_addr_from_net_def as_net_be.simps IPAddr.inject
    by (intro conjI; rule bit_word_eqI) (auto simp: bit_simps dest: bit_imp_le_length)
qed

lemma as_net_from_ipv4: "as_net_be (ipv4_addr_from_net w) = w"
  unfolding ipv4_addr_from_net_def as_net_be.simps
proof (rule bit_word_eqI)
  fix n assume "n < LENGTH(32)"
  then consider "n < 8" | "8 \<le> n" "n < 16" | "16 \<le> n" "n < 24" | "24 \<le> n" "n < 32" by fastforce
  then show "bit (ucast (ucast w :: u8) OR push_bit 8 (ucast (ucast (drop_bit 8 w) :: u8)) OR
      push_bit 16 (ucast (ucast (drop_bit 16 w) :: u8)) OR push_bit 24 (ucast (ucast (drop_bit 24 w) :: u8)) :: u32) n = bit w n"
    by cases (auto simp: bit_simps)
qed

lemma arp_roundtrip:
  assumes "src_mac a < 2 ^ 48" "dst_mac a < 2 ^ 48"
  shows "read_arp (arp_bytes a) = a"
proof -
  have u16: "unat w < 65536" for w :: u16 using unsigned_less [of w] by simp
  have u8: "unat w < 256" for w :: u8 using unsigned_less [of w] by simp
  have u32: "unat w < 4294967296" for w :: u32 using unsigned_less [of w] by simp
  have u48: "src_mac a < 281474976710656" "dst_mac a < 281474976710656" using assms by simp_all
  show ?thesis unfolding read_arp_def arp_bytes_def
    by (simp add: field_skip field_to_le u16 u8 u32 u48 del: to_le.simps One_nat_def)
qed

lemma header_roundtrip:
  assumes "dst_mac_be h < 2 ^ 48" "src_mac_be h < 2 ^ 48"
  shows "read_header (header_bytes h @ rest) = h"
proof -
  have u16: "unat w < 65536" for w :: u16 using unsigned_less [of w] by simp
  have u48: "dst_mac_be h < 281474976710656" "src_mac_be h < 281474976710656" using assms by simp_all
  show ?thesis unfolding read_header_def header_bytes_def
    by (simp add: field_skip field_to_le u16 u48 del: to_le.simps)
qed

lemma length_header_bytes [simp]: "length (header_bytes h) = HEADER_SIZE"
  by (simp add: header_bytes_def HEADER_SIZE_def del: to_le.simps)

lemma length_arp_bytes [simp]: "length (arp_bytes a) = ARP_SIZE"
  by (simp add: arp_bytes_def ARP_SIZE_def del: to_le.simps)

lemma monitor_arp_packet:
  assumes "dst_mac_be h < 2 ^ 48" "src_mac_be h < 2 ^ 48" "ether_type_be h = 1544" "src_mac a < 2 ^ 48" "dst_mac a < 2 ^ 48"
  shows "monitor_packet (header_bytes h @ arp_bytes a) table =
    Some (learn (dst_ip a) (dst_mac a) (learn (src_ip a) (src_mac a) table))"
proof -
  have "length (header_bytes h @ arp_bytes a) > HEADER_SIZE" by (simp add: ARP_SIZE_def)
  then show ?thesis
    using assms by (simp add: monitor_packet_def handle_ethernet_frame_def header_roundtrip arp_roundtrip)
qed



end
