(* ===== verification/Pcnet.thy ===== *)
theory Pcnet
  imports Bytes
begin

text \<open>
  The driver of the AMD PCnet network card (\<open>amd_pcnet/src/\<close>): registers behind two 32-bit ports,
  the rings of send and receive descriptors, and the requests of the service \<open>PCNET\<close>.  The card is
  reached through a record of port functions on a state of its own.  The memory of the packet
  buffers, which the card shares, is a function from addresses to bytes.  The ports of the card lie
  in a block of 32, so adding an offset to their base does not overflow.
\<close>

subsection \<open>Registers\<close>

record 'd port_io32 =
  in32 :: "u16 \<Rightarrow> 'd \<Rightarrow> u32 \<times> 'd"
  out32 :: "u16 \<Rightarrow> u32 \<Rightarrow> 'd \<Rightarrow> 'd"

definition write_rap_32 :: "'d port_io32 \<Rightarrow> u16 \<Rightarrow> u32 \<Rightarrow> 'd \<Rightarrow> 'd" where
  "write_rap_32 io p val d = out32 io (p + 0x14) val d"

definition read_csr_32 :: "'d port_io32 \<Rightarrow> u16 \<Rightarrow> u32 \<Rightarrow> 'd \<Rightarrow> u32 \<times> 'd" where
  "read_csr_32 io p csr_no d = in32 io (p + 0x10) (write_rap_32 io p csr_no d)"

definition write_csr_32 :: "'d port_io32 \<Rightarrow> u16 \<Rightarrow> u32 \<Rightarrow> u32 \<Rightarrow> 'd \<Rightarrow> 'd" where
  "write_csr_32 io p csr_no val d = out32 io (p + 0x10) val (write_rap_32 io p csr_no d)"

definition read_bcr_32 :: "'d port_io32 \<Rightarrow> u16 \<Rightarrow> u32 \<Rightarrow> 'd \<Rightarrow> u32 \<times> 'd" where
  "read_bcr_32 io p bcr d = in32 io (p + 0x1C) (write_rap_32 io p bcr d)"

definition write_bcr_32 :: "'d port_io32 \<Rightarrow> u16 \<Rightarrow> u32 \<Rightarrow> u32 \<Rightarrow> 'd \<Rightarrow> 'd" where
  "write_bcr_32 io p bcr val d = out32 io (p + 0x1C) val (write_rap_32 io p bcr d)"

definition reset_device :: "'d port_io32 \<Rightarrow> u16 \<Rightarrow> 'd \<Rightarrow> 'd" where
  "reset_device io p d =
     (let d1 = snd (in32 io (p + 0x18) d);
          d2 = snd (in32 io (p + 0x14) d1);
          d3 = out32 io (p + 0x10) 0 d2;
          (csr58, d4) = read_csr_32 io p 58 d3;
          d5 = write_csr_32 io p 58 ((csr58 AND 0xFF00) OR 2) d4;
          (bcr_2, d6) = read_bcr_32 io p 2 d5
      in write_bcr_32 io p 2 (bcr_2 OR 2) d6)"

definition read_mac_addr :: "'d port_io32 \<Rightarrow> u16 \<Rightarrow> 'd \<Rightarrow> u64 \<times> 'd" where
  "read_mac_addr io p d =
     (let (mac, d1) = in32 io p d; (mac2, d2) = in32 io (p + 0x4) d1
      in (push_bit 32 (ucast mac2 AND 0xFFFF) OR ucast mac, d2))"

subsection \<open>The card's structures in memory\<close>

definition BUFFER_ENTRY_SIZE :: u32 where "BUFFER_ENTRY_SIZE = 2048"
definition BUFFER_SIZE_MASK :: u32 where "BUFFER_SIZE_MASK = 0xF000 OR (0xFFF AND (1 + NOT BUFFER_ENTRY_SIZE))"
definition SEND_BUFFER_CNT_LOG :: u8 where "SEND_BUFFER_CNT_LOG = 3"
definition RECV_BUFFER_CNT_LOG :: u8 where "RECV_BUFFER_CNT_LOG = 3"
definition SEND_BUFFER_CNT :: nat where "SEND_BUFFER_CNT = 2 ^ 3"
definition RECV_BUFFER_CNT :: nat where "RECV_BUFFER_CNT = 2 ^ 3"
definition CARD_IP_ADDR :: u32 where
  "CARD_IP_ADDR = push_bit 24 100 OR push_bit 16 1 OR push_bit 8 168 OR 192"

record BufferDescriptor =
  address :: u32
  flags :: u32
  flags_2 :: u32
  avail :: u32

record InitBlock =
  mode :: u16
  num_send_buffers :: u8
  num_recv_buffers :: u8
  physical_address :: nat
  logical_address :: nat
  recv_buffer_desc_addr :: u32
  send_buffer_desc_addr :: u32

text \<open>Sizes of the packed structures, in bytes.\<close>

definition INIT_BLOCK_SIZE :: nat where "INIT_BLOCK_SIZE = 28"
definition DESCRIPTOR_SIZE :: nat where "DESCRIPTOR_SIZE = 16"

record PCNET =
  io_base :: u16
  init_block :: InitBlock
  send_buffer_desc :: "BufferDescriptor list"
  send_buffer_pos :: nat
  recv_buffer_desc :: "BufferDescriptor list"
  recv_buffer_pos :: nat
  owned_pages :: "u32 list"
  listeners :: "nat list"
  dma :: "nat \<Rightarrow> u8"

text \<open>
  The two rings: a page for every two buffers.  The answers of \<open>mmap_page32\<close> are the argument, and
  what a fresh page holds beyond the two fields is zero.
\<close>

fun setup_ring :: "u32 list \<Rightarrow> u32 \<Rightarrow> BufferDescriptor list" where
  "setup_ring [] fl = []"
| "setup_ring (page # pages) fl =
     \<lparr>address = page, flags = fl, flags_2 = 0, avail = 0\<rparr> #
     \<lparr>address = page + 2048, flags = fl, flags_2 = 0, avail = 0\<rparr> # setup_ring pages fl"

definition make_init_block :: "u64 \<Rightarrow> u32 \<Rightarrow> InitBlock option" where
  "make_init_block mac buffer = do {
     pa \<leftarrow> chk 48 (unat mac);
     Some \<lparr>mode = 0, num_send_buffers = SEND_BUFFER_CNT_LOG, num_recv_buffers = RECV_BUFFER_CNT_LOG,
       physical_address = pa, logical_address = unat CARD_IP_ADDR,
       recv_buffer_desc_addr = buffer + of_nat (INIT_BLOCK_SIZE + DESCRIPTOR_SIZE * SEND_BUFFER_CNT),
       send_buffer_desc_addr = buffer + of_nat INIT_BLOCK_SIZE\<rparr>
   }"

text \<open>Waiting for the card to be initialised: every round reads the register twice.\<close>

partial_function (option) wait_init :: "'d port_io32 \<Rightarrow> u16 \<Rightarrow> 'd \<Rightarrow> 'd option" where
  "wait_init io p d =
     (case read_csr_32 io p 0 d of (v, d1) \<Rightarrow>
        if v AND push_bit 7 1 = 0 then wait_init io p (snd (read_csr_32 io p 0 d1)) else Some d1)"

declare wait_init.simps [code]

subsection \<open>Receiving\<close>

text \<open>
  What the channel of a listener says about a packet is an argument: listeners that do not take it
  are forgotten.  The result lists who was sent what.
\<close>

definition packet_bytes :: "(nat \<Rightarrow> u8) \<Rightarrow> nat \<Rightarrow> nat \<Rightarrow> u8 list" where
  "packet_bytes mem a n = map mem [a ..< a + n]"

primrec receive_loop ::
  "(nat \<Rightarrow> u8 list \<Rightarrow> bool) \<Rightarrow> nat \<Rightarrow> PCNET \<Rightarrow> PCNET \<times> (nat \<times> u8 list) list" where
  "receive_loop takes 0 s = (s, [])"
| "receive_loop takes (Suc k) s =
     (let b = recv_buffer_pos s; desc = recv_buffer_desc s ! b;
          s1 = s\<lparr>recv_buffer_pos := (b + 1) mod length (recv_buffer_desc s)\<rparr>
      in if flags desc AND 0x80000000 = 0 then
           let good = (flags desc AND 0x40000000 = 0 \<and> flags desc AND 0x03000000 > 0);
               packet = packet_bytes (dma s) (unat (address desc)) (unat (flags_2 desc AND 0xFFFF));
               sends = (if good then map (\<lambda>l. (l, packet)) (listeners s) else []);
               s2 = (if good then s1\<lparr>listeners := filter (\<lambda>l. takes l packet) (listeners s)\<rparr> else s1);
               s3 = s2\<lparr>recv_buffer_desc := (recv_buffer_desc s2)[b := desc\<lparr>flags := 0x80000000 OR BUFFER_SIZE_MASK, flags_2 := 0\<rparr>]\<rparr>;
               (s4, more) = receive_loop takes k s3
           in (s4, sends @ more)
         else receive_loop takes k s1)"

definition receive :: "(nat \<Rightarrow> u8 list \<Rightarrow> bool) \<Rightarrow> PCNET \<Rightarrow> PCNET \<times> (nat \<times> u8 list) list" where
  "receive takes s = receive_loop takes (length (recv_buffer_desc s)) s"

definition interrupt_handler ::
  "'d port_io32 \<Rightarrow> (nat \<Rightarrow> u8 list \<Rightarrow> bool) \<Rightarrow> PCNET \<Rightarrow> 'd \<Rightarrow> (PCNET \<times> (nat \<times> u8 list) list) \<times> 'd" where
  "interrupt_handler io takes s d =
     (let (tmp, d1) = read_csr_32 io (io_base s) 0 d;
          d2 = write_csr_32 io (io_base s) 0 (tmp AND NOT 0x40) d1;
          r = receive takes s
      in (r, write_csr_32 io (io_base s) 0 0x40 d2))"

subsection \<open>Sending\<close>

datatype SendError = BufferFull

definition store_bytes :: "nat \<Rightarrow> u8 list \<Rightarrow> (nat \<Rightarrow> u8) \<Rightarrow> nat \<Rightarrow> u8" where
  "store_bytes a bs mem = (\<lambda>x. if a \<le> x \<and> x < a + length bs then bs ! (x - a) else mem x)"

text \<open>The length field: \<open>(!len + 1) as u16\<close>, where the sum overflows for an empty packet.\<close>

definition length_field :: "nat \<Rightarrow> u32 option" where
  "length_field len = do {
     n \<leftarrow> add_usize (2 ^ 64 - 1 - len) 1;
     Some (ucast (of_nat n :: u16))
   }"

primrec send_loop ::
  "'d port_io32 \<Rightarrow> u8 list \<Rightarrow> nat \<Rightarrow> PCNET \<Rightarrow> 'd \<Rightarrow> ((SendError + unit) \<times> PCNET \<times> 'd) option" where
  "send_loop io data 0 s d = Some (Inl BufferFull, s, d)"
| "send_loop io data (Suc k) s d =
     (let b = send_buffer_pos s; desc = send_buffer_desc s ! b;
          s1 = s\<lparr>send_buffer_pos := (b + 1) mod length (send_buffer_desc s)\<rparr>
      in if flags desc AND 0x80000000 = 0 then do {
           rassert (length data \<le> unat BUFFER_ENTRY_SIZE);
           len \<leftarrow> length_field (length data);
           let s2 = s1\<lparr>dma := store_bytes (unat (address desc)) data (dma s1),
             send_buffer_desc := (send_buffer_desc s1)[b := desc\<lparr>avail := 0, flags_2 := 0, flags := 0x8300F000 OR len\<rparr>]\<rparr>;
           let (tmp, d1) = read_csr_32 io (io_base s) 0 d;
           Some (Inr (), s2, write_csr_32 io (io_base s) 0 (tmp OR 0x8) d1)
         } else send_loop io data k s1 d)"

definition pcnet_send_packet :: "'d port_io32 \<Rightarrow> u8 list \<Rightarrow> PCNET \<Rightarrow> 'd \<Rightarrow> ((SendError + unit) \<times> PCNET \<times> 'd) option" where
  "pcnet_send_packet io data s d = send_loop io data (length (send_buffer_desc s)) s d"

subsection \<open>Starting the card and serving requests\<close>

text \<open>
  The configuration space gives the two identifiers and the port; \<open>buffer\<close>, \<open>send_pages\<close> and
  \<open>recv_pages\<close> are what \<open>mmap_page32\<close> returns, one page and four for each ring.
\<close>

definition pcnet_new ::
  "'d port_io32 \<Rightarrow> u16 \<Rightarrow> u16 \<Rightarrow> u32 option \<Rightarrow> u32 \<Rightarrow> u32 list \<Rightarrow> u32 list \<Rightarrow> (nat \<Rightarrow> u8) \<Rightarrow> 'd \<Rightarrow> (PCNET option \<times> 'd) option" where
  "pcnet_new io vendor_id device_id port_base buffer send_pages recv_pages mem d =
     (if \<not> (vendor_id = 0x1022 \<and> device_id = 0x2000) then Some (None, d)
      else do {
        pb \<leftarrow> port_base;
        rassert (unat pb < 2 ^ 16);
        let p = ucast pb;
        let d1 = reset_device io p d;
        let (mac, d2) = read_mac_addr io p d1;
        rassert (INIT_BLOCK_SIZE + DESCRIPTOR_SIZE * (RECV_BUFFER_CNT + SEND_BUFFER_CNT) \<le> 0x1000);
        ib \<leftarrow> make_init_block mac buffer;
        let s = \<lparr>io_base = p, init_block = ib, send_buffer_desc = setup_ring send_pages BUFFER_SIZE_MASK, send_buffer_pos = 0,
          recv_buffer_desc = setup_ring recv_pages (BUFFER_SIZE_MASK OR 0x80000000), recv_buffer_pos = 0,
          owned_pages = buffer # send_pages @ recv_pages, listeners = [], dma = mem\<rparr>;
        let d3 = write_csr_32 io p 1 buffer d2;
        let d4 = write_csr_32 io p 2 (drop_bit 16 buffer) d3;
        let d5 = write_csr_32 io p 0 1 d4;
        d6 \<leftarrow> wait_init io p d5;
        let (v1, d7) = read_csr_32 io p 0 d6;
        rassert (v1 = 0b110000001);
        let d8 = write_csr_32 io p 0 (2 OR 0x40) d7;
        let (v2, d9) = read_csr_32 io p 0 d8;
        rassert (v2 = 0b111110011);
        let ((s', _), d10) = interrupt_handler io (\<lambda>_ _. True) s d9;
        Some (Some s', d10)
      })"

datatype PhysicalNet = MacAddrGet | SendPacket "u8 list" | ListenToPackets

datatype net_reply = MacReply u64 | Done | Retry | Bad

text \<open>
  One request: a full ring is answered with \<open>Retry\<close>, after which the service yields and tries the same
  request again; \<open>Bad\<close> ends the connection.
\<close>

fun pcnet_request ::
  "'d port_io32 \<Rightarrow> PhysicalNet \<Rightarrow> nat list \<Rightarrow> PCNET \<Rightarrow> 'd \<Rightarrow> (net_reply \<times> PCNET \<times> 'd) option" where
  "pcnet_request io MacAddrGet handles s d =
     (if handles \<noteq> [] then Some (Bad, s, d)
      else (case read_mac_addr io (io_base s) d of (mac, d1) \<Rightarrow> Some (MacReply mac, s, d1)))"
| "pcnet_request io (SendPacket packet) handles s d =
     (if handles \<noteq> [] then Some (Bad, s, d)
      else do {
        (r, s1, d1) \<leftarrow> pcnet_send_packet io packet s d;
        Some (case r of Inl BufferFull \<Rightarrow> Retry | Inr _ \<Rightarrow> Done, s1, d1)
      })"
| "pcnet_request io ListenToPackets handles s d =
     (case handles of
        [h] \<Rightarrow> Some (Done, s\<lparr>listeners := listeners s @ [h]\<rparr>, d)
      | _ \<Rightarrow> Some (Bad, s, d))"

subsection \<open>Packets leave in the order in which they were accepted\<close>

text \<open>
  The card, as its data sheet describes it: it looks at the descriptors in ring order, and when the
  next one is its own, it transmits as many bytes as the twelve-bit negative count in the flags says
  and gives the descriptor back.
\<close>

definition card_owns :: "BufferDescriptor \<Rightarrow> bool" where
  "card_owns desc \<longleftrightarrow> flags desc AND 0x80000000 \<noteq> 0"

definition card_packet :: "(nat \<Rightarrow> u8) \<Rightarrow> BufferDescriptor \<Rightarrow> u8 list" where
  "card_packet mem desc = packet_bytes mem (unat (address desc)) (0x1000 - unat (flags desc AND 0xFFF))"

record 'd wire_state =
  driver :: PCNET
  card :: 'd
  card_pos :: nat
  wire :: "u8 list list"
  accepted :: "u8 list list"

datatype wire_event = DriverSends "u8 list" | CardTransmits

primrec wire_step :: "'d port_io32 \<Rightarrow> wire_event \<Rightarrow> 'd wire_state \<Rightarrow> 'd wire_state option" where
  "wire_step io (DriverSends data) w = do {
     (r, s, d) \<leftarrow> pcnet_send_packet io data (driver w) (card w);
     Some (w\<lparr>driver := s, card := d, accepted := (case r of Inl _ \<Rightarrow> accepted w | Inr _ \<Rightarrow> accepted w @ [data])\<rparr>)
   }"
| "wire_step io CardTransmits w =
     (let s = driver w; desc = send_buffer_desc s ! card_pos w in
      if card_owns desc then
        Some (w\<lparr>wire := wire w @ [card_packet (dma s) desc], card_pos := (card_pos w + 1) mod length (send_buffer_desc s),
          driver := s\<lparr>send_buffer_desc := (send_buffer_desc s)[card_pos w := desc\<lparr>flags := flags desc AND 0x7FFFFFFF\<rparr>]\<rparr>\<rparr>)
      else Some w)"

primrec wire_run :: "'d port_io32 \<Rightarrow> wire_event list \<Rightarrow> 'd wire_state \<Rightarrow> 'd wire_state option" where
  "wire_run io [] w = Some w"
| "wire_run io (e # es) w = do { w' \<leftarrow> wire_step io e w; wire_run io es w' }"

lemma bit_31_set: "(0x8300F000 OR x) AND 0x80000000 \<noteq> (0 :: u32)"
proof -
  have "bit ((0x8300F000 OR x) AND 0x80000000) 31 \<longleftrightarrow> bit (0x8300F000 :: u32) 31 \<or> bit x 31"
    by (simp add: bit_and_iff bit_or_iff bit_numeral_rec)
  moreover have "bit (0x8300F000 :: u32) 31" by (simp add: bit_numeral_rec)
  ultimately show ?thesis by (metis bit_0_eq bot_apply bot_bool_def)
qed

lemma bit_31_cleared: "(x AND 0x7FFFFFFF) AND 0x80000000 = (0 :: u32)"
  by (simp add: and.assoc)

lemma length_field_count:
  assumes "0 < n" "n \<le> 2048"
  shows "\<exists>f. length_field n = Some f \<and> 0x1000 - unat ((0x8300F000 OR f) AND 0xFFF) = n"
proof -
  have m: "2 ^ 64 - 1 - n + 1 = 2 ^ 64 - n" using assms by simp
  have "length_field n = Some (ucast (of_nat (2 ^ 64 - n) :: u16))"
    unfolding length_field_def add_usize_def m using assms by simp
  moreover have "unat ((0x8300F000 OR ucast (of_nat (2 ^ 64 - n) :: u16)) AND (0xFFF :: u32)) = 0x1000 - n"
  proof -
    have "(0x8300F000 OR x) AND 0xFFF = x AND mask 12" for x :: u32
      by (simp add: bit.conj_disj_distrib2 mask_eq_exp_minus_1)
    then have "unat ((0x8300F000 OR ucast (of_nat (2 ^ 64 - n) :: u16)) AND (0xFFF :: u32)) =
        unat (ucast (of_nat (2 ^ 64 - n) :: u16) :: u32) mod 2 ^ 12" by (simp add: unat_and_low_mask low_bits_def)
    also have "unat (ucast (of_nat (2 ^ 64 - n) :: u16) :: u32) = (2 ^ 64 - n) mod 2 ^ 16"
    proof -
      have "(2 ^ 64 - n) mod 65536 < (2 :: nat) ^ 32" by (rule less_trans [of _ "65536"]) simp_all
      then have "take_bit 32 ((2 ^ 64 - n) mod 65536) = (2 ^ 64 - n) mod 65536" by (rule take_bit_nat_eq_self)
      then show ?thesis by (simp add: unsigned_ucast_eq unat_of_nat)
    qed
    also have "\<dots> mod 2 ^ 12 = (2 ^ 64 - n) mod 2 ^ 12" by (rule mod_mod_cancel) simp
    also have "\<dots> = 0x1000 - n"
    proof -
      obtain q where q: "2 ^ 64 - n = (0x1000 - n) + 0x1000 * q" using assms by (intro that [of "2 ^ 52 - 1"]) simp
      have "((0x1000 - n) + 0x1000 * q) mod 0x1000 = (0x1000 - n) mod 0x1000" by (rule mod_mult_self2)
      then show ?thesis unfolding q using assms by simp
    qed
    finally show ?thesis .
  qed
  ultimately show ?thesis using assms by simp
qed

definition buffers_apart :: "BufferDescriptor list \<Rightarrow> bool" where
  "buffers_apart ds \<longleftrightarrow> (\<forall>i < length ds. \<forall>j < length ds. i \<noteq> j \<longrightarrow>
     unat (address (ds ! i)) + 2048 \<le> unat (address (ds ! j)) \<or> unat (address (ds ! j)) + 2048 \<le> unat (address (ds ! i)))"

lemma buffers_apart_update: "buffers_apart ds \<Longrightarrow> address d = address (ds ! i) \<Longrightarrow> buffers_apart (ds[i := d])"
proof -
  assume a: "buffers_apart ds" "address d = address (ds ! i)"
  have "j < length ds \<Longrightarrow> address (ds[i := d] ! j) = address (ds ! j)" for j using a(2) by (cases "i = j") simp_all
  then show ?thesis using a(1) by (simp add: buffers_apart_def)
qed

lemma card_packet_other:
  assumes "length data \<le> 2048" "length (card_packet mem desc) \<le> 2048"
    "unat (address desc) + 2048 \<le> a \<or> a + 2048 \<le> unat (address desc)"
  shows "card_packet (store_bytes a data mem) desc = card_packet mem desc"
proof -
  have "x < unat (address desc) + (0x1000 - unat (flags desc AND 0xFFF)) \<Longrightarrow> unat (address desc) \<le> x \<Longrightarrow> store_bytes a data mem x = mem x" for x
    using assms by (auto simp: store_bytes_def card_packet_def packet_bytes_def)
  then show ?thesis by (simp add: card_packet_def packet_bytes_def)
qed

lemma packet_bytes_stored: "packet_bytes (store_bytes a bs mem) a (length bs) = bs"
  by (rule nth_equalityI) (simp_all add: packet_bytes_def store_bytes_def)

lemma ring_index_inj: "i < n \<Longrightarrow> j < n \<Longrightarrow> (c + i) mod n = (c + j) mod n \<Longrightarrow> i = (j :: nat)"
proof (induction i j rule: linorder_wlog)
  case (le i j)
  then have "n dvd (c + j) - (c + i)" by (metis add_le_cancel_left mod_eq_dvd_iff_nat)
  then have "n dvd j - i" by simp
  then show ?case using le by (auto dest: dvd_imp_le)
qed simp

text \<open>
  The descriptors that the card owns are those between its position and the driver's, and they hold
  the packets that were accepted and are not yet on the wire.
\<close>

definition slot :: "'d wire_state \<Rightarrow> nat \<Rightarrow> BufferDescriptor" where
  "slot w j = send_buffer_desc (driver w) ! ((card_pos w + j) mod 8)"

definition wire_inv :: "'d wire_state \<Rightarrow> nat \<Rightarrow> bool" where
  "wire_inv w k \<longleftrightarrow> k \<le> 8 \<and> length (send_buffer_desc (driver w)) = 8 \<and> card_pos w < 8 \<and>
     buffers_apart (send_buffer_desc (driver w)) \<and>
     send_buffer_pos (driver w) = (card_pos w + k) mod 8 \<and> (\<forall>j < 8. card_owns (slot w j) \<longleftrightarrow> j < k) \<and>
     (\<forall>j < k. length (card_packet (dma (driver w)) (slot w j)) \<le> 2048) \<and>
     accepted w = wire w @ map (\<lambda>j. card_packet (dma (driver w)) (slot w j)) [0 ..< k]"

lemma send_loop_full:
  assumes "\<forall>j < length (send_buffer_desc s). card_owns (send_buffer_desc s ! j)" "send_buffer_pos s < length (send_buffer_desc s)"
  shows "send_loop io data n s d = Some (Inl BufferFull, s\<lparr>send_buffer_pos := (send_buffer_pos s + n) mod length (send_buffer_desc s)\<rparr>, d)"
  using assms
proof (induction n arbitrary: s)
  case (Suc n)
  have own: "flags (send_buffer_desc s ! send_buffer_pos s) AND 0x80000000 \<noteq> 0" using Suc.prems by (simp add: card_owns_def)
  define s1 where "s1 = s\<lparr>send_buffer_pos := (send_buffer_pos s + 1) mod length (send_buffer_desc s)\<rparr>"
  have "send_buffer_pos s1 < length (send_buffer_desc s1)" using Suc.prems(2) by (cases "send_buffer_desc s = []") (simp_all add: s1_def)
  with Suc.IH [of s1] Suc.prems(1) have "send_loop io data n s1 d =
      Some (Inl BufferFull, s1\<lparr>send_buffer_pos := (send_buffer_pos s1 + n) mod length (send_buffer_desc s1)\<rparr>, d)" by (simp add: s1_def)
  then show ?case using own by (simp add: s1_def mod_simps)
qed simp

lemma wire_send_full:
  assumes inv: "wire_inv w 8"
  shows "\<exists>w'. wire_step io (DriverSends data) w = Some w' \<and> wire_inv w' 8 \<and> wire w' = wire w \<and> accepted w' = accepted w"
proof -
  have pos: "send_buffer_pos (driver w) = card_pos w" "card_pos w < 8" using inv by (simp_all add: wire_inv_def)
  have len: "length (send_buffer_desc (driver w)) = 8" using inv by (simp add: wire_inv_def)
  have "card_owns (send_buffer_desc (driver w) ! j)" if "j < 8" for j
  proof -
    have "\<exists>i < 8. (card_pos w + i) mod 8 = j"
      using that pos(2) by (intro exI [of _ "(j + 8 - card_pos w) mod 8"]) (simp add: mod_simps)
    then show ?thesis using inv by (auto simp: wire_inv_def slot_def)
  qed
  then have "pcnet_send_packet io data (driver w) (card w) = Some (Inl BufferFull, driver w, card w)"
    using send_loop_full [of "driver w" io data 8 "card w"] pos len by (simp add: pcnet_send_packet_def)
  then show ?thesis using inv by (simp add: wire_inv_def slot_def)
qed

lemma pcnet_send_packet_free:
  assumes "send_buffer_desc s \<noteq> []" "\<not> card_owns (send_buffer_desc s ! send_buffer_pos s)" "length data \<le> 2048"
    "length_field (length data) = Some f"
  shows "\<exists>d'. pcnet_send_packet io data s d = Some (Inr (), s\<lparr>send_buffer_pos := (send_buffer_pos s + 1) mod length (send_buffer_desc s),
      dma := store_bytes (unat (address (send_buffer_desc s ! send_buffer_pos s))) data (dma s),
      send_buffer_desc := (send_buffer_desc s)[send_buffer_pos s :=
        (send_buffer_desc s ! send_buffer_pos s)\<lparr>avail := 0, flags_2 := 0, flags := 0x8300F000 OR f\<rparr>]\<rparr>, d')"
proof -
  from assms(1) obtain n where n: "length (send_buffer_desc s) = Suc n" by (cases "send_buffer_desc s") auto
  have "flags (send_buffer_desc s ! send_buffer_pos s) AND 0x80000000 = 0" using assms(2) by (simp add: card_owns_def)
  then show ?thesis
    using assms(3,4) by (cases "read_csr_32 io (io_base s) 0 d") (simp add: pcnet_send_packet_def n Let_def BUFFER_ENTRY_SIZE_def)
qed

lemma wire_send_free:
  assumes inv: "wire_inv w k" and k: "k < 8" and data: "0 < length data" "length data \<le> 2048"
  shows "\<exists>w'. wire_step io (DriverSends data) w = Some w' \<and> wire_inv w' (Suc k) \<and> wire w' = wire w \<and> accepted w' = accepted w @ [data]"
proof -
  define ds where "ds = send_buffer_desc (driver w)"
  define b where "b = (card_pos w + k) mod 8"
  from length_field_count [OF data] obtain f where f: "length_field (length data) = Some f"
    "0x1000 - unat ((0x8300F000 OR f) AND 0xFFF) = length data" by blast
  define nd where "nd = (ds ! b)\<lparr>avail := 0, flags_2 := 0, flags := 0x8300F000 OR f\<rparr>"
  define mem where "mem = store_bytes (unat (address (ds ! b))) data (dma (driver w))"
  define s where "s = (driver w)\<lparr>send_buffer_pos := (b + 1) mod 8, dma := mem, send_buffer_desc := ds[b := nd]\<rparr>"
  have len: "length ds = 8" and pos: "send_buffer_pos (driver w) = b" and b8: "b < 8" using inv by (simp_all add: wire_inv_def ds_def b_def)
  have free: "\<not> card_owns (ds ! b)" using inv k by (auto simp: wire_inv_def slot_def ds_def b_def)
  have ne: "ds \<noteq> []" using len by auto
  from pcnet_send_packet_free [of "driver w" data f io "card w"] ne free data(2) f(1) len pos obtain d where
    step: "pcnet_send_packet io data (driver w) (card w) = Some (Inr (), s, d)"
    by (auto simp: ds_def [symmetric] s_def mem_def nd_def)
  define w' where "w' = w\<lparr>driver := s, card := d, accepted := accepted w @ [data]\<rparr>"
  have run: "wire_step io (DriverSends data) w = Some w'" using step by (simp add: w'_def)
  have slots: "slot w' j = (if j = k then nd else slot w j)" if "j < 8" for j
  proof (cases "j = k")
    case False
    then have "(card_pos w + j) mod 8 \<noteq> b" using ring_index_inj [of j 8 k "card_pos w"] that k by (auto simp: b_def)
    then show ?thesis using False by (simp add: slot_def w'_def s_def ds_def)
  qed (use len b8 in \<open>simp add: slot_def w'_def s_def b_def [symmetric]\<close>)
  have old: "card_packet mem (slot w j) = card_packet (dma (driver w)) (slot w j)" if "j < k" for j
  proof -
    have "(card_pos w + j) mod 8 \<noteq> b" using ring_index_inj [of j 8 k "card_pos w"] that k by (auto simp: b_def)
    then have "unat (address (slot w j)) + 2048 \<le> unat (address (ds ! b)) \<or> unat (address (ds ! b)) + 2048 \<le> unat (address (slot w j))"
      using inv b8 len by (simp add: wire_inv_def buffers_apart_def slot_def ds_def)
    then show ?thesis unfolding mem_def using inv that data(2) by (intro card_packet_other) (auto simp: wire_inv_def)
  qed
  have new: "card_packet mem nd = data" using f(2) packet_bytes_stored by (simp add: card_packet_def nd_def mem_def)
  have own: "card_owns nd" using bit_31_set by (simp add: card_owns_def nd_def)
  have "accepted w' = wire w' @ map (\<lambda>j. card_packet (dma (driver w')) (slot w' j)) [0 ..< Suc k]"
  proof -
    have "map (\<lambda>j. card_packet mem (slot w' j)) [0 ..< k] = map (\<lambda>j. card_packet (dma (driver w)) (slot w j)) [0 ..< k]"
      by (rule map_cong [OF refl]) (use k in \<open>simp add: slots old\<close>)
    moreover have "card_packet mem (slot w' k) = data" using k by (simp add: slots new)
    ultimately show ?thesis using inv by (simp add: wire_inv_def w'_def s_def)
  qed
  moreover have "\<forall>j < 8. card_owns (slot w' j) \<longleftrightarrow> j < Suc k"
    using inv own by (simp add: slots wire_inv_def less_Suc_eq)
  moreover have "\<forall>j < Suc k. length (card_packet (dma (driver w')) (slot w' j)) \<le> 2048"
  proof -
    have "dma (driver w') = mem" by (simp add: w'_def s_def)
    moreover have "\<forall>j < k. length (card_packet mem (slot w j)) \<le> 2048" using inv old by (simp add: wire_inv_def)
    ultimately show ?thesis using k new data(2) by (simp add: slots less_Suc_eq)
  qed
  moreover have "buffers_apart (send_buffer_desc (driver w'))"
    using inv by (simp add: w'_def s_def) (intro buffers_apart_update, simp_all add: wire_inv_def ds_def nd_def)
  moreover have "send_buffer_pos (driver w') = (card_pos w' + Suc k) mod 8" by (simp add: w'_def s_def b_def mod_simps)
  ultimately have "wire_inv w' (Suc k)" using inv k len unfolding wire_inv_def by (simp add: w'_def s_def)
  then show ?thesis using run by (simp add: w'_def)
qed

lemma wire_transmit:
  assumes inv: "wire_inv w k"
  shows "\<exists>w'. wire_step io CardTransmits w = Some w' \<and> wire_inv w' (k - 1) \<and> accepted w' = accepted w"
proof (cases k)
  case 0
  then have "\<not> card_owns (slot w 0)" "card_pos w < 8" using inv by (simp_all add: wire_inv_def)
  then have "\<not> card_owns (send_buffer_desc (driver w) ! card_pos w)" by (simp add: slot_def)
  then show ?thesis using inv 0 by simp
next
  case (Suc l)
  define ds where "ds = send_buffer_desc (driver w)"
  define desc where "desc = ds ! card_pos w"
  define nd where "nd = desc\<lparr>flags := flags desc AND 0x7FFFFFFF\<rparr>"
  define w' where "w' = w\<lparr>wire := wire w @ [card_packet (dma (driver w)) desc], card_pos := (card_pos w + 1) mod 8,
    driver := (driver w)\<lparr>send_buffer_desc := ds[card_pos w := nd]\<rparr>\<rparr>"
  have len: "length ds = 8" and c8: "card_pos w < 8" using inv by (simp_all add: wire_inv_def ds_def)
  have desc0: "desc = slot w 0" using c8 by (simp add: desc_def slot_def ds_def)
  have "card_owns desc" unfolding desc0 using inv Suc by (simp add: wire_inv_def)
  then have run: "wire_step io CardTransmits w = Some w'"
    by (simp add: w'_def desc_def nd_def ds_def Let_def len [unfolded ds_def])
  have slots: "slot w' j = (if j = 7 then nd else slot w (Suc j))" if "j < 8" for j
  proof (cases "j = 7")
    case True
    then have "((card_pos w + 1) mod 8 + j) mod 8 = card_pos w" using c8 by (simp add: mod_simps)
    then show ?thesis using True len c8 by (simp add: slot_def w'_def)
  next
    case False
    then have "(card_pos w + Suc j) mod 8 \<noteq> card_pos w" using ring_index_inj [of "Suc j" 8 0 "card_pos w"] that c8 by auto
    then show ?thesis using False by (simp add: slot_def w'_def ds_def mod_simps)
  qed
  have l7: "l < 8" "\<not> l > 7" using inv Suc by (simp_all add: wire_inv_def)
  have nd: "\<not> card_owns nd" using bit_31_cleared by (simp add: card_owns_def nd_def)
  have "map (\<lambda>j. card_packet (dma (driver w)) (slot w j)) [0 ..< k] =
      card_packet (dma (driver w)) desc # map (\<lambda>j. card_packet (dma (driver w)) (slot w (Suc j))) [0 ..< l]"
    by (simp add: Suc desc0 map_upt_Suc del: upt_Suc)
  moreover have "map (\<lambda>j. card_packet (dma (driver w)) (slot w' j)) [0 ..< l] = map (\<lambda>j. card_packet (dma (driver w)) (slot w (Suc j))) [0 ..< l]"
    by (rule map_cong [OF refl]) (use l7 in \<open>simp add: slots\<close>)
  ultimately have "accepted w' = wire w' @ map (\<lambda>j. card_packet (dma (driver w')) (slot w' j)) [0 ..< l]"
    using inv by (simp add: wire_inv_def w'_def)
  moreover have "\<forall>j < 8. card_owns (slot w' j) \<longleftrightarrow> j < l"
  proof (intro allI impI)
    fix j :: nat assume j: "j < 8"
    show "card_owns (slot w' j) \<longleftrightarrow> j < l"
    proof (cases "j = 7")
      case True
      then show ?thesis using l7 nd by (simp add: slots)
    next
      case False
      then show ?thesis using j inv Suc by (simp add: slots wire_inv_def)
    qed
  qed
  moreover have "\<forall>j < l. length (card_packet (dma (driver w')) (slot w' j)) \<le> 2048"
  proof -
    have "dma (driver w') = dma (driver w)" by (simp add: w'_def)
    moreover have "\<forall>j < l. length (card_packet (dma (driver w)) (slot w (Suc j))) \<le> 2048" using inv Suc by (simp add: wire_inv_def)
    ultimately show ?thesis using l7 by (simp add: slots)
  qed
  moreover have "buffers_apart (send_buffer_desc (driver w'))"
    using inv by (simp add: w'_def) (intro buffers_apart_update, simp_all add: wire_inv_def ds_def nd_def desc_def)
  moreover have "send_buffer_pos (driver w') = (card_pos w' + l) mod 8" using inv Suc by (simp add: w'_def wire_inv_def mod_simps)
  ultimately have "wire_inv w' l" using inv l7 len unfolding wire_inv_def by (simp add: w'_def)
  then show ?thesis using run Suc by (simp add: w'_def)
qed

definition pages_ok :: "u32 list \<Rightarrow> bool" where
  "pages_ok ps \<longleftrightarrow> distinct ps \<and> (\<forall>p \<in> set ps. 0x1000 dvd unat p)"

lemma length_setup_ring [simp]: "length (setup_ring ps fl) = 2 * length ps"
  by (induction ps fl rule: setup_ring.induct) simp_all

lemma setup_ring_nth:
  "i < 2 * length ps \<Longrightarrow> setup_ring ps fl ! i = \<lparr>address = ps ! (i div 2) + (if even i then 0 else 2048), flags = fl, flags_2 = 0, avail = 0\<rparr>"
proof (induction ps fl arbitrary: i rule: setup_ring.induct)
  case (2 page pages fl)
  consider "i = 0" | "i = 1" | j where "i = Suc (Suc j)" by (metis One_nat_def not0_implies_Suc)
  then show ?case using 2 by cases auto
qed simp

lemma page_half:
  assumes "0x1000 dvd unat (p :: u32)"
  shows "unat (p + 2048) = unat p + 2048"
proof -
  have "unat p < 2 ^ 32" using unsigned_less [of p] by simp
  moreover from assms obtain q where "unat p = 0x1000 * q" by (auto elim: dvdE)
  ultimately have "unat p + 2048 < 2 ^ 32" by simp
  then show ?thesis by (simp add: unat_word_ariths(1))
qed

lemma setup_ring_apart:
  assumes "pages_ok ps"
  shows "buffers_apart (setup_ring ps fl)"
  unfolding buffers_apart_def
proof (intro allI impI)
  fix i j assume ij: "i < length (setup_ring ps fl)" "j < length (setup_ring ps fl)" "i \<noteq> j"
  define a where "a i = unat (ps ! (i div 2)) + (if even i then 0 else 2048)" for i
  have addr: "unat (address (setup_ring ps fl ! i)) = a i" if "i < 2 * length ps" for i
    using that assms page_half [of "ps ! (i div 2)"] by (auto simp: setup_ring_nth a_def pages_ok_def)
  have "a i + 2048 \<le> a j \<or> a j + 2048 \<le> a i"
  proof (cases "i div 2 = j div 2")
    case True
    then have "even i \<noteq> even j" using ij(3) by (metis dvd_mult_div_cancel odd_two_times_div_two_succ)
    then show ?thesis using True by (auto simp: a_def)
  next
    case False
    then have "ps ! (i div 2) \<noteq> ps ! (j div 2)" using assms ij by (simp add: pages_ok_def nth_eq_iff_index_eq)
    then have "unat (ps ! (i div 2)) \<noteq> unat (ps ! (j div 2))" by (simp add: word_unat_eq_iff)
    moreover from assms ij obtain p q where "unat (ps ! (i div 2)) = 0x1000 * p" "unat (ps ! (j div 2)) = 0x1000 * q"
      unfolding pages_ok_def by (metis dvdE length_setup_ring less_mult_imp_div_less mult.commute nth_mem)
    ultimately show ?thesis by (cases "p < q") (auto simp: a_def not_less)
  qed
  then show "unat (address (setup_ring ps fl ! i)) + 2048 \<le> unat (address (setup_ring ps fl ! j)) \<or>
      unat (address (setup_ring ps fl ! j)) + 2048 \<le> unat (address (setup_ring ps fl ! i))"
    using ij by (simp add: addr)
qed

lemma wire_inv_start:
  assumes "pages_ok ps" "length ps = 4" "send_buffer_desc s = setup_ring ps BUFFER_SIZE_MASK" "send_buffer_pos s = 0"
  shows "wire_inv \<lparr>driver = s, card = d, card_pos = 0, wire = [], accepted = []\<rparr> 0"
proof -
  have "BUFFER_SIZE_MASK AND 0x80000000 = 0" by (simp add: BUFFER_SIZE_MASK_def BUFFER_ENTRY_SIZE_def)
  then show ?thesis using assms setup_ring_apart [OF assms(1)]
    by (simp add: wire_inv_def slot_def card_owns_def setup_ring_nth)
qed

definition sends_ok :: "wire_event list \<Rightarrow> bool" where
  "sends_ok es \<longleftrightarrow> (\<forall>data. DriverSends data \<in> set es \<longrightarrow> 0 < length data \<and> length data \<le> 2048)"

lemma wire_run_inv:
  "sends_ok es \<Longrightarrow> wire_inv w k \<Longrightarrow> \<exists>w' k'. wire_run io es w = Some w' \<and> wire_inv w' k'"
proof (induction es arbitrary: w k)
  case (Cons e es)
  have "\<exists>w1 k1. wire_step io e w = Some w1 \<and> wire_inv w1 k1"
  proof (cases e)
    case (DriverSends data)
    with Cons.prems(1) have data: "0 < length data" "length data \<le> 2048" by (auto simp: sends_ok_def)
    have "k \<le> 8" using Cons.prems(2) by (simp add: wire_inv_def)
    then show ?thesis using wire_send_free [OF Cons.prems(2) _ data, of io] wire_send_full [of w io data] Cons.prems(2) DriverSends
      by (cases "k = 8") (auto simp: le_less simp del: wire_step.simps)
  next
    case CardTransmits
    then show ?thesis using wire_transmit [OF Cons.prems(2), of io] by blast
  qed
  then obtain w1 k1 where "wire_step io e w = Some w1" "wire_inv w1 k1" by blast
  moreover have "sends_ok es" using Cons.prems(1) by (auto simp: sends_ok_def)
  ultimately show ?case using Cons.IH [of w1 k1] by simp
qed auto

text \<open>
  C13. The network card transmits what the driver accepted, in order and unchanged.  Start with the
  ring of eight send descriptors that the driver sets up over four distinct pages, and let the driver
  send packets of 1 to 2048 bytes while the card works through the ring, in any interleaving and
  whatever the card's registers return.  The driver never panics; the packets on the wire, followed by
  the at most eight packets still in the ring, are exactly the accepted packets; and the next packet
  is accepted unless eight are waiting.
\<close>

theorem pcnet_transmits_in_order:
  assumes "pages_ok ps" "length ps = 4" "send_buffer_desc s = setup_ring ps BUFFER_SIZE_MASK" "send_buffer_pos s = 0" "sends_ok es"
  shows "\<exists>w rest. wire_run io es \<lparr>driver = s, card = d, card_pos = 0, wire = [], accepted = []\<rparr> = Some w \<and>
    accepted w = wire w @ rest \<and> length rest \<le> 8 \<and>
    (\<forall>data. 0 < length data \<longrightarrow> length data \<le> 2048 \<longrightarrow>
      (\<exists>w'. wire_step io (DriverSends data) w = Some w' \<and> accepted w' = (if length rest < 8 then accepted w @ [data] else accepted w)))"
proof -
  from wire_run_inv [OF assms(5) wire_inv_start [OF assms(1-4), of d], of io] obtain w k where
    w: "wire_run io es \<lparr>driver = s, card = d, card_pos = 0, wire = [], accepted = []\<rparr> = Some w" "wire_inv w k" by blast
  define rest where "rest = map (\<lambda>j. card_packet (dma (driver w)) (slot w j)) [0 ..< k]"
  have k: "k \<le> 8" "length rest = k" "accepted w = wire w @ rest" using w(2) by (simp_all add: wire_inv_def rest_def)
  have "\<exists>w'. wire_step io (DriverSends data) w = Some w' \<and> accepted w' = (if length rest < 8 then accepted w @ [data] else accepted w)"
    if "0 < length data" "length data \<le> 2048" for data
  proof (cases "k < 8")
    case True
    with wire_send_free [OF w(2) True that, of io] k(2) show ?thesis by auto
  next
    case False
    then have "k = 8" using k(1) by simp
    with wire_send_full [of w io data] w(2) k(2) show ?thesis by auto
  qed
  then show ?thesis using w(1) k by (intro exI [of _ w] exI [of _ rest]) simp
qed

definition sample_card :: "unit port_io32" where
  "sample_card = \<lparr>in32 = (\<lambda>p d. (0, d)), out32 = (\<lambda>p v d. d)\<rparr>"

definition sample_driver :: PCNET where
  "sample_driver = \<lparr>io_base = 0xC000, init_block = \<lparr>mode = 0, num_send_buffers = 3, num_recv_buffers = 3, physical_address = 1, logical_address = 1,
     recv_buffer_desc_addr = 0, send_buffer_desc_addr = 0\<rparr>, send_buffer_desc = setup_ring [0x1000, 0x2000, 0x3000, 0x4000] BUFFER_SIZE_MASK,
     send_buffer_pos = 0, recv_buffer_desc = [], recv_buffer_pos = 0, owned_pages = [], listeners = [], dma = (\<lambda>_. 0)\<rparr>"

theorem pcnet_transmits_in_order_witness:
  "\<exists>w rest. wire_run sample_card [DriverSends [1, 2], CardTransmits, DriverSends [3]]
      \<lparr>driver = sample_driver, card = (), card_pos = 0, wire = [], accepted = []\<rparr> = Some w \<and> accepted w = wire w @ rest \<and> length rest \<le> 8"
proof -
  have "pages_ok [0x1000, 0x2000, 0x3000, 0x4000]" by (simp add: pages_ok_def)
  moreover have "sends_ok [DriverSends [1, 2], CardTransmits, DriverSends [3]]" by (simp add: sends_ok_def)
  ultimately show ?thesis
    using pcnet_transmits_in_order [of "[0x1000, 0x2000, 0x3000, 0x4000]" sample_driver "[DriverSends [1, 2], CardTransmits, DriverSends [3]]" sample_card "()"]
    by (auto simp: sample_driver_def)
qed

end
