(* ===== verification/Pci.thy ===== *)
theory Pci
  imports Pcnet
begin

text \<open>
  The PCI bus (\<open>kernel/src/pci/\<close>, \<open>kernel_userspace/src/pci.rs\<close>): configuration space through the
  legacy ports or through memory, the headers of devices, the enumeration of the bus with the drivers
  it starts, and the service through which a driver in user space reaches its device.  A trait object
  is a record of functions on the state of the hardware.
\<close>

subsection \<open>Devices\<close>

record 'd PCIDevice =
  read_u8 :: "u32 \<Rightarrow> 'd \<Rightarrow> (u8 \<times> 'd) option"
  read_u16 :: "u32 \<Rightarrow> 'd \<Rightarrow> (u16 \<times> 'd) option"
  read_u32 :: "u32 \<Rightarrow> 'd \<Rightarrow> (u32 \<times> 'd) option"
  write_u8 :: "u32 \<Rightarrow> u8 \<Rightarrow> 'd \<Rightarrow> 'd option"
  write_u16 :: "u32 \<Rightarrow> u16 \<Rightarrow> 'd \<Rightarrow> 'd option"
  write_u32 :: "u32 \<Rightarrow> u32 \<Rightarrow> 'd \<Rightarrow> 'd option"

definition legacy_command_read :: "'d port_io32 \<Rightarrow> u32 \<Rightarrow> 'd \<Rightarrow> u32 \<times> 'd" where
  "legacy_command_read io addr d = in32 io 0xCFC (out32 io 0xCF8 addr d)"

definition legacy_command_write :: "'d port_io32 \<Rightarrow> u32 \<Rightarrow> u32 \<Rightarrow> 'd \<Rightarrow> 'd" where
  "legacy_command_write io addr value d = out32 io 0xCFC value (out32 io 0xCF8 addr d)"

definition legacy_get_address :: "u8 \<Rightarrow> u8 \<Rightarrow> u8 \<Rightarrow> u32" where
  "legacy_get_address bus device function =
     push_bit 31 1 OR push_bit 16 (ucast bus) OR push_bit 11 (ucast device) OR push_bit 8 (ucast function)"

text \<open>Address plus offset, checked as \<open>u32\<close>.\<close>

definition add_u32 :: "u32 \<Rightarrow> u32 \<Rightarrow> u32 option" where
  "add_u32 a b = (if unat a + unat b < 2 ^ 32 then Some (a + b) else None)"

definition legacy_read_u32 :: "'d port_io32 \<Rightarrow> u32 \<Rightarrow> u32 \<Rightarrow> 'd \<Rightarrow> (u32 \<times> 'd) option" where
  "legacy_read_u32 io base_addr offset d = do { a \<leftarrow> add_u32 base_addr offset; Some (legacy_command_read io a d) }"

definition legacy_write_u32 :: "'d port_io32 \<Rightarrow> u32 \<Rightarrow> u32 \<Rightarrow> u32 \<Rightarrow> 'd \<Rightarrow> 'd option" where
  "legacy_write_u32 io base_addr offset data d = do { a \<leftarrow> add_u32 base_addr offset; Some (legacy_command_write io a data d) }"

text \<open>Accesses of one and two bytes, in terms of the aligned double word.\<close>

definition byte_shift :: "u32 \<Rightarrow> nat" where
  "byte_shift offset = 8 * unat (offset AND 0b11)"

definition split_read_u8 :: "(u32 \<Rightarrow> 'd \<Rightarrow> (u32 \<times> 'd) option) \<Rightarrow> u32 \<Rightarrow> 'd \<Rightarrow> (u8 \<times> 'd) option" where
  "split_read_u8 rd offset d = do {
     (block, d1) \<leftarrow> rd (offset AND NOT 0b11) d;
     Some (ucast (drop_bit (byte_shift offset) block AND 0xFF), d1)
   }"

definition split_read_u16 :: "(u32 \<Rightarrow> 'd \<Rightarrow> (u32 \<times> 'd) option) \<Rightarrow> u32 \<Rightarrow> 'd \<Rightarrow> (u16 \<times> 'd) option" where
  "split_read_u16 rd offset d = do {
     (block, d1) \<leftarrow> rd (offset AND NOT 0b11) d;
     Some (ucast (drop_bit (byte_shift offset) block AND 0xFFFF), d1)
   }"

definition split_write_u8 ::
  "(u32 \<Rightarrow> 'd \<Rightarrow> (u32 \<times> 'd) option) \<Rightarrow> (u32 \<Rightarrow> u32 \<Rightarrow> 'd \<Rightarrow> 'd option) \<Rightarrow> u32 \<Rightarrow> u8 \<Rightarrow> 'd \<Rightarrow> 'd option" where
  "split_write_u8 rd wr offset data d = do {
     (block, d1) \<leftarrow> rd (offset AND NOT 0b11) d;
     wr (offset AND NOT 0b11)
       ((block AND NOT (push_bit (byte_shift offset) 0xFF)) OR push_bit (byte_shift offset) (ucast data)) d1
   }"

definition split_write_u16 ::
  "(u32 \<Rightarrow> 'd \<Rightarrow> (u32 \<times> 'd) option) \<Rightarrow> (u32 \<Rightarrow> u32 \<Rightarrow> 'd \<Rightarrow> 'd option) \<Rightarrow> u32 \<Rightarrow> u16 \<Rightarrow> 'd \<Rightarrow> 'd option" where
  "split_write_u16 rd wr offset data d = do {
     (block, d1) \<leftarrow> rd (offset AND NOT 0b10) d;
     wr (offset AND NOT 0b11)
       ((block AND NOT (push_bit (byte_shift offset) 0xFFFF)) OR push_bit (byte_shift offset) (ucast data)) d1
   }"

definition legacy_device :: "'d port_io32 \<Rightarrow> u8 \<Rightarrow> u8 \<Rightarrow> u8 \<Rightarrow> 'd PCIDevice" where
  "legacy_device io bus device function =
     (let rd = legacy_read_u32 io (legacy_get_address bus device function);
          wr = legacy_write_u32 io (legacy_get_address bus device function)
      in \<lparr>read_u8 = split_read_u8 rd, read_u16 = split_read_u16 rd, read_u32 = rd,
          write_u8 = split_write_u8 rd wr, write_u16 = split_write_u16 rd wr, write_u32 = wr\<rparr>)"

subsection \<open>Devices behind memory\<close>

text \<open>The memory of the configuration space, byte by byte.\<close>

type_synonym memory = "nat \<Rightarrow> u8"

definition load :: "nat \<Rightarrow> nat \<Rightarrow> memory \<Rightarrow> nat" where
  "load n a m = le_bytes (map m [a ..< a + n])"

definition express_device :: "nat \<Rightarrow> memory PCIDevice" where
  "express_device addr =
     \<lparr>read_u8 = (\<lambda>offset m. do { a \<leftarrow> add_usize addr (unat offset); Some (m a, m) }),
      read_u16 = (\<lambda>offset m. do {
        rassert (offset mod 2 = 0);
        a \<leftarrow> add_usize addr (unat offset);
        Some (of_nat (load 2 a m), m) }),
      read_u32 = (\<lambda>offset m. do {
        rassert (offset mod 4 = 0);
        a \<leftarrow> add_usize addr (unat offset);
        Some (of_nat (load 4 a m), m) }),
      write_u8 = (\<lambda>offset data m. do { a \<leftarrow> add_usize addr (unat offset); Some (m(a := data)) }),
      write_u16 = (\<lambda>offset data m. do {
        rassert (offset mod 2 = 0);
        a \<leftarrow> add_usize addr (unat offset);
        Some (store_bytes a (to_le 2 (unat data)) m) }),
      write_u32 = (\<lambda>offset data m. do {
        rassert (offset mod 4 = 0);
        a \<leftarrow> add_usize addr (unat offset);
        Some (store_bytes a (to_le 4 (unat data)) m) })\<rparr>"

record mcfg_entry =
  mcfg_base_address :: nat
  pci_segment_group :: nat
  bus_number_start :: nat
  bus_number_end :: nat

fun find_segment :: "nat \<Rightarrow> mcfg_entry list \<Rightarrow> nat option" where
  "find_segment seg [] = None"
| "find_segment seg (e # es) = (if pci_segment_group e = seg then Some (mcfg_base_address e) else find_segment seg es)"

text \<open>The outer option is the panic of an overflow.\<close>

definition express_get_address :: "mcfg_entry list \<Rightarrow> nat \<Rightarrow> nat \<Rightarrow> nat \<Rightarrow> nat \<Rightarrow> nat option option" where
  "express_get_address entries segment bus device function =
     (let offset = bus * 2 ^ 20 + device * 2 ^ 15 + function * 2 ^ 12 in
      case find_segment segment entries of
        None \<Rightarrow> Some None
      | Some b \<Rightarrow> map_option Some (add_usize b offset))"

subsection \<open>Headers\<close>

definition get_vendor_id :: "'d PCIDevice \<Rightarrow> 'd \<Rightarrow> (u16 \<times> 'd) option" where "get_vendor_id dev = read_u16 dev 0"
definition get_device_id :: "'d PCIDevice \<Rightarrow> 'd \<Rightarrow> (u16 \<times> 'd) option" where "get_device_id dev = read_u16 dev 2"
definition get_command :: "'d PCIDevice \<Rightarrow> 'd \<Rightarrow> (u16 \<times> 'd) option" where "get_command dev = read_u16 dev 4"
definition get_status :: "'d PCIDevice \<Rightarrow> 'd \<Rightarrow> (u16 \<times> 'd) option" where "get_status dev = read_u16 dev 6"
definition get_revision_id :: "'d PCIDevice \<Rightarrow> 'd \<Rightarrow> (u8 \<times> 'd) option" where "get_revision_id dev = read_u8 dev 8"
definition get_prog_if :: "'d PCIDevice \<Rightarrow> 'd \<Rightarrow> (u8 \<times> 'd) option" where "get_prog_if dev = read_u8 dev 9"
definition get_subclass :: "'d PCIDevice \<Rightarrow> 'd \<Rightarrow> (u8 \<times> 'd) option" where "get_subclass dev = read_u8 dev 10"
definition get_class :: "'d PCIDevice \<Rightarrow> 'd \<Rightarrow> (u8 \<times> 'd) option" where "get_class dev = read_u8 dev 11"
definition get_cache_line_size :: "'d PCIDevice \<Rightarrow> 'd \<Rightarrow> (u8 \<times> 'd) option" where "get_cache_line_size dev = read_u8 dev 12"
definition get_latency_timer :: "'d PCIDevice \<Rightarrow> 'd \<Rightarrow> (u8 \<times> 'd) option" where "get_latency_timer dev = read_u8 dev 13"
definition get_header_type :: "'d PCIDevice \<Rightarrow> 'd \<Rightarrow> (u8 \<times> 'd) option" where "get_header_type dev = read_u8 dev 14"
definition get_bist :: "'d PCIDevice \<Rightarrow> 'd \<Rightarrow> (u8 \<times> 'd) option" where "get_bist dev = read_u8 dev 15"
definition get_interrupt_num :: "'d PCIDevice \<Rightarrow> 'd \<Rightarrow> (u8 \<times> 'd) option" where "get_interrupt_num dev = read_u8 dev 0x3C"

definition get_bar :: "'d PCIDevice \<Rightarrow> nat \<Rightarrow> 'd \<Rightarrow> (u32 \<times> 'd) option" where
  "get_bar dev bar_num d = do { rassert (bar_num \<le> 5); read_u32 dev (0x10 + of_nat bar_num * 4) d }"

primrec find_port_base :: "'d PCIDevice \<Rightarrow> nat list \<Rightarrow> 'd \<Rightarrow> (u32 option \<times> 'd) option" where
  "find_port_base dev [] d = Some (None, d)"
| "find_port_base dev (i # is) d = do {
     (bar, d1) \<leftarrow> get_bar dev i d;
     let addr = bar AND 0xFFFFFFFC;
     if addr > 0 \<and> bar AND 1 = 1 then Some (Some addr, d1) else find_port_base dev is d1
   }"

definition get_port_base :: "'d PCIDevice \<Rightarrow> 'd \<Rightarrow> (u32 option \<times> 'd) option" where
  "get_port_base dev d = find_port_base dev [0 ..< 5] d"

subsection \<open>Enumeration\<close>

text \<open>What a device gets: the driver of the PCnet card in user space, or the AHCI driver.\<close>

datatype driver_start = StartPcnet nat nat nat nat | StartAhci nat nat nat nat

type_synonym 'd bus = "nat \<Rightarrow> nat \<Rightarrow> nat \<Rightarrow> nat \<Rightarrow> 'd \<Rightarrow> ('d PCIDevice \<times> 'd) option"

definition absent :: "'d PCIDevice \<Rightarrow> 'd \<Rightarrow> (bool \<times> 'd) option" where
  "absent dev d = do {
     (i1, d1) \<leftarrow> get_device_id dev d;
     if i1 = 0 then Some (True, d1)
     else do { (i2, d2) \<leftarrow> get_device_id dev d1; Some (i2 = 0xFFFF, d2) }
   }"

text \<open>The reads that only serve the log message are left out.\<close>

definition enumerate_function :: "'d bus \<Rightarrow> nat \<Rightarrow> nat \<Rightarrow> nat \<Rightarrow> nat \<Rightarrow> 'd \<Rightarrow> (driver_start list \<times> 'd) option" where
  "enumerate_function pci_bus segment bus device function d = do {
     (dev, d1) \<leftarrow> pci_bus segment bus device function d;
     (gone, d2) \<leftarrow> absent dev d1;
     if gone then Some ([], d2)
     else do {
       (vendor, d3) \<leftarrow> get_vendor_id dev d2;
       (is_pcnet, d4) \<leftarrow> (if vendor = 0x1022 then map_option (\<lambda>(i, d'). (i = 0x2000, d')) (get_device_id dev d3) else Some (False, d3));
       if is_pcnet then Some ([StartPcnet segment bus device function], d4)
       else do {
         (cls, d5) \<leftarrow> get_class dev d4;
         (subcls, d6) \<leftarrow> (if cls = 0x01 then get_subclass dev d5 else Some (0, d5));
         (prog_if, d7) \<leftarrow> (if cls = 0x01 \<and> subcls = 0x06 then get_prog_if dev d6 else Some (0, d6));
         Some (if cls = 0x01 \<and> subcls = 0x06 \<and> prog_if = 0x01 then [StartAhci segment bus device function] else [], d7)
       }
     }
   }"

primrec enumerate_each :: "('a \<Rightarrow> 'd \<Rightarrow> ('b list \<times> 'd) option) \<Rightarrow> 'a list \<Rightarrow> 'd \<Rightarrow> ('b list \<times> 'd) option" where
  "enumerate_each f [] d = Some ([], d)"
| "enumerate_each f (x # xs) d = do {
     (r, d1) \<leftarrow> f x d;
     (rs, d2) \<leftarrow> enumerate_each f xs d1;
     Some (r @ rs, d2)
   }"

definition enumerate_device :: "'d bus \<Rightarrow> nat \<Rightarrow> nat \<Rightarrow> nat \<Rightarrow> 'd \<Rightarrow> (driver_start list \<times> 'd) option" where
  "enumerate_device pci_bus segment bus device d = do {
     (dev, d1) \<leftarrow> pci_bus segment bus device 0 d;
     (gone, d2) \<leftarrow> absent dev d1;
     if gone then Some ([], d2)
     else enumerate_each (enumerate_function pci_bus segment bus device) [0 ..< 8] d2
   }"

definition enumerate_bus :: "'d bus \<Rightarrow> nat \<Rightarrow> nat \<Rightarrow> 'd \<Rightarrow> (driver_start list \<times> 'd) option" where
  "enumerate_bus pci_bus segment bus d = do {
     (dev, d1) \<leftarrow> pci_bus segment bus 0 0 d;
     (gone, d2) \<leftarrow> absent dev d1;
     if gone then Some ([], d2)
     else enumerate_each (enumerate_device pci_bus segment bus) [0 ..< 32] d2
   }"

definition legacy_get_device :: "'d port_io32 \<Rightarrow> 'd bus" where
  "legacy_get_device io segment bus device function d = do {
     rassert (segment = 0);
     Some (legacy_device io (of_nat bus) (of_nat device) (of_nat function), d)
   }"

text \<open>
  The memory-mapped bus identity-maps the page of the function first, which the model leaves out.
\<close>

definition express_get_device :: "mcfg_entry list \<Rightarrow> memory bus" where
  "express_get_device entries segment bus device function m = do {
     r \<leftarrow> express_get_address entries segment bus device function;
     addr \<leftarrow> r;
     Some (express_device addr, m)
   }"

definition enumerate_express :: "mcfg_entry list \<Rightarrow> memory \<Rightarrow> (driver_start list \<times> memory) option" where
  "enumerate_express entries m =
     enumerate_each (\<lambda>e. enumerate_each (enumerate_bus (express_get_device entries) (pci_segment_group e)) [bus_number_start e ..< bus_number_end e])
       entries m"

definition enumerate_legacy :: "'d port_io32 \<Rightarrow> 'd \<Rightarrow> (driver_start list \<times> 'd) option" where
  "enumerate_legacy io d = enumerate_each (enumerate_bus (legacy_get_device io) 0) [0 ..< 255] d"

subsection \<open>The device service\<close>

datatype PCIDevCmd = Read u32 | Write u32 u32
datatype pci_reply = Value u32 | Written | BadArgs

fun pci_dev_handler :: "'d PCIDevice \<Rightarrow> PCIDevCmd \<Rightarrow> 'd \<Rightarrow> (pci_reply \<times> 'd) option" where
  "pci_dev_handler dev (Read offset) d =
     (if offset \<le> 256 then do { (resp, d1) \<leftarrow> read_u32 dev offset d; Some (Value resp, d1) } else Some (BadArgs, d))"
| "pci_dev_handler dev (Write offset data) d =
     (if offset \<le> 256 then do { d1 \<leftarrow> write_u32 dev offset data d; Some (Written, d1) } else Some (BadArgs, d))"

text \<open>
  The device as its driver in user space sees it: every access is a call of the service.  After a bad
  request the service ends and the call fails.
\<close>

definition user_read_u32 :: "(PCIDevCmd \<Rightarrow> 'd \<Rightarrow> (pci_reply \<times> 'd) option) \<Rightarrow> u32 \<Rightarrow> 'd \<Rightarrow> (u32 \<times> 'd) option" where
  "user_read_u32 call offset d = do {
     (r, d1) \<leftarrow> call (Read offset) d;
     case r of Value v \<Rightarrow> Some (v, d1) | _ \<Rightarrow> None
   }"

definition user_write_u32 :: "(PCIDevCmd \<Rightarrow> 'd \<Rightarrow> (pci_reply \<times> 'd) option) \<Rightarrow> u32 \<Rightarrow> u32 \<Rightarrow> 'd \<Rightarrow> 'd option" where
  "user_write_u32 call offset data d = do {
     (r, d1) \<leftarrow> call (Write offset data) d;
     case r of Written \<Rightarrow> Some d1 | _ \<Rightarrow> None
   }"

definition user_device :: "(PCIDevCmd \<Rightarrow> 'd \<Rightarrow> (pci_reply \<times> 'd) option) \<Rightarrow> 'd PCIDevice" where
  "user_device call =
     \<lparr>read_u8 = split_read_u8 (user_read_u32 call), read_u16 = split_read_u16 (user_read_u32 call), read_u32 = user_read_u32 call,
      write_u8 = split_write_u8 (user_read_u32 call) (user_write_u32 call),
      write_u16 = split_write_u16 (user_read_u32 call) (user_write_u32 call), write_u32 = user_write_u32 call\<rparr>"

text \<open>The start of the network driver from its device: identifiers and port come from the header.\<close>

definition pcnet_probe :: "'d PCIDevice \<Rightarrow> 'd \<Rightarrow> ((u16 \<times> u16 \<times> u32 option) \<times> 'd) option" where
  "pcnet_probe dev d = do {
     (vendor, d1) \<leftarrow> get_vendor_id dev d;
     (dev_id, d2) \<leftarrow> get_device_id dev d1;
     (pb, d3) \<leftarrow> get_port_base dev d2;
     Some ((vendor, dev_id, pb), d3)
   }"

subsection \<open>Accesses of one byte\<close>

text \<open>
  A configuration space of double words.  What the byte accesses make of it is proved once, for every
  device whose double-word accesses behave like memory.
\<close>

locale config_space =
  fixes rd :: "u32 \<Rightarrow> 'd \<Rightarrow> (u32 \<times> 'd) option"
    and wr :: "u32 \<Rightarrow> u32 \<Rightarrow> 'd \<Rightarrow> 'd option"
    and content :: "'d \<Rightarrow> u32 \<Rightarrow> u32"
    and inside_space :: "u32 \<Rightarrow> bool"
  assumes read_law: "inside_space offset \<Longrightarrow> rd offset d = Some (content d offset, d)"
    and write_law: "inside_space offset \<Longrightarrow> \<exists>d'. wr offset v d = Some d' \<and> content d' offset = v \<and>
      (\<forall>other. inside_space other \<longrightarrow> other \<noteq> offset \<longrightarrow> content d' other = content d other)"
begin

lemma byte_shift_less: "byte_shift offset + 8 \<le> 32"
proof -
  have m: "(0b11 :: u32) = mask 2" by (simp add: mask_eq_exp_minus_1)
  have "unat (offset AND 0b11) < 2 ^ 2" unfolding m unat_and_low_mask by (rule low_bits_less)
  then show ?thesis by (simp add: byte_shift_def)
qed

lemma byte_written:
  fixes block :: u32 and data :: u8
  assumes "sh + 8 \<le> 32"
  shows "ucast (drop_bit sh ((block AND NOT (push_bit sh 0xFF)) OR push_bit sh (ucast data)) AND 0xFF) = data"
proof -
  have m: "(0xFF :: u32) = mask 8" by (simp add: mask_eq_exp_minus_1)
  show ?thesis unfolding m using assms
    by (intro bit_word_eqI) (auto simp: bit_simps)
qed

lemma write_then_read_u8:
  assumes "inside_space (offset AND NOT 0b11)"
  shows "\<exists>d'. split_write_u8 rd wr offset data d = Some d' \<and> split_read_u8 rd offset d' = Some (data, d') \<and>
    (\<forall>other. inside_space other \<longrightarrow> other \<noteq> offset AND NOT 0b11 \<longrightarrow> content d' other = content d other)"
proof -
  define v where "v = (content d (offset AND NOT 0b11) AND NOT (push_bit (byte_shift offset) 0xFF)) OR push_bit (byte_shift offset) (ucast data)"
  from write_law [OF assms, of v d] obtain d' where d': "wr (offset AND NOT 0b11) v d = Some d'" "content d' (offset AND NOT 0b11) = v"
    "\<forall>other. inside_space other \<longrightarrow> other \<noteq> offset AND NOT 0b11 \<longrightarrow> content d' other = content d other" by blast
  have "split_write_u8 rd wr offset data d = Some d'"
    unfolding split_write_u8_def read_law [OF assms] using d'(1) by (simp add: v_def)
  moreover have "split_read_u8 rd offset d' = Some (data, d')"
    unfolding split_read_u8_def read_law [OF assms] d'(2) v_def
    by (simp only: bind.bind_lunit case_prod_conv byte_written [OF byte_shift_less])
  ultimately show ?thesis using d'(3) by blast
qed

end

lemma load_store_same: "load n a (store_bytes a bs m) = le_bytes bs" if "length bs = n"
proof -
  have "map (store_bytes a bs m) [a ..< a + n] = bs" using that by (intro nth_equalityI) (simp_all add: store_bytes_def)
  then show ?thesis by (simp add: load_def)
qed

lemma load_store_other:
  assumes "b + n \<le> a \<or> a + length bs \<le> b"
  shows "load n b (store_bytes a bs m) = load n b m"
proof -
  have "map (store_bytes a bs m) [b ..< b + n] = map m [b ..< b + n]" using assms by (auto simp: store_bytes_def)
  then show ?thesis unfolding load_def by (simp only:)
qed

definition express_inside :: "nat \<Rightarrow> u32 \<Rightarrow> bool" where
  "express_inside addr offset \<longleftrightarrow> 4 dvd unat offset \<and> addr + unat offset < 2 ^ 64"

interpretation express: config_space "read_u32 (express_device addr)" "write_u32 (express_device addr)"
  "\<lambda>m offset. of_nat (load 4 (addr + unat offset) m)" "express_inside addr" for addr
proof (unfold_locales, goal_cases)
  case (1 offset m)
  then have "offset mod 4 = 0" by (simp add: express_inside_def unat_mod word_unat_eq_iff dvd_eq_mod_eq_0)
  then show ?case using 1 by (simp add: express_device_def add_usize_def express_inside_def)
next
  case (2 offset v m)
  then have z: "offset mod 4 = 0" by (simp add: express_inside_def unat_mod word_unat_eq_iff dvd_eq_mod_eq_0)
  define m' where "m' = store_bytes (addr + unat offset) (to_le 4 (unat v)) m"
  have "unat v < 256 ^ 4" using unsigned_less [of v] by simp
  then have "load 4 (addr + unat offset) m' = unat v" by (simp add: m'_def load_store_same le_bytes_to_le del: to_le.simps)
  moreover have "load 4 (addr + unat other) m' = load 4 (addr + unat other) m"
    if "express_inside addr other" "other \<noteq> offset" for other
  proof -
    from 2 that obtain p q where "unat offset = 4 * p" "unat other = 4 * q" by (auto simp: express_inside_def elim!: dvdE)
    moreover have "unat other \<noteq> unat offset" using that(2) by (simp add: word_unat_eq_iff)
    ultimately have "unat other + 4 \<le> unat offset \<or> unat offset + 4 \<le> unat other" by auto
    then show ?thesis unfolding m'_def by (intro load_store_other) auto
  qed
  moreover have "write_u32 (express_device addr) offset v m = Some m'"
    using 2 z by (simp add: express_device_def add_usize_def express_inside_def m'_def)
  ultimately show ?case by (intro exI [of _ m']) simp
qed

text \<open>A driver in user space reaches the same registers as the kernel.\<close>

lemma user_device_reads:
  assumes "offset \<le> 256"
  shows "user_read_u32 (pci_dev_handler dev) offset d = read_u32 dev offset d"
    and "user_write_u32 (pci_dev_handler dev) offset v d = write_u32 dev offset v d"
proof -
  show "user_read_u32 (pci_dev_handler dev) offset d = read_u32 dev offset d"
    using assms by (cases "read_u32 dev offset d") (auto simp: user_read_u32_def)
  show "user_write_u32 (pci_dev_handler dev) offset v d = write_u32 dev offset v d"
    using assms by (cases "write_u32 dev offset v d") (auto simp: user_write_u32_def)
qed

text \<open>Distinct functions have distinct addresses, whose low byte is free for the register.\<close>

lemma legacy_address_parts:
  assumes "unat device < 32" "unat function < 8"
  shows "ucast (drop_bit 16 (legacy_get_address bus device function)) = bus"
    and "drop_bit 11 (legacy_get_address bus device function) AND 0x1F = ucast device"
    and "drop_bit 8 (legacy_get_address bus device function) AND 0x7 = ucast function"
    and "legacy_get_address bus device function AND 0xFF = 0"
proof -
  have d: "bit device n \<Longrightarrow> n < 5" and f: "bit function n \<Longrightarrow> n < 3" for n
  proof -
    have "take_bit 5 device = device" "take_bit 3 function = function"
      using assms by (simp_all add: word_unat_eq_iff unsigned_take_bit_eq take_bit_nat_eq_self)
    then show "bit device n \<Longrightarrow> n < 5" "bit function n \<Longrightarrow> n < 3" by (metis bit_take_bit_iff)+
  qed
  obtain e :: u32 where e: "legacy_get_address bus device function = e OR push_bit 16 (ucast bus) OR push_bit 11 (ucast device) OR push_bit 8 (ucast function)"
    and eb: "\<And>n. bit e n \<Longrightarrow> n = 31"
    by (rule that [of "push_bit 31 1"]) (simp_all only: legacy_get_address_def bit_push_bit_iff bit_1_iff, auto)
  have m: "(0x1F :: u32) = mask 5" "(0x7 :: u32) = mask 3" "(0xFF :: u32) = mask 8" by (simp_all add: mask_eq_exp_minus_1)
  show "ucast (drop_bit 16 (legacy_get_address bus device function)) = bus"
    by (rule bit_word_eqI) (auto simp: e bit_simps dest: d f eb)
  show "drop_bit 11 (legacy_get_address bus device function) AND 0x1F = ucast device" unfolding m
    by (rule bit_word_eqI) (auto simp: e bit_simps dest: d f eb)
  show "drop_bit 8 (legacy_get_address bus device function) AND 0x7 = ucast function" unfolding m
    by (rule bit_word_eqI) (auto simp: e bit_simps dest: d f eb)
  show "legacy_get_address bus device function AND 0xFF = 0" unfolding m
    by (rule bit_word_eqI) (auto simp: e bit_simps dest: eb)
qed

end
