(* ===== verification/Ahci.thy ===== *)
theory Ahci
  imports Pci Page_Table
begin

text \<open>
  The AHCI disk driver (\<open>kernel/src/driver/disk/\<close>): the type of a port, the command lists and
  command tables the driver shares with the controller, reading sectors into a buffer, and the scan
  of the ports of a controller.  The registers of the controller are a record of functions on the
  state of the hardware.  The addresses and the first contents of boxes that are allocated without
  being initialised are arguments.  The value \<open>None\<close> stands for a panic and for a loop that does not
  end.
\<close>

subsection \<open>Registers and shared structures\<close>

datatype hba_reg = Interrupt_status | Cmd_sts | Task_file_data | Signature | Sata_status | Sata_active
  | Command_issue

datatype hba_reg64 = Command_list_base | Fis_base_address

record 'd hba_io =
  ports_implemented :: "'d \<Rightarrow> u32 \<times> 'd"
  hba_read :: "nat \<Rightarrow> hba_reg \<Rightarrow> 'd \<Rightarrow> u32 \<times> 'd"
  hba_write :: "nat \<Rightarrow> hba_reg \<Rightarrow> u32 \<Rightarrow> 'd \<Rightarrow> 'd"
  hba_write64 :: "nat \<Rightarrow> hba_reg64 \<Rightarrow> nat \<Rightarrow> 'd \<Rightarrow> 'd"

definition hba_update :: "'d hba_io \<Rightarrow> nat \<Rightarrow> hba_reg \<Rightarrow> (u32 \<Rightarrow> u32) \<Rightarrow> 'd \<Rightarrow> 'd" where
  "hba_update io n r f d = (let (v, d1) = hba_read io n r d in hba_write io n r (f v) d1)"

datatype PortType = NoPort | SATA | SEMB | PM | SATAPI

definition HBA_PORT_DEV_PRESENT :: u8 where "HBA_PORT_DEV_PRESENT = 0x3"
definition HBA_PORT_IPM_ACTIVE :: u8 where "HBA_PORT_IPM_ACTIVE = 0x1"
definition SATA_SIG_ATAPI :: u32 where "SATA_SIG_ATAPI = 0xEB140101"
definition SATA_SIG_ATA :: u32 where "SATA_SIG_ATA = 0x00000101"
definition SATA_SIG_SEMB :: u32 where "SATA_SIG_SEMB = 0xC33C0101"
definition SATA_SIG_PM :: u32 where "SATA_SIG_PM = 0x96690101"
definition HBA_PX_CMD_ST :: u32 where "HBA_PX_CMD_ST = 0x0001"
definition HBA_PX_CMD_FRE :: u32 where "HBA_PX_CMD_FRE = 0x0010"
definition HBA_PX_CMD_FR :: u32 where "HBA_PX_CMD_FR = 0x4000"
definition HBA_PX_CMD_CR :: u32 where "HBA_PX_CMD_CR = 0x8000"
definition PRDT_LENGTH :: nat where "PRDT_LENGTH = 8"

record HBACommandHeader =
  command_fis_length :: nat
  atapi :: bool
  cmd_write :: bool
  prefetchable :: bool
  cmd_reset :: bool
  bist :: bool
  clear_busy :: bool
  cmd_port_multiplier :: nat
  prdt_length :: nat
  prdb_count :: u32
  command_table_base_address :: nat

record HBAPRDTEntry =
  data_base_address :: nat
  byte_count :: nat
  interrupt_on_completion :: bool

record FisRegH2D =
  fis_type :: u8
  port_multiplier :: u8
  command_control :: bool
  command :: u8
  feature_low :: u8
  lba0 :: u8
  lba1 :: u8
  lba2 :: u8
  device_register :: u8
  lba3 :: u8
  lba4 :: u8
  lba5 :: u8
  feature_high :: u8
  countl :: u8
  counth :: u8
  iso_command_completion :: u8
  fis_control :: u8

definition REGH2D :: u8 where "REGH2D = 0x27"

text \<open>The first 20 of the 64 bytes \<open>command_fis\<close> are read as a \<open>FisRegH2D\<close>.\<close>

record HBACommandTable =
  command_fis :: FisRegH2D
  prdt_entry :: "HBAPRDTEntry list"

record ahci_port =
  hba_port :: nat
  cmd_list :: "HBACommandHeader list"
  cmd_tables :: "HBACommandTable list"

text \<open>Sizes in bytes: \<open>FisRegH2D\<close>, \<open>HBACommandTable<PRDT_LENGTH>\<close> and \<open>ATADiskIdentify\<close>.\<close>

definition FIS_SIZE :: nat where "FIS_SIZE = 20"
definition COMMAND_TABLE_SIZE :: nat where "COMMAND_TABLE_SIZE = 64 + 16 + 48 + PRDT_LENGTH * 16"
definition IDENTIFY_SIZE :: nat where "IDENTIFY_SIZE = 512"

subsection \<open>Starting and stopping a port\<close>

definition check_port_type :: "'d hba_io \<Rightarrow> nat \<Rightarrow> 'd \<Rightarrow> PortType \<times> 'd" where
  "check_port_type io n d =
     (let (st, d1) = hba_read io n Sata_status d;
          ipm = ucast (drop_bit 8 st AND 7) :: u8;
          det = ucast (st AND 7) :: u8
      in if det \<noteq> HBA_PORT_DEV_PRESENT then (NoPort, d1)
         else if ipm \<noteq> HBA_PORT_IPM_ACTIVE then (NoPort, d1)
         else let (sig, d2) = hba_read io n Signature d1 in
           (if sig = SATA_SIG_ATAPI then SATAPI else if sig = SATA_SIG_ATA then SATA
            else if sig = SATA_SIG_PM then PM else if sig = SATA_SIG_SEMB then SEMB else NoPort, d2))"

partial_function (option) spin_while :: "'d hba_io \<Rightarrow> nat \<Rightarrow> (u32 \<Rightarrow> bool) \<Rightarrow> 'd \<Rightarrow> 'd option" where
  "spin_while io n busy d =
     (case hba_read io n Cmd_sts d of (v, d1) \<Rightarrow> if busy v then spin_while io n busy d1 else Some d1)"

declare spin_while.simps [code]

definition start_cmd :: "'d hba_io \<Rightarrow> nat \<Rightarrow> 'd \<Rightarrow> 'd option" where
  "start_cmd io n d = do {
     d1 \<leftarrow> spin_while io n (\<lambda>v. v AND HBA_PX_CMD_CR > 0) d;
     let d2 = hba_update io n Cmd_sts (\<lambda>v. v OR HBA_PX_CMD_FRE) d1;
     Some (hba_update io n Cmd_sts (\<lambda>v. v OR HBA_PX_CMD_ST) d2)
   }"

definition stop_cmd :: "'d hba_io \<Rightarrow> nat \<Rightarrow> 'd \<Rightarrow> 'd option" where
  "stop_cmd io n d = do {
     let d1 = hba_update io n Cmd_sts (\<lambda>v. v AND NOT HBA_PX_CMD_ST) d;
     d2 \<leftarrow> spin_while io n (\<lambda>v. v OR HBA_PX_CMD_CR = 1) d1;
     let d3 = hba_update io n Cmd_sts (\<lambda>v. v AND NOT HBA_PX_CMD_FRE) d2;
     spin_while io n (\<lambda>v. v OR HBA_PX_CMD_FR = 1) d3
   }"

text \<open>What the heap gives for the three boxes of a port: addresses and contents.\<close>

record port_boxes =
  rfis_vaddr :: nat
  cmd_list_vaddr :: nat
  cmd_tables_vaddr :: nat
  uninit_list :: "HBACommandHeader list"
  uninit_tables :: "HBACommandTable list"

definition phys_of :: "nat \<Rightarrow> phys \<Rightarrow> nat \<Rightarrow> nat option" where
  "phys_of t m v = Option.bind (get_phys_addr_from_vaddr t v m) id"

definition header_init :: "nat \<Rightarrow> nat \<Rightarrow> HBACommandHeader \<Rightarrow> HBACommandHeader option" where
  "header_init tables_addr i h = do {
     a \<leftarrow> add_usize tables_addr (i * COMMAND_TABLE_SIZE);
     Some (h\<lparr>prdt_length := 0, command_table_base_address := a\<rparr>)
   }"

primrec headers_init :: "nat \<Rightarrow> nat \<Rightarrow> HBACommandHeader list \<Rightarrow> HBACommandHeader list option" where
  "headers_init tables_addr i [] = Some []"
| "headers_init tables_addr i (h # hs) = do {
     h' \<leftarrow> header_init tables_addr i h;
     hs' \<leftarrow> headers_init tables_addr (Suc i) hs;
     Some (h' # hs')
   }"

definition ahci_port_new ::
  "'d hba_io \<Rightarrow> nat \<Rightarrow> phys \<Rightarrow> port_boxes \<Rightarrow> nat \<Rightarrow> 'd \<Rightarrow> (ahci_port \<times> 'd) option" where
  "ahci_port_new io t m b n d = do {
     d1 \<leftarrow> stop_cmd io n d;
     rfis_addr \<leftarrow> phys_of t m (rfis_vaddr b);
     cmd_list_addr \<leftarrow> phys_of t m (cmd_list_vaddr b);
     let d2 = hba_write64 io n Command_list_base cmd_list_addr d1;
     let d3 = hba_write64 io n Fis_base_address rfis_addr d2;
     cmd_tables_addr \<leftarrow> phys_of t m (cmd_tables_vaddr b);
     hs \<leftarrow> headers_init cmd_tables_addr 0 (uninit_list b);
     d4 \<leftarrow> start_cmd io n d3;
     Some (\<lparr>hba_port = n, cmd_list = hs, cmd_tables = uninit_tables b\<rparr>, d4)
   }"

text \<open>\<open>find_slot\<close>: the registers are read once, before the loop.\<close>

partial_function (option) find_slot_loop :: "u32 \<Rightarrow> nat option" where
  "find_slot_loop test =
     (case find (\<lambda>sl. test AND push_bit sl 1 = 0) [0 ..< 32] of
        Some sl \<Rightarrow> Some sl
      | None \<Rightarrow> find_slot_loop test)"

declare find_slot_loop.simps [code]

definition find_slot :: "'d hba_io \<Rightarrow> nat \<Rightarrow> 'd \<Rightarrow> (nat \<times> 'd) option" where
  "find_slot io n d =
     (let (ci, d1) = hba_read io n Command_issue d; (sa, d2) = hba_read io n Sata_active d1
      in map_option (\<lambda>sl. (sl, d2)) (find_slot_loop (ci OR sa)))"

subsection \<open>Reading sectors\<close>

definition set_entry :: "nat \<Rightarrow> nat \<Rightarrow> nat \<Rightarrow> HBAPRDTEntry list \<Rightarrow> HBAPRDTEntry list option" where
  "set_entry k addr cnt es = do {
     rassert (k < length es);
     c \<leftarrow> chk 22 cnt;
     Some (es[k := (es ! k)\<lparr>data_base_address := addr, byte_count := c\<rparr>])
   }"

definition page_phys :: "nat \<Rightarrow> phys \<Rightarrow> nat \<Rightarrow> nat option" where
  "page_phys t m v = do { vp \<leftarrow> page_new Size4KB v; r \<leftarrow> pt_address_of 4 1 t vp m; r }"

definition first_entry ::
  "nat \<Rightarrow> phys \<Rightarrow> nat \<Rightarrow> nat \<Rightarrow> HBAPRDTEntry list \<Rightarrow> (nat \<times> nat \<times> nat \<times> HBAPRDTEntry list) option" where
  "first_entry t m ptr_addr bytes_to_read es =
     (let left_align_size = low_bits 12 ptr_addr in
      if left_align_size > 0 then do {
        let ptr = clear_low 12 ptr_addr;
        phys_addr \<leftarrow> page_phys t m ptr;
        a \<leftarrow> add_usize phys_addr left_align_size;
        es' \<leftarrow> set_entry 0 a (0xFFF - left_align_size) es;
        ptr' \<leftarrow> add_usize ptr 0x1000;
        Some (ptr', bytes_to_read - (0x1000 - left_align_size), 1, es')
      } else Some (ptr_addr, bytes_to_read, 0, es))"

fun fill_pages ::
  "nat \<Rightarrow> phys \<Rightarrow> nat \<Rightarrow> nat \<Rightarrow> nat \<Rightarrow> HBAPRDTEntry list \<Rightarrow> (nat \<times> nat \<times> nat \<times> HBAPRDTEntry list) option" where
  "fill_pages t m ptr bytes_to_read k es =
     (if bytes_to_read > 0x1000 then do {
        phys_addr \<leftarrow> page_phys t m ptr;
        es' \<leftarrow> set_entry k phys_addr 0xFFF es;
        ptr' \<leftarrow> add_usize ptr 0x1000;
        fill_pages t m ptr' (bytes_to_read - 0x1000) (k + 1) es'
      } else Some (ptr, bytes_to_read, k, es))"

declare fill_pages.simps [simp del]

definition last_entry ::
  "nat \<Rightarrow> phys \<Rightarrow> nat \<Rightarrow> nat \<Rightarrow> nat \<Rightarrow> HBAPRDTEntry list \<Rightarrow> (nat \<times> HBAPRDTEntry list) option" where
  "last_entry t m ptr bytes_to_read k es =
     (if bytes_to_read > 0 then do {
        phys_addr \<leftarrow> page_phys t m ptr;
        es' \<leftarrow> set_entry k phys_addr (bytes_to_read - 1) es;
        Some (k + 1, es')
      } else Some (k, es))"

definition fill_prdt ::
  "nat \<Rightarrow> phys \<Rightarrow> nat \<Rightarrow> nat \<Rightarrow> HBAPRDTEntry list \<Rightarrow> (nat \<times> HBAPRDTEntry list) option" where
  "fill_prdt t m buffer sector_count es = do {
     (p1, b1, k1, es1) \<leftarrow> first_entry t m buffer (512 * sector_count) es;
     (p2, b2, k2, es2) \<leftarrow> fill_pages t m p1 b1 k1 es1;
     last_entry t m p2 b2 k2 es2
   }"

definition read_fis :: "nat \<Rightarrow> nat \<Rightarrow> FisRegH2D \<Rightarrow> FisRegH2D" where
  "read_fis sector sector_count f =
     (let sector_low = of_nat sector :: u32; sector_high = of_nat (shr 32 sector) :: u32;
          count = of_nat sector_count :: u32
      in f\<lparr>fis_type := REGH2D, fis_control := 1, command := 0x25, command_control := True,
           lba0 := ucast sector_low, lba1 := ucast (drop_bit 8 sector_low),
           lba2 := ucast (drop_bit 16 sector_low),
           lba3 := ucast sector_high, lba4 := ucast (drop_bit 8 sector_high),
           lba5 := ucast (drop_bit 16 sector_high),
           device_register := push_bit 6 1,
           countl := ucast (count AND 0xFF), counth := ucast (drop_bit 8 count AND 0xFF)\<rparr>)"

text \<open>
  Waiting until the port is not busy: the register is read before the counter is looked at.  The
  result is what is left of the counter.
\<close>

primrec wait_idle :: "'d hba_io \<Rightarrow> nat \<Rightarrow> nat \<Rightarrow> 'd \<Rightarrow> nat \<times> 'd" where
  "wait_idle io n 0 d = (0, snd (hba_read io n Task_file_data d))"
| "wait_idle io n (Suc spin) d =
     (let (v, d1) = hba_read io n Task_file_data d in
      if v AND (0x80 OR 0x08) > 0 then wait_idle io n spin d1 else (Suc spin, d1))"

definition read_error :: "'d hba_io \<Rightarrow> nat \<Rightarrow> 'd \<Rightarrow> bool \<times> 'd" where
  "read_error io n d =
     (let (v, d1) = hba_read io n Interrupt_status d in (v AND push_bit 30 1 > 0, d1))"

definition issued :: "'d hba_io \<Rightarrow> nat \<Rightarrow> nat \<Rightarrow> 'd \<Rightarrow> bool \<times> 'd" where
  "issued io n sl d =
     (let (v, d1) = hba_read io n Command_issue d in (v AND push_bit sl 1 \<noteq> 0, d1))"

text \<open>The loop that waits for the command: whether it ended without an error.\<close>

partial_function (option) wait_command :: "'d hba_io \<Rightarrow> nat \<Rightarrow> nat \<Rightarrow> 'd \<Rightarrow> (bool \<times> 'd) option" where
  "wait_command io n sl d =
     (case issued io n sl d of (busy, d1) \<Rightarrow>
        if \<not> busy then Some (True, d1)
        else case read_error io n d1 of (err, d2) \<Rightarrow>
          if err then Some (False, d2) else wait_command io n sl d2)"

declare wait_command.simps [code]

definition issue_read :: "'d hba_io \<Rightarrow> nat \<Rightarrow> nat \<Rightarrow> 'd \<Rightarrow> (unit option \<times> 'd) option" where
  "issue_read io n sl d =
     (let (spin, d1) = wait_idle io n 100000 d in
      if spin = 0 then Some (None, d1)
      else do {
        let d2 = hba_write io n Command_issue (push_bit sl 1) d1;
        (ok, d3) \<leftarrow> wait_command io n sl d2;
        if \<not> ok then Some (None, d3)
        else let (err, d4) = read_error io n d3 in Some (if err then None else Some (), d4)
      })"

definition MAX_SECTORS :: nat where "MAX_SECTORS = (PRDT_LENGTH - 1) * 8"

definition ahci_read ::
  "'d hba_io \<Rightarrow> nat \<Rightarrow> phys \<Rightarrow> nat \<Rightarrow> nat \<Rightarrow> nat \<Rightarrow> nat \<Rightarrow> ahci_port \<Rightarrow> 'd \<Rightarrow>
     (unit option \<times> ahci_port \<times> 'd) option" where
  "ahci_read io t m sector sector_count buffer buffer_len p d = do {
     rassert (sector_count \<le> MAX_SECTORS);
     rassert (buffer_len \<ge> sector_count * 512);
     (sl, d1) \<leftarrow> find_slot io (hba_port p) d;
     rassert (sl < length (cmd_list p) \<and> sl < length (cmd_tables p));
     let tab = cmd_tables p ! sl;
     (k, es) \<leftarrow> fill_prdt t m buffer sector_count (prdt_entry tab);
     let p1 = p\<lparr>cmd_list := (cmd_list p)[sl := (cmd_list p ! sl)\<lparr>command_fis_length := FIS_SIZE div 4,
                  cmd_write := False, prdt_length := k\<rparr>],
                cmd_tables := (cmd_tables p)[sl := tab\<lparr>prdt_entry := es,
                  command_fis := read_fis sector sector_count (command_fis tab)\<rparr>]\<rparr>;
     (r, d2) \<leftarrow> issue_read io (hba_port p) sl d1;
     Some (r, p1, d2)
   }"

definition ahci_write :: "ahci_port \<Rightarrow> 'd \<Rightarrow> (unit option \<times> ahci_port \<times> 'd) option" where
  "ahci_write p d = None"

subsection \<open>Identifying the disk\<close>

primrec wait_identify :: "'d hba_io \<Rightarrow> nat \<Rightarrow> nat \<Rightarrow> nat \<Rightarrow> 'd \<Rightarrow> nat \<times> 'd" where
  "wait_identify io n sl 0 d = (0, d)"
| "wait_identify io n sl (Suc i) d =
     (let (busy, d1) = issued io n sl d in
      if \<not> busy then (Suc i, d1)
      else let (err, d2) = read_error io n d1 in
        if err then (Suc i, d2) else wait_identify io n sl i d2)"

definition ahci_identify :: "'d hba_io \<Rightarrow> nat \<Rightarrow> phys \<Rightarrow> nat \<Rightarrow> ahci_port \<Rightarrow> 'd \<Rightarrow> (ahci_port \<times> 'd) option" where
  "ahci_identify io t m identify p d = do {
     let n = hba_port p;
     let d0 = hba_write io n Interrupt_status 0xFFFFFFFF d;
     (sl, d1) \<leftarrow> find_slot io n d0;
     rassert (sl < length (cmd_list p) \<and> sl < length (cmd_tables p));
     let tab = cmd_tables p ! sl;
     phys_addr \<leftarrow> phys_of t m identify;
     es \<leftarrow> set_entry 0 phys_addr (IDENTIFY_SIZE - 1) (prdt_entry tab);
     let p1 = p\<lparr>cmd_list := (cmd_list p)[sl := (cmd_list p ! sl)\<lparr>command_fis_length := FIS_SIZE div 4,
                  cmd_write := False, prdt_length := 1\<rparr>],
                cmd_tables := (cmd_tables p)[sl := tab\<lparr>prdt_entry := es,
                  command_fis := (command_fis tab)\<lparr>fis_type := REGH2D, command := 0xEC, countl := 0,
                    command_control := True\<rparr>\<rparr>]\<rparr>;
     let (spin, d2) = wait_idle io n 1000000 d1;
     rassert (spin \<noteq> 0);
     let d3 = hba_write io n Command_issue (push_bit sl 1) d2;
     let (i, d4) = wait_identify io n sl 100000 d3;
     rassert (i \<noteq> 0);
     Some (p1, d4)
   }"

subsection \<open>The controller\<close>

record AHCIDriver =
  ahci_ports :: "ahci_port option list"

text \<open>Probing one port: set up and tested by reading sector 0 into a buffer of 512 bytes.\<close>

definition probe_port ::
  "'d hba_io \<Rightarrow> nat \<Rightarrow> phys \<Rightarrow> (nat \<Rightarrow> port_boxes) \<Rightarrow> nat \<Rightarrow> u32 \<Rightarrow> nat \<Rightarrow> 'd \<Rightarrow>
     (ahci_port option \<times> 'd) option" where
  "probe_port io t m boxes buffer implemented n d =
     (if bit implemented n then
        let (ty, d1) = check_port_type io n d in
        if ty = SATA then do {
          (p, d2) \<leftarrow> ahci_port_new io t m (boxes n) n d1;
          (r, p', d3) \<leftarrow> ahci_read io t m 0 1 buffer 512 p d2;
          Some (if r \<noteq> None then Some p' else None, d3)
        } else Some (None, d1)
      else Some (None, d))"

primrec probe_ports ::
  "'d hba_io \<Rightarrow> nat \<Rightarrow> phys \<Rightarrow> (nat \<Rightarrow> port_boxes) \<Rightarrow> nat \<Rightarrow> u32 \<Rightarrow> nat list \<Rightarrow> 'd \<Rightarrow>
     (ahci_port option list \<times> 'd) option" where
  "probe_ports io t m boxes buffer implemented [] d = Some ([], d)"
| "probe_ports io t m boxes buffer implemented (n # ns) d = do {
     (p, d1) \<leftarrow> probe_port io t m boxes buffer implemented n d;
     (ps, d2) \<leftarrow> probe_ports io t m boxes buffer implemented ns d1;
     Some (p # ps, d2)
   }"

definition ahci_new ::
  "'d PCIDevice \<Rightarrow> 'd hba_io \<Rightarrow> nat \<Rightarrow> (nat \<Rightarrow> port_boxes) \<Rightarrow> nat \<Rightarrow> phys \<Rightarrow> 'd \<Rightarrow>
     (AHCIDriver option \<times> phys \<times> 'd) option" where
  "ahci_new device io t boxes buffer m d = do {
     (abar, d1) \<leftarrow> get_bar device 5 d;
     page \<leftarrow> page_new Size4KB (unat abar);
     (r, m1) \<leftarrow> identity_map 1 t page flags_all m;
     rassert (\<not> isl r);
     (_, d2) \<leftarrow> get_bar device 5 d1;
     let (implemented, d3) = ports_implemented io d2;
     (ps, d4) \<leftarrow> probe_ports io t m1 boxes buffer implemented [0 ..< 32] d3;
     Some (Some \<lparr>ahci_ports = ps\<rparr>, m1, d4)
   }"

definition get_disks :: "AHCIDriver \<Rightarrow> ahci_port list" where
  "get_disks s = List.map_filter id (ahci_ports s)"

definition get_disk_by_id :: "nat \<Rightarrow> AHCIDriver \<Rightarrow> ahci_port option" where
  "get_disk_by_id i s = (if i < length (ahci_ports s) then ahci_ports s ! i else None)"

subsection \<open>Where the data goes\<close>

text \<open>
  What the controller does with a list of entries: byte \<open>i\<close> of a transfer goes to the address that
  \<open>prdt_target\<close> gives; the byte count of an entry is one less than its length.
\<close>

fun prdt_target :: "HBAPRDTEntry list \<Rightarrow> nat \<Rightarrow> nat option" where
  "prdt_target [] i = None"
| "prdt_target (e # es) i =
     (if i \<le> byte_count e then Some (data_base_address e + i) else prdt_target es (i - Suc (byte_count e)))"

definition prdt_total :: "HBAPRDTEntry list \<Rightarrow> nat" where
  "prdt_total es = sum_list (map (\<lambda>e. Suc (byte_count e)) es)"

lemma prdt_target_append:
  "prdt_target (es @ fs) i = (if i < prdt_total es then prdt_target es i else prdt_target fs (i - prdt_total es))"
  by (induction es arbitrary: i) (auto simp: prdt_total_def)

text \<open>The first \<open>k\<close> entries cover the first \<open>n\<close> bytes of the buffer.\<close>

definition prdt_covers :: "nat \<Rightarrow> phys \<Rightarrow> nat \<Rightarrow> nat \<Rightarrow> nat \<Rightarrow> HBAPRDTEntry list \<Rightarrow> bool" where
  "prdt_covers t m buffer n k es \<longleftrightarrow>
     k \<le> length es \<and> prdt_total (take k es) = n \<and>
     (\<forall>i < n. \<exists>a. phys_of t m (buffer + i) = Some a \<and> prdt_target (take k es) i = Some a)"

lemma covers_0: "prdt_covers t m buffer 0 0 es"
  by (simp add: prdt_covers_def prdt_total_def)

lemma page_phys_of:
  assumes "page_phys t m ptr = Some a" "off < 0x1000"
  shows "phys_of t m (ptr + off) = Some (a + off)"
proof -
  from assms(1) obtain vp where new: "page_new Size4KB ptr = Some vp" and at: "pt_address_of 4 1 t vp m = Some (Some a)"
    by (auto simp: page_phys_def bind_eq_Some_conv)
  from new have al: "ptr mod 2 ^ 12 = 0"
    by (auto simp: page_new_def bind_eq_Some_conv low_bits_def page_shift_def rassert_def split: if_splits)
  have off: "(ptr + off) mod 2 ^ 12 = off" using al assms(2) by (simp add: mod_add_eq [symmetric, of ptr])
  then have "clear_low 12 (ptr + off) = ptr" by (simp add: clear_low_def)
  with new at off show ?thesis
    by (simp add: phys_of_def get_phys_addr_from_vaddr_def page_containing_def page_shift_def)
qed

lemma set_entryD:
  assumes "set_entry k a c es = Some es'"
  shows "k < length es" "length es' = length es" "take k es' = take k es"
    "data_base_address (es' ! k) = a" "byte_count (es' ! k) = c"
  using assms by (auto simp: set_entry_def bind_eq_Some_conv chk_def rassert_def split: if_splits)

lemma covers_step:
  assumes c: "prdt_covers t m buffer n k es" and s: "set_entry k (a + off) cnt es = Some es'"
    and a: "page_phys t m ptr = Some a" and off: "buffer + n = ptr + off" "off + cnt < 0x1000"
  shows "prdt_covers t m buffer (n + Suc cnt) (Suc k) es'"
proof -
  note se = set_entryD [OF s]
  have tk: "take (Suc k) es' = take k es @ [es' ! k]"
    using se by (simp add: take_Suc_conv_app_nth)
  have tot: "prdt_total (take k es) = n" using c by (simp add: prdt_covers_def)
  have "\<exists>b. phys_of t m (buffer + i) = Some b \<and> prdt_target (take (Suc k) es') i = Some b"
    if i: "i < n + Suc cnt" for i
  proof (cases "i < n")
    case True
    then show ?thesis using c tot by (auto simp: prdt_covers_def tk prdt_target_append)
  next
    case False
    have "buffer + i = ptr + (off + (i - n))" using off(1) False by simp
    moreover have "off + (i - n) < 0x1000" using i off(2) False by simp
    ultimately have "phys_of t m (buffer + i) = Some (a + (off + (i - n)))"
      using page_phys_of [OF a] by simp
    with False i tot se show ?thesis by (auto simp: tk prdt_target_append)
  qed
  then show ?thesis using se tot by (simp add: prdt_covers_def tk) (simp add: prdt_total_def)
qed

lemma first_entry_covers:
  assumes "first_entry t m buffer bytes es = Some (p1, b1, k1, es1)"
  shows "\<exists>n. prdt_covers t m buffer n k1 es1 \<and> p1 = buffer + n \<and> bytes \<le> n + b1 \<and> length es1 = length es"
proof (cases "low_bits 12 buffer = 0")
  case True
  with assms covers_0 [of t m buffer es] show ?thesis by (auto simp: first_entry_def)
next
  case False
  define off where "off = low_bits 12 buffer"
  define ptr where "ptr = clear_low 12 buffer"
  have off: "0 < off" "off < 0x1000" "buffer = ptr + off"
    using False by (simp_all add: off_def ptr_def low_bits_def clear_low_def)
  obtain a where a: "page_phys t m ptr = Some a" and s: "set_entry 0 (a + off) (0xFFF - off) es = Some es1"
      and r: "p1 = ptr + 0x1000" "b1 = bytes - (0x1000 - off)" "k1 = 1"
    using assms False
    by (auto simp: first_entry_def Let_def bind_eq_Some_conv add_usize_def off_def ptr_def split: if_splits)
  have "prdt_covers t m buffer (0 + Suc (0xFFF - off)) (Suc 0) es1"
    by (rule covers_step [OF covers_0 s a]) (use off in simp_all)
  moreover have "p1 = buffer + Suc (0xFFF - off)" using off r by simp
  moreover have "bytes \<le> Suc (0xFFF - off) + b1" using off r by simp
  ultimately show ?thesis using r(3) set_entryD(2) [OF s] by (intro exI [of _ "Suc (0xFFF - off)"]) simp
qed

lemma fill_pages_covers:
  assumes "fill_pages t m ptr bytes k es = Some (p2, b2, k2, es2)"
    and "prdt_covers t m buffer n k es" "ptr = buffer + n" "want \<le> n + bytes"
  shows "\<exists>n2. prdt_covers t m buffer n2 k2 es2 \<and> p2 = buffer + n2 \<and> want \<le> n2 + b2 \<and> b2 \<le> 0x1000 \<and> length es2 = length es"
  using assms
proof (induction t m ptr bytes k es arbitrary: n rule: fill_pages.induct)
  case (1 t m ptr bytes k es)
  show ?case
  proof (cases "bytes > 0x1000")
    case False
    with "1.prems" show ?thesis by (auto simp: fill_pages.simps [of t m _ bytes k es])
  next
    case True
    with "1.prems"(1) obtain a es' ptr' where a: "page_phys t m ptr = Some a"
        and s: "set_entry k a 0xFFF es = Some es'" and p': "add_usize ptr 0x1000 = Some ptr'"
        and rest: "fill_pages t m ptr' (bytes - 0x1000) (k + 1) es' = Some (p2, b2, k2, es2)"
      by (auto simp: fill_pages.simps [of t m ptr] bind_eq_Some_conv)
    have "prdt_covers t m buffer (n + Suc 0xFFF) (Suc k) es'"
      by (rule covers_step [where off = 0, OF "1.prems"(2) _ a]) (use s "1.prems"(3) in simp_all)
    moreover have "ptr' = buffer + (n + Suc 0xFFF)" using p' "1.prems"(3) by (simp add: add_usize_def split: if_splits)
    moreover have "want \<le> (n + Suc 0xFFF) + (bytes - 0x1000)" using True "1.prems"(4) by simp
    ultimately show ?thesis
      using "1.IH" [OF True a s p', of "n + Suc 0xFFF"] rest set_entryD(2) [OF s] by simp
  qed
qed

lemma fill_prdt_covers:
  assumes "fill_prdt t m buffer sector_count es = Some (k, es')"
  shows "\<exists>n. prdt_covers t m buffer n k es' \<and> 512 * sector_count \<le> n \<and> length es' = length es"
proof -
  from assms obtain p1 b1 k1 es1 p2 b2 k2 es2
    where f: "first_entry t m buffer (512 * sector_count) es = Some (p1, b1, k1, es1)"
      and g: "fill_pages t m p1 b1 k1 es1 = Some (p2, b2, k2, es2)"
      and l: "last_entry t m p2 b2 k2 es2 = Some (k, es')"
    by (auto simp: fill_prdt_def bind_eq_Some_conv)
  from first_entry_covers [OF f] fill_pages_covers [OF g] obtain n
    where n: "prdt_covers t m buffer n k2 es2" "p2 = buffer + n" "512 * sector_count \<le> n + b2" "b2 \<le> 0x1000"
      "length es2 = length es" by metis
  show ?thesis
  proof (cases "b2 = 0")
    case True
    with l n show ?thesis by (auto simp: last_entry_def)
  next
    case False
    with l obtain a where a: "page_phys t m p2 = Some a" and s: "set_entry k2 a (b2 - 1) es2 = Some es'"
        and k: "k = Suc k2" by (auto simp: last_entry_def bind_eq_Some_conv)
    have "prdt_covers t m buffer (n + Suc (b2 - 1)) (Suc k2) es'"
      by (rule covers_step [where off = 0, OF n(1) _ a]) (use s n(2,4) False in simp_all)
    with k n(3,5) False set_entryD(2) [OF s] show ?thesis by auto
  qed
qed

text \<open>The sector in a command.\<close>

definition fis_lba :: "FisRegH2D \<Rightarrow> nat" where
  "fis_lba f = le_bytes [lba0 f, lba1 f, lba2 f, lba3 f, lba4 f, lba5 f]"

lemma read_fis_lba:
  assumes "sector < 2 ^ 24"
  shows "fis_lba (read_fis sector n f) = sector"
proof -
  have hi: "shr 32 sector = 0" using assms by (simp add: shr_def)
  have b: "unat (ucast (drop_bit (8 * j) (of_nat sector :: u32)) :: u8) = sector div 256 ^ j mod 256" for j
  proof -
    have "unat (of_nat sector :: u32) = sector" using assms by (simp add: unat_of_nat take_bit_nat_eq_self)
    then show ?thesis
      by (simp add: unsigned_ucast_eq unat_drop_bit_eq drop_bit_nat_def take_bit_eq_mod power_mult)
  qed
  have "sector = sector mod 256 + 256 * (sector div 256 mod 256) + 65536 * (sector div 65536)"
    using mod_mult2_eq [of sector 256 256] mod_mult_div_eq [of sector 65536] by simp
  moreover have "sector div 65536 mod 256 = sector div 65536" using assms by (intro mod_less) (simp add: div_less_iff_less_mult)
  ultimately show ?thesis
    using b [of 0] b [of 1] b [of 2] by (simp add: fis_lba_def read_fis_def hi Let_def)
qed

lemma read_fis_lba_drops: "fis_lba (read_fis (2 ^ 24) n f) = 0"
  by (simp add: fis_lba_def read_fis_def Let_def shr_def)

text \<open>The slots that \<open>find_slot\<close> gives, and that it never returns when every slot is taken.\<close>

lemma find_slot_free:
  assumes "find_slot_loop test = Some sl"
  shows "sl < 32 \<and> \<not> bit test sl"
proof (rule find_slot_loop.raw_induct [OF _ assms])
  fix loop and test :: u32 and sl
  assume "\<And>test' sl'. loop test' = Some sl' \<Longrightarrow> sl' < 32 \<and> \<not> bit test' sl'"
    and "(case find (\<lambda>sl. test AND push_bit sl 1 = 0) [0 ..< 32] of Some sl \<Rightarrow> Some sl | None \<Rightarrow> loop test) = Some sl"
  then show "sl < 32 \<and> \<not> bit test sl"
    by (auto simp: find_Some_iff and_exp_eq_0_iff_not_bit split: option.splits)
qed

lemma find_slot_hangs: "(\<And>sl. sl < 32 \<Longrightarrow> bit test sl) \<Longrightarrow> find_slot_loop test = None"
  using find_slot_free [of test] by (cases "find_slot_loop test") auto

lemma stop_does_not_wait:
  "spin_while io n (\<lambda>v. v OR HBA_PX_CMD_CR = 1) d = Some (snd (hba_read io n Cmd_sts d))"
  "spin_while io n (\<lambda>v. v OR HBA_PX_CMD_FR = 1) d = Some (snd (hba_read io n Cmd_sts d))"
proof -
  have "bit (v OR HBA_PX_CMD_CR) 15" "bit (v OR HBA_PX_CMD_FR) 14" for v :: u32
    by (simp_all add: HBA_PX_CMD_CR_def HBA_PX_CMD_FR_def bit_or_iff)
  then have "v OR HBA_PX_CMD_CR \<noteq> 1" "v OR HBA_PX_CMD_FR \<noteq> 1" for v
    by (metis bit_1_iff zero_neq_numeral)+
  then show "spin_while io n (\<lambda>v. v OR HBA_PX_CMD_CR = 1) d = Some (snd (hba_read io n Cmd_sts d))"
    "spin_while io n (\<lambda>v. v OR HBA_PX_CMD_FR = 1) d = Some (snd (hba_read io n Cmd_sts d))"
    by (simp_all add: spin_while.simps split: prod.splits)
qed

text \<open>A buffer whose bytes are mapped gets its entries, and eight of them are enough.\<close>

lemma looked_up_page:
  "pt_address_of l 1 t v m = Some (Some a) \<Longrightarrow> a mod 0x1000 = 0 \<and> a < 2 ^ 64"
proof (induction l arbitrary: t)
  case (Suc l)
  have "a mod 0x1000 = 0 \<and> a < 2 ^ 64" if "page_new Size4KB p = Some a" for p
  proof -
    from that have "p = a" "a mod 2 ^ 12 = 0" "shr 48 a \<le> 0xFFFF"
      by (auto simp: page_new_def bind_eq_Some_conv low_bits_def page_shift_def rassert_def Let_def split: if_splits)
    moreover from this have "a div 2 ^ 48 < 2 ^ 16" by (simp add: shr_def)
    then have "a < 2 ^ 16 * 2 ^ 48" by (subst (asm) div_less_iff_less_mult) simp_all
    ultimately show ?thesis by simp
  qed
  with Suc show ?case
    by (auto simp: pt_address_of.simps(2) address_of_inner_def level_size_def Let_def bind_eq_Some_conv
        split: if_splits)
qed simp

lemma phys_of_page:
  assumes "phys_of t m v = Some b"
  shows "\<exists>a. page_phys t m (clear_low 12 v) = Some a \<and> a mod 0x1000 = 0 \<and> a < 2 ^ 64"
  using assms looked_up_page
  by (auto simp: phys_of_def page_phys_def get_phys_addr_from_vaddr_def page_containing_def page_shift_def
      bind_eq_Some_conv)

lemma set_entry_total: "k < length es \<Longrightarrow> c < 0x1000 \<Longrightarrow> \<exists>es'. set_entry k a c es = Some es'"
  by (simp add: set_entry_def chk_def rassert_def)

definition fillable :: "nat \<Rightarrow> phys \<Rightarrow> nat \<Rightarrow> nat \<Rightarrow> nat \<Rightarrow> HBAPRDTEntry list \<Rightarrow> bool" where
  "fillable t m ptr b k es \<longleftrightarrow>
     length es = PRDT_LENGTH \<and>
     (0 < b \<longrightarrow> ptr mod 0x1000 = 0 \<and> b + 0x1000 * k \<le> 0x7FFF \<and> ptr + b + 0x1000 < 2 ^ 64 \<and>
        (\<forall>i < b. phys_of t m (ptr + i) \<noteq> None))"

lemma aligned_page:
  assumes "ptr mod 0x1000 = 0" "phys_of t m (ptr + 0) \<noteq> None"
  shows "\<exists>a. page_phys t m ptr = Some a"
proof -
  have "clear_low 12 ptr = ptr" using assms(1) by (simp add: clear_low_def)
  with assms(2) phys_of_page [of t m ptr] show ?thesis by auto
qed

lemma first_entry_total:
  assumes len: "length es = PRDT_LENGTH" and B: "0 < B" "B \<le> 0x7000" and top: "buffer + 0x8000 < 2 ^ 64"
    and mapped: "\<forall>i < B. phys_of t m (buffer + i) \<noteq> None"
  shows "\<exists>p1 b1 k1 es1. first_entry t m buffer B es = Some (p1, b1, k1, es1) \<and> fillable t m p1 b1 k1 es1"
proof (cases "low_bits 12 buffer = 0")
  case True
  then show ?thesis using assms by (simp add: first_entry_def fillable_def low_bits_def)
next
  case False
  define off where "off = low_bits 12 buffer"
  define ptr where "ptr = clear_low 12 buffer"
  have off: "0 < off" "off < 0x1000" "buffer = ptr + off" "ptr mod 0x1000 = 0"
    using False by (simp_all add: off_def ptr_def low_bits_def clear_low_def)
  from mapped B(1) obtain b where "phys_of t m buffer = Some b" by force
  from phys_of_page [OF this] obtain a where a: "page_phys t m ptr = Some a" "a mod 0x1000 = 0" "a < 2 ^ 64"
    by (auto simp: ptr_def)
  have add: "add_usize a off = Some (a + off)"
  proof -
    obtain q where q: "a = 0x1000 * q" using a(2) by auto
    with a(3) have "q < 2 ^ 52" by simp
    then have "q \<le> 2 ^ 52 - 1" by simp
    then have "0x1000 * q \<le> 0x1000 * (2 ^ 52 - 1)" by (rule mult_le_mono2)
    with off(2) show ?thesis unfolding q by (simp add: add_usize_def)
  qed
  obtain es' where s: "set_entry 0 (a + off) (0xFFF - off) es = Some es'"
    using set_entry_total [of 0 es "0xFFF - off" "a + off"] len by (fastforce simp: PRDT_LENGTH_def)
  have pt: "add_usize ptr 0x1000 = Some (ptr + 0x1000)" using off(3) top by (simp add: add_usize_def)
  have "first_entry t m buffer B es = Some (ptr + 0x1000, B - (0x1000 - off), 1, es')"
    using off(1) a(1) add s pt
    unfolding first_entry_def off_def [symmetric] ptr_def [symmetric] Let_def by simp
  moreover have "fillable t m (ptr + 0x1000) (B - (0x1000 - off)) 1 es'"
  proof -
    have "phys_of t m (ptr + 0x1000 + i) \<noteq> None" if "i < B - (0x1000 - off)" for i
      using spec [OF mapped, of "0x1000 - off + i"] that off by (simp add: add.assoc)
    with off B top len set_entryD(2) [OF s] show ?thesis by (simp add: fillable_def)
  qed
  ultimately show ?thesis by blast
qed

lemma fill_pages_total:
  assumes "fillable t m ptr b k es"
  shows "\<exists>p2 b2 k2 es2. fill_pages t m ptr b k es = Some (p2, b2, k2, es2) \<and> fillable t m p2 b2 k2 es2 \<and> b2 \<le> 0x1000"
  using assms
proof (induction t m ptr b k es rule: fill_pages.induct)
  case (1 t m ptr b k es)
  show ?case
  proof (cases "b > 0x1000")
    case False
    with "1.prems" show ?thesis by (simp add: fill_pages.simps [of t m ptr b k es])
  next
    case True
    with "1.prems" have f: "ptr mod 0x1000 = 0" "b + 0x1000 * k \<le> 0x7FFF" "ptr + b + 0x1000 < 2 ^ 64"
        "\<forall>i < b. phys_of t m (ptr + i) \<noteq> None" "length es = 8" by (simp_all add: fillable_def PRDT_LENGTH_def)
    then obtain a where a: "page_phys t m ptr = Some a" using aligned_page [of ptr t m] True by force
    have "k < 8" using f(2) True by simp
    then obtain es' where s: "set_entry k a 0xFFF es = Some es'" using set_entry_total [of k es "0xFFF" a] f(5) by auto
    have p: "add_usize ptr 0x1000 = Some (ptr + 0x1000)" using f(3) by (simp add: add_usize_def)
    have "phys_of t m (ptr + 0x1000 + i) \<noteq> None" if "i < b - 0x1000" for i
      using spec [OF f(4), of "0x1000 + i"] that by (simp add: add.assoc)
    moreover have "(ptr + 0x1000) mod 0x1000 = 0" using f(1) by simp
    ultimately have "fillable t m (ptr + 0x1000) (b - 0x1000) (k + 1) es'"
      using f True set_entryD(2) [OF s] by (simp add: fillable_def PRDT_LENGTH_def)
    with "1.IH" [OF True a s p] True a s p show ?thesis by (simp add: fill_pages.simps [of t m ptr b k es])
  qed
qed

lemma last_entry_total:
  assumes "fillable t m ptr b k es" "b \<le> 0x1000"
  shows "\<exists>r. last_entry t m ptr b k es = Some r"
proof (cases "b = 0")
  case False
  with assms have f: "ptr mod 0x1000 = 0" "b + 0x1000 * k \<le> 0x7FFF" "phys_of t m (ptr + 0) \<noteq> None" "length es = 8"
    by (auto simp: fillable_def PRDT_LENGTH_def)
  obtain a where "page_phys t m ptr = Some a" using aligned_page [OF f(1,3)] by blast
  moreover have "k < 8" using f(2) False by simp
  then obtain es' where "set_entry k a (b - 1) es = Some es'"
    using set_entry_total [of k es "b - 1" a] f(4) assms(2) False by fastforce
  ultimately show ?thesis by (simp add: last_entry_def)
qed (simp add: last_entry_def)

lemma fill_prdt_total:
  assumes "length es = PRDT_LENGTH" "0 < n" "n \<le> MAX_SECTORS" "buffer + 0x8000 < 2 ^ 64"
    and "\<forall>i < 512 * n. phys_of t m (buffer + i) \<noteq> None"
  shows "\<exists>k es'. fill_prdt t m buffer n es = Some (k, es')"
proof -
  have "512 * n \<le> 0x7000" using assms(3) by (simp add: MAX_SECTORS_def PRDT_LENGTH_def)
  then obtain p1 b1 k1 es1 where f: "first_entry t m buffer (512 * n) es = Some (p1, b1, k1, es1)"
      and g: "fillable t m p1 b1 k1 es1"
    using first_entry_total [of es "512 * n" buffer t m] assms by auto
  from fill_pages_total [OF g] obtain p2 b2 k2 es2
    where h: "fill_pages t m p1 b1 k1 es1 = Some (p2, b2, k2, es2)" "fillable t m p2 b2 k2 es2" "b2 \<le> 0x1000" by blast
  from last_entry_total [OF h(2,3)] f h(1) show ?thesis by (auto simp: fill_prdt_def)
qed

subsection \<open>Correctness of a read\<close>


text \<open>A controller that is always ready, and two pages of memory whose frames do not follow each other.\<close>

definition ready_io :: "nat hba_io" where
  "ready_io = \<lparr>ports_implemented = (\<lambda>d. (1, d)), hba_read = (\<lambda>_ _ d. (0, d)), hba_write = (\<lambda>_ _ _ d. Suc d),
     hba_write64 = (\<lambda>_ _ _ d. d)\<rparr>"

definition blank_port :: ahci_port where
  "blank_port = \<lparr>hba_port = 0,
     cmd_list = replicate 32 \<lparr>command_fis_length = 0, atapi = False, cmd_write = False, prefetchable = False,
       cmd_reset = False, bist = False, clear_busy = False, cmd_port_multiplier = 0, prdt_length = 0,
       prdb_count = 0, command_table_base_address = 0\<rparr>,
     cmd_tables = replicate 32 \<lparr>command_fis = \<lparr>fis_type = 0, port_multiplier = 0, command_control = False,
       command = 0, feature_low = 0, lba0 = 0, lba1 = 0, lba2 = 0, device_register = 0, lba3 = 0, lba4 = 0,
       lba5 = 0, feature_high = 0, countl = 0, counth = 0, iso_command_completion = 0, fis_control = 0\<rparr>,
       prdt_entry = replicate 8 \<lparr>data_base_address = 0, byte_count = 0, interrupt_on_completion = False\<rparr>\<rparr>\<rparr>"

definition two_pages :: phys where
  "two_pages = \<lparr>tables = (\<lambda>t i. zero_entry\<lparr>present := True, internal_address :=
       (if t = 0x9000 then 0xA else if t = 0xA000 then 0xB else if t = 0xB000 then 0xC
        else if i = 5 then 0x7 else 0xF)\<rparr>), frames = four_frames\<rparr>"

lemma two_pages_phys:
  "page_phys 0x9000 two_pages 0x5000 = Some 0x7000" "page_phys 0x9000 two_pages 0x6000 = Some 0xF000"
proof -
  have pg: "page_new Size4KB 0x5000 = Some 0x5000" "page_new Size4KB 0x6000 = Some 0x6000"
    "page_new Size4KB 0x7000 = Some 0x7000" "page_new Size4KB 0xF000 = Some 0xF000"
    by (auto simp: page_new_Some canonical_def PAGE_SIZE_def)
  have four: "pt_address_of 4 = pt_address_of (Suc (Suc (Suc (Suc 0))))" by (simp add: eval_nat_numeral)
  have "calculate_index (Suc 0) 0x5000 = 5" "calculate_index (Suc 0) 0x6000 = 6"
    by (simp_all add: calculate_index_def shr_def low_bits_def)
  with pg show "page_phys 0x9000 two_pages 0x5000 = Some 0x7000" "page_phys 0x9000 two_pages 0x6000 = Some 0xF000"
    by (simp_all add: page_phys_def four pt_address_of.simps(2) address_of_inner_def two_pages_def zero_entry_def
        get_address_def level_size_def LARGER_PAGES_def rassert_def)
qed

lemma ready_io_answers:
  "find_slot ready_io n d = Some (0, d)" "issue_read ready_io n sl d = Some (Some (), Suc d)"
proof -
  have up: "[0 ..< 32] = 0 # [1 ..< 32]" by (simp add: upt_conv_Cons)
  have "wait_idle ready_io n (Suc k) d = (Suc k, d)" for k by (simp add: ready_io_def)
  from this [of 99999] have w: "wait_idle ready_io n 100000 d = (100000, d)" by simp
  show "find_slot ready_io n d = Some (0, d)"
    by (simp add: find_slot_def find_slot_loop.simps [of 0] up ready_io_def)
  show "issue_read ready_io n sl d = Some (Some (), Suc d)"
    unfolding issue_read_def w by (simp add: wait_command.simps issued_def read_error_def ready_io_def)
qed


end
