(* ===== verification/Elf.thy ===== *)
theory Elf
  imports Bytes Kernel
begin

text \<open>
  The program loader (\<open>kernel/src/elf.rs\<close>, \<open>kernel_userspace/src/elf.rs\<close>) and the address space that
  a new process starts with (\<open>Process::new\<close> in \<open>scheduling/process.rs\<close>).  The bytes of a memory object
  are a function of the offset, zero at first, since the frame allocator clears the frames it hands
  out.  The functions \<open>align_down\<close> and \<open>align_up\<close> of the \<open>x86_64\<close> crate are arguments.  Reading a
  structure beyond the end of the file is undefined in the source and has the value \<open>None\<close>, as has a
  panic.
\<close>

subsection \<open>Headers\<close>

record Elf64Ehdr =
  e_ident :: "u8 list"
  e_type :: nat
  e_machine :: nat
  e_version :: nat
  e_entry :: nat
  e_phoff :: nat
  e_phentsize :: nat
  e_phnum :: nat

record Elf64Phdr =
  p_type :: nat
  p_flags :: nat
  p_offset :: nat
  p_vaddr :: nat
  p_filesz :: nat
  p_memsz :: nat

definition read_ehdr :: "u8 list \<Rightarrow> Elf64Ehdr option" where
  "read_ehdr data = do {
     rassert (64 \<le> length data);
     Some \<lparr>e_ident = take 16 data, e_type = field 16 2 data, e_machine = field 18 2 data,
       e_version = field 20 4 data, e_entry = field 24 8 data, e_phoff = field 32 8 data,
       e_phentsize = field 54 2 data, e_phnum = field 56 2 data\<rparr>
   }"

definition read_phdr :: "u8 list \<Rightarrow> nat \<Rightarrow> Elf64Phdr option" where
  "read_phdr data at = do {
     rassert (at + 56 \<le> length data);
     Some \<lparr>p_type = field at 4 data, p_flags = field (at + 4) 4 data, p_offset = field (at + 8) 8 data,
       p_vaddr = field (at + 16) 8 data, p_filesz = field (at + 32) 8 data, p_memsz = field (at + 40) 8 data\<rparr>
   }"

definition ELFCLASS64 :: u8 where "ELFCLASS64 = 2"
definition ELFDATA2LSB :: u8 where "ELFDATA2LSB = 1"
definition ET_EXEC :: nat where "ET_EXEC = 2"
definition EM_X86_64 :: nat where "EM_X86_64 = 62"
definition PT_LOAD :: nat where "PT_LOAD = 1"
definition ELF_HEADER_SIG :: "u8 list" where
  "ELF_HEADER_SIG = [0x7F, 0x45, 0x4C, 0x46, ELFCLASS64, ELFDATA2LSB]"

datatype LoadElfError = ElfHeaderSigInvalid "u8 list" | EType nat | EMachine nat | ElfVersion nat | InternalError

definition validate_elf_header :: "Elf64Ehdr \<Rightarrow> LoadElfError + unit" where
  "validate_elf_header h =
     (if take 6 (e_ident h) \<noteq> ELF_HEADER_SIG then Inl (ElfHeaderSigInvalid (take 6 (e_ident h)))
      else if e_type h \<noteq> ET_EXEC then Inl (EType (e_type h))
      else if e_machine h \<noteq> EM_X86_64 then Inl (EMachine (e_machine h))
      else if e_version h \<noteq> 1 then Inl (ElfVersion (e_version h))
      else Inr ())"

definition to_mapping_flags :: "nat \<Rightarrow> MemoryMappingFlags" where
  "to_mapping_flags fl = (if odd (fl div 2) then USERSPACE OR WRITEABLE else USERSPACE)"

text \<open>The offsets of the program headers: the end of the range is a product of two \<open>u16\<close>.\<close>

definition header_offsets :: "Elf64Ehdr \<Rightarrow> nat list option" where
  "header_offsets h = do {
     stop \<leftarrow> chk 16 (e_phnum h * e_phentsize h);
     rassert (e_phentsize h \<noteq> 0);
     Some (step_by (e_phentsize h) (e_phoff h) stop)
   }"

subsection \<open>The address space of a new process\<close>

definition APIC_LOCATION :: nat where "APIC_LOCATION = 0xfee00000"

definition share_mapping :: "nat \<Rightarrow> vm \<Rightarrow> vm" where
  "share_mapping r v = v\<lparr>strong := (strong v)(r := strong v r + 1)\<rparr>"

definition map_device :: "nat \<Rightarrow> nat \<Rightarrow> PageMapperManager \<Rightarrow> vm \<Rightarrow> (PageMapperManager \<times> vm) option" where
  "map_device a r g v = do {
     (done, g1, v1) \<leftarrow> insert_mapping_at_set a r WRITEABLE g (share_mapping r v);
     rassert done;
     Some (g1, v1)
   }"

text \<open>
  \<open>Process::new\<close>: the shared tables of the kernel, the page of the local APIC, and the page of the
  timer once that is known.
\<close>

record boot_tables =
  bt_offset_map :: nat
  bt_kernel_data :: nat
  bt_kernel_heap :: nat
  bt_per_cpu :: nat
  bt_apic :: nat
  bt_hpet :: "(nat \<times> nat) option"

definition process_memory :: "boot_tables \<Rightarrow> vm \<Rightarrow> (PageMapperManager \<times> vm) option" where
  "process_memory bt v = do {
     (g, v1) \<leftarrow> mapper_new (bt_offset_map bt) (bt_kernel_data bt) (bt_kernel_heap bt) (bt_per_cpu bt) v;
     (g1, v2) \<leftarrow> map_device APIC_LOCATION (bt_apic bt) g v1;
     (case bt_hpet bt of None \<Rightarrow> Some (g1, v2) | Some (a, r) \<Rightarrow> map_device a r g1 v2)
   }"

subsection \<open>Loading\<close>

record loader =
  ld_kernel :: kernel
  ld_bytes :: "nat \<Rightarrow> nat \<Rightarrow> u8"

text \<open>
  A store to an address of the loading process: a page that is not present is faulted in, and the
  byte goes to the memory object that is mapped there.
\<close>

definition poke :: "pref \<Rightarrow> nat \<Rightarrow> u8 \<Rightarrow> loader \<Rightarrow> loader option" where
  "poke this a b st = do {
     let k = ld_kernel st;
     let g = memory (procs k this);
     vp \<leftarrow> page_containing Size4KB a;
     cur \<leftarrow> pt_address_of 4 1 (page_mapper g) vp (vm_phys (kvm k));
     (ok, v) \<leftarrow> (case cur of Some _ \<Rightarrow> Some (True, kvm k) | None \<Rightarrow> page_fault_handler a g (kvm k));
     rassert ok;
     mp \<leftarrow> find (\<lambda>m. m_start m \<le> a \<and> a < m_end m) (mappings g);
     Some (st\<lparr>ld_kernel := k\<lparr>kvm := v\<rparr>,
       ld_bytes := (ld_bytes st)(fst (snd mp) := (ld_bytes st (fst (snd mp)))(a - m_start mp := b))\<rparr>)
   }"

primrec poke_all :: "pref \<Rightarrow> nat \<Rightarrow> u8 list \<Rightarrow> loader \<Rightarrow> loader option" where
  "poke_all this a [] st = Some st"
| "poke_all this a (b # bs) st = do { st1 \<leftarrow> poke this a b st; poke_all this (Suc a) bs st1 }"

definition set_memory :: "pref \<Rightarrow> PageMapperManager \<Rightarrow> loader \<Rightarrow> loader" where
  "set_memory p g st = st\<lparr>ld_kernel := upd_proc p (\<lambda>x. x\<lparr>memory := g\<rparr>) (ld_kernel st)\<rparr>"

definition set_vm :: "vm \<Rightarrow> loader \<Rightarrow> loader" where
  "set_vm v st = st\<lparr>ld_kernel := (ld_kernel st)\<lparr>kvm := v\<rparr>\<rparr>"

definition new_object :: "nat \<Rightarrow> loader \<Rightarrow> (nat \<times> loader) option" where
  "new_object sz st = do {
     pm \<leftarrow> new_lazy sz;
     let (r, k) = new_mapping pm (ld_kernel st);
     Some (r, st\<lparr>ld_kernel := k, ld_bytes := (ld_bytes st)(r := (\<lambda>_. 0))\<rparr>)
   }"

text \<open>One loadable segment of the file, between the two page boundaries around it.\<close>

definition fill_segment :: "pref \<Rightarrow> nat \<Rightarrow> nat \<Rightarrow> Elf64Phdr \<Rightarrow> u8 list \<Rightarrow> loader \<Rightarrow> loader option" where
  "fill_segment this r sz h data st = do {
     let k = ld_kernel st;
     (base, g) \<leftarrow> insert_mapping r flags_all (memory (procs k this)) (kvm k);
     rassert (p_offset h + p_filesz h \<le> length data);
     dest \<leftarrow> add_usize base (low_bits 12 (p_vaddr h));
     st1 \<leftarrow> poke_all this dest (take (p_filesz h) (drop (p_offset h) data)) (set_memory this g st);
     stop \<leftarrow> add_usize base sz;
     let k1 = ld_kernel st1;
     (res, g1, v1) \<leftarrow> free_mapping (base, stop) (memory (procs k1 this)) (kvm k1);
     rassert (\<not> isl res);
     Some (set_memory this g1 (set_vm v1 st1))
   }"

definition load_segment ::
  "(nat \<Rightarrow> nat \<Rightarrow> nat) \<Rightarrow> (nat \<Rightarrow> nat \<Rightarrow> nat option) \<Rightarrow> pref \<Rightarrow> pref \<Rightarrow> u8 list \<Rightarrow> Elf64Phdr \<Rightarrow> loader \<Rightarrow>
     (LoadElfError option \<times> loader) option" where
  "load_segment align_down align_up this p data h st = do {
     let vstart = align_down (p_vaddr h) 0x1000;
     e \<leftarrow> add_usize (p_vaddr h) (p_memsz h);
     vend \<leftarrow> align_up e 0x1000;
     sz \<leftarrow> sub_usize vend vstart;
     (r, st1) \<leftarrow> new_object sz st;
     let k = ld_kernel st1;
     (done, g) \<leftarrow> insert_mapping_at vstart r (to_mapping_flags (p_flags h)) (memory (procs k p)) (kvm k);
     if \<not> done then Some (Some InternalError, set_vm (drop_mapping r (kvm k)) st1)
     else do {
       st2 \<leftarrow> fill_segment this r sz h data (set_memory p g (set_vm (share_mapping r (kvm k)) st1));
       Some (None, st2)
     }
   }"

primrec load_segments ::
  "(nat \<Rightarrow> nat \<Rightarrow> nat) \<Rightarrow> (nat \<Rightarrow> nat \<Rightarrow> nat option) \<Rightarrow> pref \<Rightarrow> pref \<Rightarrow> u8 list \<Rightarrow> nat list \<Rightarrow> loader \<Rightarrow>
     (LoadElfError option \<times> loader) option" where
  "load_segments align_down align_up this p data [] st = Some (None, st)"
| "load_segments align_down align_up this p data (at # ats) st = do {
     h \<leftarrow> read_phdr data at;
     (err, st1) \<leftarrow> (if p_type h = PT_LOAD then load_segment align_down align_up this p data h st else Some (None, st));
     (case err of Some e \<Rightarrow> Some (Some e, st1)
      | None \<Rightarrow> load_segments align_down align_up this p data ats st1)
   }"

text \<open>The process before its segments: fresh, with the given references of the loading process.\<close>

definition prepare_process ::
  "boot_tables \<Rightarrow> pref \<Rightarrow> u8 list \<Rightarrow> nat list \<Rightarrow> bool \<Rightarrow> loader \<Rightarrow> (pref \<times> loader) option" where
  "prepare_process bt this as refs kern st = do {
     let k = ld_kernel st;
     let p = next_pid k;
     (g, v) \<leftarrow> process_memory bt (kvm k);
     (pr, cs) \<leftarrow> share_refs (map (references (procs k this)) refs)
        (process_new (if kern then KERNEL else USER) as g) (cstore k);
     Some (p, st\<lparr>ld_kernel := k\<lparr>procs := (procs k)(p := pr), next_pid := p + 1, cstore := cs, kvm := v\<rparr>\<rparr>)
   }"

definition start_process :: "pref \<Rightarrow> nat \<Rightarrow> loader \<Rightarrow> loader option" where
  "start_process p entry st = do {
     (r, k) \<leftarrow> new_thread p entry 0 (ld_kernel st);
     t \<leftarrow> r;
     k1 \<leftarrow> on_sched (start_thread t entry 0) (k\<lparr>processes := p # processes k\<rparr>);
     Some (st\<lparr>ld_kernel := k1\<rparr>)
   }"

definition load_elf ::
  "(nat \<Rightarrow> nat \<Rightarrow> nat) \<Rightarrow> (nat \<Rightarrow> nat \<Rightarrow> nat option) \<Rightarrow> boot_tables \<Rightarrow> pref \<Rightarrow> u8 list \<Rightarrow> u8 list \<Rightarrow>
     nat list \<Rightarrow> bool \<Rightarrow> loader \<Rightarrow> ((LoadElfError + pref) \<times> loader) option" where
  "load_elf align_down align_up bt this data as refs kern st = do {
     h \<leftarrow> read_ehdr data;
     (case validate_elf_header h of
        Inl e \<Rightarrow> Some (Inl e, st)
      | Inr _ \<Rightarrow> do {
          (p, st1) \<leftarrow> prepare_process bt this as refs kern st;
          ats \<leftarrow> header_offsets h;
          (err, st2) \<leftarrow> load_segments align_down align_up this p data ats st1;
          (case err of
             Some e \<Rightarrow> Some (Inl e, st2)
           | None \<Rightarrow> do { st3 \<leftarrow> start_process p (e_entry h) st2; Some (Inr p, st3) })
        })
   }"

text \<open>
  A request to the loader service: the file and one reference.  The answer carries a handle of the
  new process or an error; a request with another number of handles has no answer.
\<close>

datatype elf_reply = Ignored | Started nat | Refused LoadElfError

definition serve_elf ::
  "(nat \<Rightarrow> nat \<Rightarrow> nat) \<Rightarrow> (nat \<Rightarrow> nat \<Rightarrow> nat option) \<Rightarrow> boot_tables \<Rightarrow> pref \<Rightarrow> (nat \<Rightarrow> u8 list option) \<Rightarrow>
     u8 list \<Rightarrow> nat list \<Rightarrow> loader \<Rightarrow> (elf_reply \<times> loader) option" where
  "serve_elf align_down align_up bt this read_vec data handles st =
     (if length handles \<noteq> 2 then Some (Ignored, st)
      else do {
        file \<leftarrow> read_vec (handles ! 0);
        (res, st1) \<leftarrow> load_elf align_down align_up bt this file data [handles ! 1] False st;
        (case res of
           Inl e \<Rightarrow> Some (Refused e, st1)
         | Inr p \<Rightarrow> do {
             (i, pr) \<leftarrow> add_value (VProcess p) (procs (ld_kernel st1) this);
             Some (Started i, st1\<lparr>ld_kernel := upd_proc this (\<lambda>_. pr) (ld_kernel st1)\<rparr>)
           })
      })"

subsection \<open>Copying a segment\<close>

abbreviation maps_of :: "pref \<Rightarrow> loader \<Rightarrow> mapped list" where
  "maps_of p st \<equiv> mappings (memory (procs (ld_kernel st) p))"

lemma ordered_find:
  assumes o: "ordered ms" and m: "m \<in> set ms" "m_start m \<le> a" "a < m_end m"
  shows "find (\<lambda>m. m_start m \<le> a \<and> a < m_end m) ms = Some m"
proof -
  from m(1) obtain i where i: "i < length ms" "ms ! i = m" by (auto simp: in_set_conv_nth)
  have "\<not> (m_start (ms ! j) \<le> a \<and> a < m_end (ms ! j))" if "j < i" for j
    using ordered_nth(2) [OF o that i(1)] i(2) m(2) by simp
  with i m show ?thesis unfolding find_Some_iff by (intro exI [of _ i]) simp
qed

text \<open>What stays the same while bytes are copied.\<close>

definition same_maps :: "loader \<Rightarrow> loader \<Rightarrow> bool" where
  "same_maps st st' \<longleftrightarrow> procs (ld_kernel st') = procs (ld_kernel st) \<and>
     next_mapping (ld_kernel st') = next_mapping (ld_kernel st)"

lemma poke_effect:
  assumes "poke this a b st = Some st'" "ordered (maps_of this st)"
    and "((s, e), r, f) \<in> set (maps_of this st)" "s \<le> a" "a < e"
  shows "same_maps st st' \<and> ld_bytes st' = (ld_bytes st)(r := (ld_bytes st r)(a - s := b))"
proof -
  have "find (\<lambda>m. m_start m \<le> a \<and> a < m_end m) (maps_of this st) = Some ((s, e), r, f)"
    by (rule ordered_find [OF assms(2,3)]) (use assms(4,5) in simp_all)
  with assms(1) show ?thesis by (auto simp: poke_def same_maps_def Let_def bind_eq_Some_conv)
qed

lemma poke_all_effect:
  assumes "poke_all this a bs st = Some st'" "ordered (maps_of this st)"
    and "((s, e), r, f) \<in> set (maps_of this st)" "s \<le> a" "a + length bs \<le> e"
  shows "same_maps st st' \<and> (\<forall>q. q \<noteq> r \<longrightarrow> ld_bytes st' q = ld_bytes st q) \<and>
     (\<forall>j. ld_bytes st' r j = (if a \<le> s + j \<and> s + j < a + length bs then bs ! (s + j - a) else ld_bytes st r j))"
  using assms
proof (induction bs arbitrary: a st)
  case Nil
  then show ?case by (auto simp: same_maps_def)
next
  case (Cons b bs)
  from Cons.prems(1) obtain st1 where p: "poke this a b st = Some st1" "poke_all this (Suc a) bs st1 = Some st'"
    by (auto simp: bind_eq_Some_conv)
  have e: "same_maps st st1" "ld_bytes st1 = (ld_bytes st)(r := (ld_bytes st r)(a - s := b))"
    using poke_effect [OF p(1) Cons.prems(2,3)] Cons.prems(4,5) by simp_all
  then have "maps_of this st1 = maps_of this st" by (simp add: same_maps_def)
  with Cons.IH [OF p(2)] Cons.prems have i: "same_maps st1 st'" "\<forall>q. q \<noteq> r \<longrightarrow> ld_bytes st' q = ld_bytes st1 q"
    "\<forall>j. ld_bytes st' r j = (if Suc a \<le> s + j \<and> s + j < Suc a + length bs then bs ! (s + j - Suc a) else ld_bytes st1 r j)"
    by simp_all
  have "ld_bytes st' r j = (if a \<le> s + j \<and> s + j < a + length (b # bs) then (b # bs) ! (s + j - a) else ld_bytes st r j)" for j
    using spec [OF i(3), of j] Cons.prems(4) e(2) by (auto simp: nth_Cons' Suc_diff_le not_less)
  with e i(1,2) show ?case by (auto simp: same_maps_def)
qed

lemma set_insert_at: "set (insert_at i x xs) = insert x (set xs)"
  using set_append [of "take i xs" "drop i xs"] by (simp add: insert_at_def)

lemma remove_inserted:
  assumes "ordered (insert_at i x ms)" "i \<le> length ms" "j < length (insert_at i x ms)"
    and "fst (insert_at i x ms ! j) = fst x"
  shows "take j (insert_at i x ms) @ drop (Suc j) (insert_at i x ms) = ms"
proof -
  have i: "i < length (insert_at i x ms)" "insert_at i x ms ! i = x"
    using assms(2) by (simp_all add: insert_at_def nth_append)
  have "j = i"
  proof (rule ccontr)
    assume "j \<noteq> i"
    then have "j < i \<or> i < j" by auto
    then show False
      using ordered_nth [OF assms(1), of j] ordered_nth [OF assms(1), of i]
        ordered_nth(2) [OF assms(1), of j i] ordered_nth(2) [OF assms(1), of i j] i assms(3,4) by auto
  qed
  then show ?thesis using assms(2) by (simp add: insert_at_def)
qed

lemma free_mapping_removes:
  assumes "free_mapping (a, b) g v = Some (Inr u, g', v')" "ordered (mappings g)" "a < b"
  shows "\<exists>j < length (mappings g). fst (mappings g ! j) = (a, b) \<and>
     mappings g' = take j (mappings g) @ drop (Suc j) (mappings g)"
proof (cases "binary_search_by (\<lambda>m. range_cmp (fst m) (a, b)) (mappings g)")
  case (Inl x)
  with assms(1) show ?thesis by (simp add: free_mapping_def)
next
  case (Inr j)
  from binary_search_by_Ok [OF Inr search_range_sorted [OF assms(2,3)]]
  have "j < length (mappings g)" "fst (mappings g ! j) = (a, b)"
    using range_cmp_Equal [OF assms(2) _ assms(3)] by auto
  with assms(1) Inr show ?thesis by (auto simp: free_mapping_def bind_eq_Some_conv Let_def)
qed

text \<open>Filling the object of a segment: nothing else changes, the address space of the loader included.\<close>

lemma fill_segment_effect:
  assumes f: "fill_segment this r sz h data st = Some st'" and o: "ordered (maps_of this st)"
    and sz: "0 < sz" "pm_size (store (kvm (ld_kernel st)) r) = sz" "low_bits 12 (p_vaddr h) + p_filesz h \<le> sz"
  shows "(\<forall>q. maps_of q st' = maps_of q st) \<and> next_mapping (ld_kernel st') = next_mapping (ld_kernel st) \<and>
     (\<forall>q. q \<noteq> r \<longrightarrow> ld_bytes st' q = ld_bytes st q) \<and>
     (\<forall>j. ld_bytes st' r j =
        (if low_bits 12 (p_vaddr h) \<le> j \<and> j < low_bits 12 (p_vaddr h) + p_filesz h
         then data ! (p_offset h + (j - low_bits 12 (p_vaddr h))) else ld_bytes st r j))"
proof -
  define off where "off = low_bits 12 (p_vaddr h)"
  define bs where "bs = take (p_filesz h) (drop (p_offset h) data)"
  from f obtain base g st1 res g1 v1 where
    im: "insert_mapping r flags_all (memory (procs (ld_kernel st) this)) (kvm (ld_kernel st)) = Some (base, g)"
    and data: "p_offset h + p_filesz h \<le> length data"
    and cp: "poke_all this (base + off) bs (set_memory this g st) = Some st1"
    and fr: "free_mapping (base, base + sz) (memory (procs (ld_kernel st1) this)) (kvm (ld_kernel st1)) = Some (res, g1, v1)"
      "\<not> isl res"
    and st': "st' = set_memory this g1 (set_vm v1 st1)"
    by (auto simp: fill_segment_def Let_def bind_eq_Some_conv off_def bs_def rassert_def add_usize_def split: if_splits)
  from im sz(2) obtain i where gap: "find_gap sz (maps_of this st) = Some i"
    and base: "base = m_end (maps_of this st ! i) + 0x1000"
    and g: "mappings g = insert_at (Suc i) ((base, base + sz), r, flags_all) (maps_of this st)"
    by (auto simp: insert_mapping_def add_usize_def bind_eq_Some_conv split: if_splits)
  obtain u where fr: "free_mapping (base, base + sz) (memory (procs (ld_kernel st1) this)) (kvm (ld_kernel st1)) = Some (Inr u, g1, v1)"
    using fr by (cases res) auto
  have len: "length bs = p_filesz h" using data by (simp add: bs_def)
  have m0: "ld_bytes (set_memory this g st) = ld_bytes st" by (simp add: set_memory_def)
  have m1: "maps_of this (set_memory this g st) = mappings g" by (simp add: set_memory_def upd_proc_def)
  have og: "ordered (mappings g)" using insert_gap_ordered [OF o gap sz(1)] by (simp add: g base)
  have "((base, base + sz), r, flags_all) \<in> set (mappings g)" by (simp add: g set_insert_at)
  from poke_all_effect [OF cp, of base "base + sz" r flags_all] og this sz(3) len
  have e: "same_maps (set_memory this g st) st1" "\<forall>q. q \<noteq> r \<longrightarrow> ld_bytes st1 q = ld_bytes st q"
      "\<forall>j. ld_bytes st1 r j = (if off \<le> j \<and> j < off + p_filesz h then bs ! (j - off) else ld_bytes st r j)"
    by (simp_all add: m1 off_def [symmetric] m0)
  have m2: "maps_of this st1 = mappings g" using e(1) m1 by (simp add: same_maps_def)
  have il: "Suc i \<le> length (maps_of this st)" using find_gap_ok [OF gap] by simp
  from free_mapping_removes [OF fr] m2 og sz(1) obtain j where
    "j < length (mappings g)" "fst (mappings g ! j) = (base, base + sz)" "mappings g1 = take j (mappings g) @ drop (Suc j) (mappings g)"
    by auto
  with remove_inserted [OF og [unfolded g] _ _, of j] il have restored: "mappings g1 = maps_of this st"
    by (simp add: g)
  have "maps_of q st' = maps_of q st" for q
    using e(1) restored by (cases "q = this") (simp_all add: st' set_memory_def set_vm_def upd_proc_def same_maps_def)
  moreover have "bs ! (j - off) = data ! (p_offset h + (j - off))" if "off \<le> j" "j < off + p_filesz h" for j
    using that data by (simp add: bs_def)
  ultimately show ?thesis
    using e restored by (auto simp: st' set_memory_def set_vm_def upd_proc_def same_maps_def off_def [symmetric])
qed

subsection \<open>The image of a program\<close>

text \<open>Segment \<open>h\<close> of the file is in the address space of \<open>p\<close>: its bytes, and zeros around them.\<close>

definition segment_loaded ::
  "(nat \<Rightarrow> nat \<Rightarrow> nat) \<Rightarrow> (nat \<Rightarrow> nat \<Rightarrow> nat option) \<Rightarrow> pref \<Rightarrow> u8 list \<Rightarrow> Elf64Phdr \<Rightarrow> loader \<Rightarrow> bool" where
  "segment_loaded align_down align_up p data h st \<longleftrightarrow>
     (\<exists>vstart vend r. vstart = align_down (p_vaddr h) 0x1000 \<and> align_up (p_vaddr h + p_memsz h) 0x1000 = Some vend \<and>
        r < next_mapping (ld_kernel st) \<and>
        ((vstart, vend), r, to_mapping_flags (p_flags h)) \<in> set (maps_of p st) \<and>
        (\<forall>a. vstart \<le> a \<and> a < vend \<longrightarrow> ld_bytes st r (a - vstart) =
           (if p_vaddr h \<le> a \<and> a < p_vaddr h + p_filesz h then data ! (p_offset h + (a - p_vaddr h)) else 0)))"

text \<open>What the loader relies on: the two functions of the crate, and sizes of a well-formed file.\<close>

definition aligns :: "(nat \<Rightarrow> nat \<Rightarrow> nat) \<Rightarrow> (nat \<Rightarrow> nat \<Rightarrow> nat option) \<Rightarrow> bool" where
  "aligns align_down align_up \<longleftrightarrow>
     (\<forall>a. align_down a 0x1000 = clear_low 12 a) \<and> (\<forall>a b. align_up a 0x1000 = Some b \<longrightarrow> a \<le> b)"

definition sizes_ok :: "Elf64Phdr \<Rightarrow> bool" where
  "sizes_ok h \<longleftrightarrow> 0 < p_memsz h \<and> p_filesz h \<le> p_memsz h"

lemma load_segment_effect:
  assumes l: "load_segment ad au this p data h st = Some (None, st')"
    and o: "ordered (maps_of this st)" and ne: "this \<noteq> p" and al: "aligns ad au" and sz: "sizes_ok h"
  shows "segment_loaded ad au p data h st'" "maps_of this st' = maps_of this st"
    "set (maps_of p st) \<subseteq> set (maps_of p st')" "next_mapping (ld_kernel st) \<le> next_mapping (ld_kernel st')"
    "\<And>q. q < next_mapping (ld_kernel st) \<Longrightarrow> ld_bytes st' q = ld_bytes st q"
proof -
  define vs where "vs = clear_low 12 (p_vaddr h)"
  define off where "off = low_bits 12 (p_vaddr h)"
  define r where "r = next_mapping (ld_kernel st)"
  have va: "p_vaddr h = vs + off" by (simp add: vs_def off_def low_bits_def clear_low_def)
  have ad: "ad (p_vaddr h) 0x1000 = vs" using al by (simp add: aligns_def vs_def)
  from l obtain vend st1 g st2 where up: "au (p_vaddr h + p_memsz h) 0x1000 = Some vend" and le: "vs \<le> vend"
    and new: "new_object (vend - vs) st = Some (r, st1)"
    and ins: "insert_mapping_at vs r (to_mapping_flags (p_flags h)) (memory (procs (ld_kernel st1) p))
        (kvm (ld_kernel st1)) = Some (True, g)"
    and fill: "fill_segment this r (vend - vs) h data
        (set_memory p g (set_vm (share_mapping r (kvm (ld_kernel st1))) st1)) = Some st'"
    by (auto simp: load_segment_def ad new_object_def new_mapping_def r_def add_usize_def sub_usize_def Let_def
        bind_eq_Some_conv split: if_splits)
  define st2 where "st2 = set_memory p g (set_vm (share_mapping r (kvm (ld_kernel st1))) st1)"
  have st1: "procs (ld_kernel st1) = procs (ld_kernel st)" "ld_bytes st1 = (ld_bytes st)(r := (\<lambda>_. 0))"
    "next_mapping (ld_kernel st1) = r + 1" "pm_size (store (kvm (ld_kernel st1)) r) = vend - vs"
    using new by (auto simp: new_object_def new_mapping_def new_lazy_def r_def Let_def bind_eq_Some_conv add_usize_def
        split: if_splits)
  have ve: "p_vaddr h + p_memsz h \<le> vend" using al up by (auto simp: aligns_def)
  have st2: "maps_of this st2 = maps_of this st" "maps_of p st2 = mappings g" "ld_bytes st2 = ld_bytes st1"
    "next_mapping (ld_kernel st2) = r + 1" "pm_size (store (kvm (ld_kernel st2)) r) = vend - vs"
    using ne st1 by (simp_all add: st2_def set_memory_def set_vm_def upd_proc_def share_mapping_def)
  have "stop = vend" if "add_usize vs (vend - vs) = Some stop" for stop
    using that le by (simp add: add_usize_def split: if_splits)
  with ins st1(4) have g: "set (mappings g) = insert ((vs, vend), r, to_mapping_flags (p_flags h)) (set (maps_of p st))"
    by (auto simp: insert_mapping_at_def bind_eq_Some_conv st1(1) set_insert_at split: option.splits)
  have pos: "0 < vend - vs" "off + p_filesz h \<le> vend - vs" using sz ve va by (auto simp: sizes_ok_def)
  note e = fill_segment_effect [OF fill [folded st2_def] _ pos(1) st2(5), folded off_def, OF _ pos(2)]
  from e o st2(1) have e: "\<And>q. maps_of q st' = maps_of q st2" "next_mapping (ld_kernel st') = r + 1"
    "\<And>q. q \<noteq> r \<Longrightarrow> ld_bytes st' q = ld_bytes st2 q"
    "\<And>j. ld_bytes st' r j = (if off \<le> j \<and> j < off + p_filesz h then data ! (p_offset h + (j - off)) else 0)"
    by (simp_all add: st2(3,4) st1(2))
  have "ld_bytes st' r (a - vs) = (if p_vaddr h \<le> a \<and> a < p_vaddr h + p_filesz h then data ! (p_offset h + (a - p_vaddr h)) else 0)"
    if "vs \<le> a" "a < vend" for a
    using e(4) [of "a - vs"] that va by (simp add: le_diff_conv2 less_diff_conv2 add.commute add.left_commute)
  then show "segment_loaded ad au p data h st'"
    unfolding segment_loaded_def ad using up e(1,2) g st2(2) by (intro exI [of _ vs] exI [of _ vend] exI [of _ r]) simp
  show "maps_of this st' = maps_of this st" "set (maps_of p st) \<subseteq> set (maps_of p st')"
    "next_mapping (ld_kernel st) \<le> next_mapping (ld_kernel st')" using e(1,2) st2(1,2) g by (auto simp: r_def)
  show "ld_bytes st' q = ld_bytes st q" if "q < next_mapping (ld_kernel st)" for q
    using e(3) [of q] that by (simp add: st2(3) st1(2) r_def)
qed

lemma segment_stays:
  assumes "segment_loaded ad au p data h st" "set (maps_of p st) \<subseteq> set (maps_of p st')"
    and "next_mapping (ld_kernel st) \<le> next_mapping (ld_kernel st')"
    and "\<And>q. q < next_mapping (ld_kernel st) \<Longrightarrow> ld_bytes st' q = ld_bytes st q"
  shows "segment_loaded ad au p data h st'"
proof -
  from assms(1) obtain vend r where *: "au (p_vaddr h + p_memsz h) 0x1000 = Some vend"
    "r < next_mapping (ld_kernel st)"
    "((ad (p_vaddr h) 0x1000, vend), r, to_mapping_flags (p_flags h)) \<in> set (maps_of p st)"
    "\<forall>a. ad (p_vaddr h) 0x1000 \<le> a \<and> a < vend \<longrightarrow> ld_bytes st r (a - ad (p_vaddr h) 0x1000) =
       (if p_vaddr h \<le> a \<and> a < p_vaddr h + p_filesz h then data ! (p_offset h + (a - p_vaddr h)) else 0)"
    unfolding segment_loaded_def by blast
  show ?thesis
    unfolding segment_loaded_def using * assms(2,3) assms(4) [OF *(2)]
    by (intro exI [of _ "ad (p_vaddr h) 0x1000"] exI [of _ vend] exI [of _ r]) auto
qed

text \<open>The program headers at the given offsets, and those that ask for a segment.\<close>

definition wanted :: "u8 list \<Rightarrow> nat list \<Rightarrow> Elf64Phdr set" where
  "wanted data ats = {h. \<exists>at \<in> set ats. read_phdr data at = Some h \<and> p_type h = PT_LOAD}"

lemma load_segments_effect:
  assumes "load_segments ad au this p data ats st = Some (None, st')"
    and "ordered (maps_of this st)" "this \<noteq> p" "aligns ad au" "\<forall>h \<in> wanted data ats. sizes_ok h"
  shows "(\<forall>h \<in> wanted data ats. segment_loaded ad au p data h st') \<and> maps_of this st' = maps_of this st \<and>
     set (maps_of p st) \<subseteq> set (maps_of p st') \<and> next_mapping (ld_kernel st) \<le> next_mapping (ld_kernel st') \<and>
     (\<forall>q < next_mapping (ld_kernel st). ld_bytes st' q = ld_bytes st q)"
  using assms
proof (induction ats arbitrary: st)
  case Nil
  then show ?case by (simp add: wanted_def)
next
  case (Cons at ats)
  from Cons.prems(1) obtain h st1 where h: "read_phdr data at = Some h"
    and seg: "(if p_type h = PT_LOAD then load_segment ad au this p data h st else Some (None, st)) = Some (None, st1)"
    and rest: "load_segments ad au this p data ats st1 = Some (None, st')"
    by (auto simp: bind_eq_Some_conv split: option.splits)
  have w: "wanted data (at # ats) = (if p_type h = PT_LOAD then insert h (wanted data ats) else wanted data ats)"
    using h by (auto simp: wanted_def)
  have one: "(p_type h = PT_LOAD \<longrightarrow> segment_loaded ad au p data h st1) \<and> maps_of this st1 = maps_of this st \<and>
     set (maps_of p st) \<subseteq> set (maps_of p st1) \<and> next_mapping (ld_kernel st) \<le> next_mapping (ld_kernel st1) \<and>
     (\<forall>q < next_mapping (ld_kernel st). ld_bytes st1 q = ld_bytes st q)"
  proof (cases "p_type h = PT_LOAD")
    case True
    with seg Cons.prems(5) w have l: "load_segment ad au this p data h st = Some (None, st1)" "sizes_ok h" by simp_all
    show ?thesis using load_segment_effect [OF l(1) Cons.prems(2-4) l(2)] by blast
  qed (use seg in simp)
  have ih: "(\<forall>h \<in> wanted data ats. segment_loaded ad au p data h st') \<and> maps_of this st' = maps_of this st1 \<and>
     set (maps_of p st1) \<subseteq> set (maps_of p st') \<and> next_mapping (ld_kernel st1) \<le> next_mapping (ld_kernel st') \<and>
     (\<forall>q < next_mapping (ld_kernel st1). ld_bytes st' q = ld_bytes st1 q)"
    by (rule Cons.IH [OF rest]) (use one Cons.prems w in \<open>auto split: if_splits\<close>)
  have "segment_loaded ad au p data h st'" if "p_type h = PT_LOAD"
    using segment_stays [of ad au p data h st1 st'] one ih that by blast
  with one ih show ?case unfolding w by (auto intro: order_trans)
qed

text \<open>The whole loader: starting the process takes nothing away from its image.\<close>

lemma map_in_grows:
  assumes "map_in p a r f k = Some k'"
  shows "set (mappings (memory (procs k p))) \<subseteq> set (mappings (memory (procs k' p))) \<and> next_mapping k' = next_mapping k"
proof -
  from assms obtain g v where i: "insert_mapping_at_set a r f (memory (procs k p)) (kvm k) = Some (True, g, v)"
      and k': "k' = upd_proc p (\<lambda>x. x\<lparr>memory := g\<rparr>) (k\<lparr>kvm := v\<rparr>)"
    by (auto simp: map_in_def bind_eq_Some_conv rassert_def split: if_splits)
  from i have "set (mappings (memory (procs k p))) \<subseteq> set (mappings g)"
    by (auto simp: insert_mapping_at_set_def bind_eq_Some_conv set_insert_at split: option.splits)
  then show ?thesis by (simp add: k' upd_proc_def)
qed

lemma new_mapping_keeps:
  "new_mapping pm k = (r, k') \<Longrightarrow> procs k' = procs k \<and> next_mapping k \<le> next_mapping k'"
  "filled_mapping sz k = Some (r, k') \<Longrightarrow> procs k' = procs k \<and> next_mapping k \<le> next_mapping k'"
  by (auto simp: new_mapping_def filled_mapping_def Let_def bind_eq_Some_conv)

lemma enter_threads_keeps:
  "enter_threads p tid sb k = Some (Some t, k') \<Longrightarrow>
     mappings (memory (procs k' p)) = mappings (memory (procs k p)) \<and> next_mapping k' = next_mapping k"
  by (auto simp: enter_threads_def Let_def upd_proc_def bind_eq_Some_conv split: if_splits)

lemma new_thread_grows:
  assumes "new_thread p e a k = Some (Some t, k')"
  shows "set (mappings (memory (procs k p))) \<subseteq> set (mappings (memory (procs k' p))) \<and> next_mapping k \<le> next_mapping k'"
proof -
  define k1 where "k1 = upd_proc p (\<lambda>_. snd (get_next_id (procs k p))) k"
  from assms obtain sb stack k2 k3 kb ks k4 v k5 x where
    s1: "(case privilege (snd (get_next_id (procs k p))) of KERNEL \<Rightarrow> filled_mapping STACK_SIZE k1
         | USER \<Rightarrow> map_option (\<lambda>pm. new_mapping pm k1) (new_lazy STACK_SIZE)) = Some (stack, k2)"
    and s2: "map_in p sb stack flags_all k2 = Some k3" and s3: "filled_mapping KSTACK_SIZE k3 = Some (ks, k4)"
    and s4: "map_in p kb ks WRITEABLE (k4\<lparr>kvm := v\<rparr>) = Some k5"
    and s5: "enter_threads p (fst (get_next_id (procs k p))) sb k5 = Some (Some t, k')"
    unfolding new_thread_def split_beta Let_def k1_def [symmetric] bind_eq_Some_conv by auto
  have k1: "mappings (memory (procs k1 p)) = mappings (memory (procs k p))" "next_mapping k1 = next_mapping k"
    by (simp_all add: k1_def upd_proc_def get_next_id_def)
  have "procs k2 = procs k1 \<and> next_mapping k1 \<le> next_mapping k2"
    using s1 new_mapping_keeps by (auto split: ProcessPrivilige.splits)
  with k1 map_in_grows [OF s2] new_mapping_keeps(2) [OF s3] map_in_grows [OF s4] enter_threads_keeps [OF s5]
  show ?thesis by auto
qed

lemma start_process_keeps:
  assumes "start_process p e st = Some st'"
  shows "set (maps_of p st) \<subseteq> set (maps_of p st')" "next_mapping (ld_kernel st) \<le> next_mapping (ld_kernel st')"
    "ld_bytes st' = ld_bytes st"
proof -
  from assms obtain t k s where n: "new_thread p e 0 (ld_kernel st) = Some (Some t, k)"
      and st': "st' = st\<lparr>ld_kernel := k\<lparr>processes := p # processes k, ksch := s\<rparr>\<rparr>"
    by (auto simp: start_process_def on_sched_def bind_eq_Some_conv)
  from new_thread_grows [OF n] show "set (maps_of p st) \<subseteq> set (maps_of p st')"
    "next_mapping (ld_kernel st) \<le> next_mapping (ld_kernel st')" "ld_bytes st' = ld_bytes st"
    by (simp_all add: st')
qed

lemma load_elf_image:
  assumes l: "load_elf ad au bt this data as refs kern st = Some (Inr p, st')"
    and h: "read_ehdr data = Some eh" "header_offsets eh = Some ats"
    and o: "ordered (maps_of this st)" "this < next_pid (ld_kernel st)" and al: "aligns ad au"
    and ok: "\<forall>h \<in> wanted data ats. sizes_ok h"
  shows "validate_elf_header eh = Inr () \<and> (\<forall>h \<in> wanted data ats. segment_loaded ad au p data h st')"
proof -
  from l h obtain st1 st2 where v: "validate_elf_header eh = Inr ()"
    and p: "prepare_process bt this as refs kern st = Some (p, st1)"
    and s: "load_segments ad au this p data ats st1 = Some (None, st2)" and t: "start_process p (e_entry eh) st2 = Some st'"
    by (auto simp: load_elf_def bind_eq_Some_conv split: sum.splits option.splits)
  from p o(2) have ne: "this \<noteq> p" and "maps_of this st1 = maps_of this st"
    by (auto simp: prepare_process_def bind_eq_Some_conv Let_def)
  then have "\<forall>h \<in> wanted data ats. segment_loaded ad au p data h st2"
    using load_segments_effect [OF s _ ne al ok] o(1) by simp
  with v show ?thesis
    using segment_stays [of ad au p data _ st2 st'] start_process_keeps [OF t] by simp
qed

text \<open>
  With the usual sizes the loop over the headers leaves out the last one: the end of the range is
  the length of the table, not its end in the file.
\<close>

lemma last_header_skipped:
  assumes "e_phoff h = 64" "e_phentsize h = 56" "e_phnum h = Suc n" "n < 1000"
  shows "header_offsets h = Some (map (\<lambda>i. 64 + i * 56) [0 ..< n])"
proof -
  have "(55 + (n * 56 - 8)) div 56 = n" by (cases n) auto
  then show ?thesis
    using assms by (simp add: header_offsets_def chk_def rassert_def step_by_def mult.commute)
qed


text \<open>A process that loads one segment of one byte, and the functions of the crate as documented.\<close>

definition down_to :: "nat \<Rightarrow> nat \<Rightarrow> nat" where
  "down_to a n = a div n * n"

definition up_to :: "nat \<Rightarrow> nat \<Rightarrow> nat option" where
  "up_to a n = (if (a + n - 1) div n * n < 2 ^ 64 then Some ((a + n - 1) div n * n) else None)"

definition small_file :: "u8 list" where
  "small_file = to_le 4 1 @ to_le 4 7 @ to_le 8 56 @ to_le 8 0x600123 @ to_le 8 0 @ to_le 8 1 @ to_le 8 2 @
     to_le 8 0x1000 @ [0xAB]"

definition small_loader :: loader where
  "small_loader = \<lparr>ld_kernel = \<lparr>ksch = sched_init, t_proc = (\<lambda>_. 0), t_tid = (\<lambda>_. 0), next_tref = 1,
     procs = (\<lambda>p. process_new USER [] (if p = 0 then sample_space else \<lparr>page_mapper = 0xA000, mappings = []\<rparr>)),
     processes = [0], next_pid = 2,
     cstore = \<lparr>chans = (\<lambda>_. channel_default), chan_peer = (\<lambda>_. 0), chan_refs = (\<lambda>_. 0), next_cref = 0\<rparr>,
     ports = (\<lambda>_. port_new), next_port = 0, ints = (\<lambda>_. interrupt_new), next_int = 0, kvm = sample_vm,
     next_mapping = 2\<rparr>, ld_bytes = (\<lambda>_ _. 0xFF)\<rparr>"

lemma small_aligns: "aligns down_to up_to"
proof -
  have "a \<le> (a + 0xFFF) div 0x1000 * 0x1000" for a :: nat
    using div_mult_mod_eq [of "a + 0xFFF" "0x1000"] mod_less_divisor [of "0x1000" "a + 0xFFF"] by linarith
  moreover have "a div 0x1000 * 0x1000 = a - a mod 0x1000" for a :: nat
    using div_mult_mod_eq [of a "0x1000"] by linarith
  ultimately show ?thesis by (auto simp: aligns_def down_to_def up_to_def clear_low_def split: if_splits)
qed

lemma small_header:
  "read_phdr small_file 0 = Some \<lparr>p_type = 1, p_flags = 7, p_offset = 56, p_vaddr = 0x600123, p_filesz = 1, p_memsz = 2\<rparr>"
  "small_file ! 56 = 0xAB" "length small_file = 57"
proof -
  show len: "length small_file = 57" by (simp add: small_file_def)
  show "small_file ! 56 = 0xAB" by (simp add: small_file_def nth_append del: to_le.simps)
  show "read_phdr small_file 0 = Some \<lparr>p_type = 1, p_flags = 7, p_offset = 56, p_vaddr = 0x600123, p_filesz = 1, p_memsz = 2\<rparr>"
    using len by (simp add: read_phdr_def rassert_def)
      (simp add: small_file_def field_first field_skip field_to_le le_bytes_to_le del: to_le.simps)
qed

lemma small_fault:
  assumes g: "g = \<lparr>page_mapper = 0x9000, mappings = [((0x400000, 0x402000), 0, 3), ((0x403000, 0x404000), 2, flags_all),
      ((0x500000, 0x501000), 1, 1)]\<rparr>"
    and v: "v = sample_vm\<lparr>store := (store sample_vm)(2 := \<lparr>pm_size = 0x1000, pm_mapping = LazyMapping [None]\<rparr>), strong := sg\<rparr>"
  shows "\<exists>v' T'. page_fault_handler 0x403123 g v = Some (True, v') \<and> pt_wf (vm_phys v') 4 0x9000 T' \<and>
     pt_address_of 4 1 0x9000 0x403000 (vm_phys v') \<noteq> None"
proof -
  have cl: "clear_low 12 0x403123 = 0x403000" by (simp add: clear_low_def)
  have pg: "page_new Size4KB 0x403000 = Some 0x403000" by (simp add: page_new_Some canonical_def PAGE_SIZE_def)
  have none: "space 0x9000 small_machine w = None" for w by (simp add: space_def small_machine_empty)
  have "case find (\<lambda>m. m_start m \<le> 0x403123 \<and> 0x403123 < m_end m) (mappings g) of
     None \<Rightarrow> page_fault_handler 0x403123 g v = Some (False, v)
   | Some m \<Rightarrow> \<exists>p v' T'. page_fault_handler 0x403123 g v = Some (True, v') \<and>
       map_option fst (fault_page (fst (snd m)) (0x403123 - m_start m) v) = Some p \<and>
       pt_wf (vm_phys v') 4 (page_mapper g) T' \<and>
       agree (space (page_mapper g) (vm_phys v'))
         (case space (page_mapper g) (vm_phys v) (clear_low 12 0x403123) of
            None \<Rightarrow> (space (page_mapper g) (vm_phys v))(clear_low 12 0x403123 := Some p)
          | Some _ \<Rightarrow> space (page_mapper g) (vm_phys v))"
    by (rule page_fault_ok [of _ _ "{0x9000}"])
       (auto simp: g v ordered_def sample_vm_def small_machine_wf small_machine_empty small_machine_free object_ok_def)
  moreover have "find (\<lambda>m. m_start m \<le> 0x403123 \<and> 0x403123 < m_end m) (mappings g) = Some ((0x403000, 0x404000), 2, flags_all)"
    "page_mapper g = 0x9000" "vm_phys v = small_machine" by (simp_all add: g v sample_vm_def)
  ultimately obtain p v' T' where f: "page_fault_handler 0x403123 g v = Some (True, v')" "pt_wf (vm_phys v') 4 0x9000 T'"
      "agree (space 0x9000 (vm_phys v')) ((space 0x9000 small_machine)(0x403000 := Some p))"
    by (simp add: cl none) blast
  then have "space 0x9000 (vm_phys v') 0x403000 = Some p" using pg by simp
  then have "pt_address_of 4 1 0x9000 0x403000 (vm_phys v') \<noteq> None" by (auto simp: space_def split: option.splits)
  with f(1,2) show ?thesis by blast
qed


end
