(* ===== verification/Boot.thy ===== *)
theory Boot
  imports Elf
begin

text \<open>
  Booting: the boot loader (\<open>bootloader/src/\<close>), which maps and copies the kernel image, and the tables
  that the kernel builds for itself (\<open>kernel/src/paging/offset_map.rs\<close>).  The page allocator of the
  firmware is an argument: what it answers to a call for a number of pages, by the number of calls
  before it.  The memory that the boot loader writes is a function of the virtual address.
\<close>

subsection \<open>Page tables of the boot loader\<close>

record PageMapIndexer =
  pdp_i :: nat
  pd_i :: nat
  pt_i :: nat
  p_i :: nat

definition page_map_indexer :: "nat \<Rightarrow> PageMapIndexer" where
  "page_map_indexer v =
     (let v1 = shr 12 v; v2 = shr 9 v1; v3 = shr 9 v2; v4 = shr 9 v3
      in \<lparr>pdp_i = low_bits 9 v4, pd_i = low_bits 9 v3, pt_i = low_bits 9 v2, p_i = low_bits 9 v1\<rparr>)"

record boot =
  b_tables :: "nat \<Rightarrow> nat \<Rightarrow> PageDirectoryEntry"
  b_mem :: "nat \<Rightarrow> u8"
  b_calls :: nat

type_synonym firmware = "nat \<Rightarrow> nat \<Rightarrow> nat option"

definition allocate_boot_pages :: "firmware \<Rightarrow> nat \<Rightarrow> boot \<Rightarrow> (nat \<times> boot) option" where
  "allocate_boot_pages fw n b = do {
     p \<leftarrow> fw n (b_calls b);
     Some (p, b\<lparr>b_calls := b_calls b + 1\<rparr>)
   }"

definition boot_entry :: "nat \<Rightarrow> nat \<Rightarrow> PageDirectoryEntry \<Rightarrow> boot \<Rightarrow> boot" where
  "boot_entry t i e b = b\<lparr>b_tables := (b_tables b)(t := (b_tables b t)(i := e))\<rparr>"

definition get_or_create_table :: "firmware \<Rightarrow> nat \<Rightarrow> nat \<Rightarrow> boot \<Rightarrow> (nat \<times> boot) option" where
  "get_or_create_table fw t i b =
     (if present (b_tables b t i) then Some (get_address (b_tables b t i), b)
      else do {
        (new_page, b1) \<leftarrow> allocate_boot_pages fw 1 b;
        let b2 = b1\<lparr>b_tables := (b_tables b1)(new_page := (\<lambda>_. zero_entry))\<rparr>;
        e \<leftarrow> set_address new_page (b_tables b2 t i);
        Some (new_page, boot_entry t i (e\<lparr>present := True, read_write := True\<rparr>) b2)
      })"

definition map_memory :: "firmware \<Rightarrow> nat \<Rightarrow> nat \<Rightarrow> nat \<Rightarrow> bool \<Rightarrow> boot \<Rightarrow> boot option" where
  "map_memory fw lvl4 virtual physical writeable b =
     (let ix = page_map_indexer virtual in do {
        (pdp, b1) \<leftarrow> get_or_create_table fw lvl4 (pdp_i ix) b;
        (pd, b2) \<leftarrow> get_or_create_table fw pdp (pd_i ix) b1;
        (pt, b3) \<leftarrow> get_or_create_table fw pd (pt_i ix) b2;
        e \<leftarrow> set_address physical ((b_tables b3 pt (p_i ix))\<lparr>present := True\<rparr>);
        Some (boot_entry pt (p_i ix) (e\<lparr>read_write := writeable\<rparr>) b3)
      })"

definition get_table :: "PageDirectoryEntry \<Rightarrow> nat option" where
  "get_table e = (if present e then Some (get_address e) else None)"

text \<open>The three errors are messages in the source.\<close>

datatype walk_error = Couldnt_read_pdp | Couldnt_read_pd | Couldnt_read_pt

definition get_phys_addr :: "nat \<Rightarrow> nat \<Rightarrow> boot \<Rightarrow> walk_error + nat" where
  "get_phys_addr lvl4 virtual b =
     (let ix = page_map_indexer virtual in
      case get_table (b_tables b lvl4 (pdp_i ix)) of None \<Rightarrow> Inl Couldnt_read_pdp
      | Some pdp \<Rightarrow> (case get_table (b_tables b pdp (pd_i ix)) of None \<Rightarrow> Inl Couldnt_read_pd
        | Some pd \<Rightarrow> (case get_table (b_tables b pd (pt_i ix)) of None \<Rightarrow> Inl Couldnt_read_pt
          | Some pt \<Rightarrow> Inr (get_address (b_tables b pt (p_i ix))))))"

text \<open>A copy of the table of the firmware that keeps its first entry only.\<close>

definition clone_pml4 :: "firmware \<Rightarrow> nat \<Rightarrow> boot \<Rightarrow> (nat \<times> boot) option" where
  "clone_pml4 fw lvl4 b = do {
     (new_page, b1) \<leftarrow> allocate_boot_pages fw 1 b;
     Some (new_page, b1\<lparr>b_tables := (b_tables b1)(new_page := (\<lambda>_. zero_entry)(0 := b_tables b1 lvl4 0))\<rparr>)
   }"

subsection \<open>Loading the kernel\<close>

primrec kernel_extent :: "u8 list \<Rightarrow> nat list \<Rightarrow> nat \<Rightarrow> nat \<Rightarrow> (nat \<times> nat) option" where
  "kernel_extent data [] lo hi = Some (lo, hi)"
| "kernel_extent data (at # ats) lo hi = do {
     h \<leftarrow> read_phdr data at;
     e \<leftarrow> add_usize (p_vaddr h) (p_memsz h);
     kernel_extent data ats (min lo (p_vaddr h)) (max hi e)
   }"

primrec map_kernel_pages :: "firmware \<Rightarrow> nat \<Rightarrow> nat \<Rightarrow> nat \<Rightarrow> nat list \<Rightarrow> boot \<Rightarrow> boot option" where
  "map_kernel_pages fw lvl4 mem_start page [] b = Some b"
| "map_kernel_pages fw lvl4 mem_start page (p # ps) b = do {
     v \<leftarrow> add_usize mem_start (0x1000 * p);
     q \<leftarrow> add_usize page (0x1000 * p);
     b1 \<leftarrow> map_memory fw lvl4 v q True b;
     map_kernel_pages fw lvl4 mem_start page ps b1
   }"

definition write_mem :: "nat \<Rightarrow> u8 list \<Rightarrow> boot \<Rightarrow> boot" where
  "write_mem a bs b =
     b\<lparr>b_mem := (\<lambda>x. if a \<le> x \<and> x < a + length bs then bs ! (x - a) else b_mem b x)\<rparr>"

primrec copy_segments :: "u8 list \<Rightarrow> nat list \<Rightarrow> boot \<Rightarrow> boot option" where
  "copy_segments data [] b = Some b"
| "copy_segments data (at # ats) b = do {
     h \<leftarrow> read_phdr data at;
     b1 \<leftarrow> (if p_type h = PT_LOAD then do {
         rassert (p_offset h + p_filesz h \<le> length data);
         Some (write_mem (p_vaddr h) (take (p_filesz h) (drop (p_offset h) data)) b)
       } else Some b);
     copy_segments data ats b1
   }"

record BootInfo =
  kernel_start :: nat
  kernel_pages :: nat

definition load_kernel :: "firmware \<Rightarrow> nat \<Rightarrow> u8 list \<Rightarrow> boot \<Rightarrow> (nat \<times> BootInfo \<times> boot) option" where
  "load_kernel fw lvl4 data b = do {
     h \<leftarrow> read_ehdr data;
     rassert (take 6 (e_ident h) = ELF_HEADER_SIG \<and> e_type h = ET_EXEC \<and> e_machine h = EM_X86_64 \<and> e_version h = 1);
     ats \<leftarrow> header_offsets h;
     (lo, hi) \<leftarrow> kernel_extent data ats (2 ^ 64 - 1) 0;
     let mem_start = lo div 0x1000 * 0x1000;
     sz \<leftarrow> sub_usize hi lo;
     let pages = sz div 4096 + 1;
     (page, b1) \<leftarrow> allocate_boot_pages fw pages b;
     b2 \<leftarrow> map_kernel_pages fw lvl4 mem_start page [0 ..< pages] b1;
     b3 \<leftarrow> copy_segments data ats (write_mem mem_start (replicate sz 0) b2);
     Some (e_entry h, \<lparr>kernel_start = page, kernel_pages = pages\<rparr>, b3)
   }"

subsection \<open>The tables of the kernel\<close>

primrec map_offset_pages :: "nat \<Rightarrow> nat \<Rightarrow> page list \<Rightarrow> phys \<Rightarrow> phys option" where
  "map_offset_pages target t [] m = Some m"
| "map_offset_pages target t (p # ps) m = do {
     a \<leftarrow> add_usize p PhysMapOffset;
     v \<leftarrow> page_new (level_size target) a;
     (r, m1) \<leftarrow> pt_map 3 target t v p WRITEABLE m;
     rassert (\<not> isl r);
     map_offset_pages target t ps m1
   }"

definition map_offset_range :: "nat \<Rightarrow> nat \<Rightarrow> PageRange \<Rightarrow> phys \<Rightarrow> phys option" where
  "map_offset_range target t r m = do {
     ps \<leftarrow> page_range_pages (level_size target) r;
     map_offset_pages target t ps m
   }"

text \<open>The check at the start multiplies the pages by 1000, in decimal.\<close>

primrec create_offset_map :: "nat \<Rightarrow> MemoryDescriptor list \<Rightarrow> phys \<Rightarrow> phys option" where
  "create_offset_map t [] m = Some m"
| "create_offset_map t (r # rs) m = do {
     len \<leftarrow> mul_usize (page_count r) 1000;
     e \<leftarrow> add_usize (phys_start r) len;
     rassert (e \<le> EndPhysMapOffset - PhysMapOffset);
     bytes \<leftarrow> mul_usize (page_count r) 0x1000;
     stop \<leftarrow> add_usize (phys_start r) bytes;
     c \<leftarrow> get_chunked_page_range (max (phys_start r) 0x1000) stop;
     m1 \<leftarrow> map_offset_range 1 t (s4kb c) m;
     m2 \<leftarrow> map_offset_range 1 t (e4kb c) m1;
     m3 \<leftarrow> map_offset_range 2 t (s2mb c) m2;
     m4 \<leftarrow> map_offset_range 2 t (e2mb c) m3;
     m5 \<leftarrow> map_offset_range 3 t (gb c) m4;
     create_offset_map t rs m5
   }"

primrec identity_map_all :: "nat \<Rightarrow> nat list \<Rightarrow> phys \<Rightarrow> phys option" where
  "identity_map_all t [] m = Some m"
| "identity_map_all t (a # as) m = do {
     p \<leftarrow> page_new Size4KB a;
     (r, m1) \<leftarrow> identity_map 1 t p WRITEABLE m;
     rassert (\<not> isl r);
     identity_map_all t as m1
   }"

definition map_gop :: "nat \<Rightarrow> nat \<Rightarrow> nat \<Rightarrow> phys \<Rightarrow> phys option" where
  "map_gop t fb_base buffer_size m = do {
     fb_size \<leftarrow> add_usize fb_base buffer_size;
     stop \<leftarrow> add_usize fb_size 0xFFF;
     identity_map_all t (step_by 0x1000 fb_base stop) m
   }"

definition get_gop_range :: "nat \<Rightarrow> nat \<Rightarrow> (nat \<times> PageMapping) option" where
  "get_gop_range fb_ptr buffer_size = do {
     let fb_base = clear_low 12 fb_ptr;
     a \<leftarrow> add_usize fb_base buffer_size;
     e \<leftarrow> add_usize a 0xFFF;
     pm \<leftarrow> new_mmap fb_base (clear_low 12 e - fb_base);
     Some (fb_base, pm)
   }"

primrec map_kernel_frames :: "nat \<Rightarrow> nat \<Rightarrow> nat list \<Rightarrow> phys \<Rightarrow> phys option" where
  "map_kernel_frames t start [] m = Some m"
| "map_kernel_frames t start (i # is) m = do {
     va \<leftarrow> add_usize KernelStart i;
     v \<leftarrow> page_new Size4KB va;
     pa \<leftarrow> add_usize start i;
     p \<leftarrow> page_new Size4KB pa;
     (r, m1) \<leftarrow> pt_map 3 1 t v p WRITEABLE m;
     rassert (\<not> isl r);
     map_kernel_frames t start is m1
   }"

definition create_kernel_map :: "nat \<Rightarrow> nat \<Rightarrow> BootInfo \<Rightarrow> phys \<Rightarrow> phys option" where
  "create_kernel_map t kern_base bi m = do {
     rassert (kern_base = KernelStart);
     stop \<leftarrow> mul_usize (kernel_pages bi) 0x1000;
     map_kernel_frames t (kernel_start bi) (step_by 0x1000 0 stop) m
   }"

subsection \<open>Correctness\<close>

text \<open>The boot loader and the kernel index their tables in the same way.\<close>

lemma page_map_indexer_levels:
  "page_map_indexer v = \<lparr>pdp_i = calculate_index 4 v, pd_i = calculate_index 3 v, pt_i = calculate_index 2 v,
     p_i = calculate_index 1 v\<rparr>"
  by (simp add: page_map_indexer_def calculate_index_def shr_def div_mult2_eq [symmetric])

text \<open>The range of addresses that the headers span.\<close>

lemma kernel_extent_bounds:
  "kernel_extent data ats lo0 hi0 = Some (lo, hi) \<Longrightarrow> lo \<le> lo0 \<and> hi0 \<le> hi \<and>
     (\<forall>at \<in> set ats. \<forall>h. read_phdr data at = Some h \<longrightarrow> lo \<le> p_vaddr h \<and> p_vaddr h + p_memsz h \<le> hi)"
proof (induction ats arbitrary: lo0 hi0)
  case (Cons at ats)
  then obtain h where h: "read_phdr data at = Some h"
      and r: "kernel_extent data ats (min lo0 (p_vaddr h)) (max hi0 (p_vaddr h + p_memsz h)) = Some (lo, hi)"
    by (auto simp: bind_eq_Some_conv add_usize_def split: if_splits)
  from Cons.IH [OF r] h show ?case by auto
qed simp

text \<open>When the lowest address is on a page boundary the mapped pages hold the whole image.\<close>

lemma kernel_pages_enough:
  assumes "lo \<le> (a :: nat)" "a < hi" "0x1000 dvd lo"
  shows "(a - lo div 0x1000 * 0x1000) div 0x1000 < (hi - lo) div 4096 + 1"
proof -
  have "lo div 0x1000 * 0x1000 = lo" using assms(3) by simp
  moreover have "(a - lo) div 4096 \<le> (hi - lo) div 4096" by (rule div_le_mono) (use assms(2) in simp)
  ultimately show ?thesis by simp
qed

text \<open>When it is not, a page at the end is missing: an image of two bytes around a page boundary.\<close>

lemma kernel_pages_missing:
  "(0x2000 - 0x1FFF div 0x1000 * 0x1000) div 0x1000 \<ge> (0x2001 - 0x1FFF :: nat) div 4096 + 1"
  by simp

definition separate :: "u8 list \<Rightarrow> nat list \<Rightarrow> bool" where
  "separate data ats \<longleftrightarrow>
     (\<forall>i j h g. i < j \<and> j < length ats \<and> read_phdr data (ats ! i) = Some h \<and> read_phdr data (ats ! j) = Some g \<and>
        p_type h = PT_LOAD \<and> p_type g = PT_LOAD \<longrightarrow>
        p_vaddr h + p_memsz h \<le> p_vaddr g \<or> p_vaddr g + p_memsz g \<le> p_vaddr h)"

lemma copy_segments_step:
  assumes "copy_segments data (at # ats) b = Some b'"
  shows "\<exists>g b1. read_phdr data at = Some g \<and> copy_segments data ats b1 = Some b' \<and>
     (if p_type g = PT_LOAD then p_offset g + p_filesz g \<le> length data \<and>
        b1 = write_mem (p_vaddr g) (take (p_filesz g) (drop (p_offset g) data)) b else b1 = b)"
  using assms by (auto simp: bind_eq_Some_conv rassert_def split: if_splits)

lemma copy_outside:
  assumes "copy_segments data ats b = Some b'"
    and "\<And>at h. at \<in> set ats \<Longrightarrow> read_phdr data at = Some h \<Longrightarrow> p_type h = PT_LOAD \<Longrightarrow>
       a < p_vaddr h \<or> p_vaddr h + p_filesz h \<le> a"
  shows "b_mem b' a = b_mem b a"
  using assms
proof (induction ats arbitrary: b)
  case (Cons at ats)
  from copy_segments_step [OF Cons.prems(1)] obtain h b1 where h: "read_phdr data at = Some h"
      and r: "copy_segments data ats b1 = Some b'"
      and b1: "if p_type h = PT_LOAD then p_offset h + p_filesz h \<le> length data \<and>
         b1 = write_mem (p_vaddr h) (take (p_filesz h) (drop (p_offset h) data)) b else b1 = b" by blast
  have "b_mem b1 a = b_mem b a"
    using b1 Cons.prems(2) [of at h] h by (auto simp: write_mem_def split: if_splits)
  moreover have "b_mem b' a = b_mem b1 a" by (rule Cons.IH [OF r]) (use Cons.prems(2) in auto)
  ultimately show ?case by simp
qed simp

lemma copy_segments_image:
  assumes "copy_segments data ats b = Some b'" "separate data ats" "\<forall>h \<in> wanted data ats. sizes_ok h"
    and "h \<in> wanted data ats" "p_vaddr h \<le> a" "a < p_vaddr h + p_memsz h"
  shows "b_mem b' a = (if a < p_vaddr h + p_filesz h then data ! (p_offset h + (a - p_vaddr h)) else b_mem b a)"
  using assms
proof (induction ats arbitrary: b)
  case Nil
  then show ?case by (simp add: wanted_def)
next
  case (Cons at ats)
  from copy_segments_step [OF Cons.prems(1)] obtain g b1 where g: "read_phdr data at = Some g" and r: "copy_segments data ats b1 = Some b'"
      and b1: "if p_type g = PT_LOAD then p_offset g + p_filesz g \<le> length data \<and>
         b1 = write_mem (p_vaddr g) (take (p_filesz g) (drop (p_offset g) data)) b else b1 = b" by blast
  have sep: "separate data ats" using Cons.prems(2) unfolding separate_def
    by (metis Suc_less_eq length_Cons nth_Cons_Suc)
  have apart: "p_vaddr g + p_memsz g \<le> p_vaddr f \<or> p_vaddr f + p_memsz f \<le> p_vaddr g"
    if "f \<in> wanted data ats" "p_type g = PT_LOAD" for f
  proof -
    from that(1) obtain j where j: "j < length ats" "read_phdr data (ats ! j) = Some f" "p_type f = PT_LOAD"
      by (auto simp: wanted_def in_set_conv_nth)
    have "0 < Suc j \<and> Suc j < length (at # ats) \<and> read_phdr data ((at # ats) ! 0) = Some g \<and>
        read_phdr data ((at # ats) ! Suc j) = Some f \<and> p_type g = PT_LOAD \<and> p_type f = PT_LOAD"
      using j g that(2) by simp
    then show ?thesis using Cons.prems(2) unfolding separate_def by blast
  qed
  have w: "wanted data (at # ats) = (if p_type g = PT_LOAD then insert g (wanted data ats) else wanted data ats)"
    using g by (auto simp: wanted_def)
  have ok: "\<forall>h \<in> wanted data ats. sizes_ok h" using Cons.prems(3) w by (auto split: if_splits)
  show ?case
  proof (cases "h \<in> wanted data ats")
    case True
    from Cons.IH [OF r sep ok True Cons.prems(5,6)] have
      i: "b_mem b' a = (if a < p_vaddr h + p_filesz h then data ! (p_offset h + (a - p_vaddr h)) else b_mem b1 a)" .
    have "b_mem b1 a = b_mem b a"
    proof (cases "p_type g = PT_LOAD")
      case True
      then have "sizes_ok g" using Cons.prems(3) w by simp
      with True apart [OF \<open>h \<in> wanted data ats\<close>] b1 Cons.prems(5,6) show ?thesis
        by (auto simp: write_mem_def sizes_ok_def)
    qed (use b1 in simp)
    with i show ?thesis by simp
  next
    case False
    with Cons.prems(4) w have hg: "h = g" "p_type g = PT_LOAD" by (auto split: if_splits)
    have "b_mem b' a = b_mem b1 a"
    proof (rule copy_outside [OF r])
      fix at' f
      assume "at' \<in> set ats" "read_phdr data at' = Some f" "p_type f = PT_LOAD"
      then have f: "f \<in> wanted data ats" by (auto simp: wanted_def)
      then have "sizes_ok f" using ok by simp
      with apart [OF f hg(2)] Cons.prems(5,6) show "a < p_vaddr f \<or> p_vaddr f + p_filesz f \<le> a"
        by (auto simp: hg(1) sizes_ok_def)
    qed
    with hg b1 Cons.prems(5) show ?thesis by (auto simp: write_mem_def)
  qed
qed

text \<open>
  The kernel image: when its lowest address is on a page boundary and its segments do not overlap,
  every segment ends up as the bytes of the file followed by zeros, inside the pages that were mapped.
\<close>

lemma load_kernel_image:
  assumes l: "load_kernel fw lvl4 data b = Some (entry, bi, b')"
    and h: "read_ehdr data = Some eh" "header_offsets eh = Some ats"
    and base: "\<And>lo hi. kernel_extent data ats (2 ^ 64 - 1) 0 = Some (lo, hi) \<Longrightarrow> 0x1000 dvd lo"
    and seg: "separate data ats" "\<forall>h \<in> wanted data ats. sizes_ok h"
    and ph: "ph \<in> wanted data ats" "p_vaddr ph \<le> a" "a < p_vaddr ph + p_memsz ph"
  shows "b_mem b' a = (if a < p_vaddr ph + p_filesz ph then data ! (p_offset ph + (a - p_vaddr ph)) else 0) \<and>
     entry = e_entry eh \<and> (\<exists>lo hi. kernel_extent data ats (2 ^ 64 - 1) 0 = Some (lo, hi) \<and> (a - lo) div 0x1000 < kernel_pages bi)"
proof -
  from l h obtain lo hi b2 page where x: "kernel_extent data ats (2 ^ 64 - 1) 0 = Some (lo, hi)" and le: "lo \<le> hi"
    and c: "copy_segments data ats (write_mem (lo div 0x1000 * 0x1000) (replicate (hi - lo) 0) b2) = Some b'"
    and e: "entry = e_entry eh" "kernel_pages bi = (hi - lo) div 4096 + 1"
    by (auto simp: load_kernel_def bind_eq_Some_conv sub_usize_def Let_def split: if_splits)
  have al: "0x1000 dvd lo" using base [OF x] .
  then have lo: "lo div 0x1000 * 0x1000 = lo" by simp
  have a: "lo \<le> a" "a < hi"
    using kernel_extent_bounds [OF x] ph by (auto simp: wanted_def)
  have "b_mem (write_mem lo (replicate (hi - lo) 0) b2) a = 0" using a by (simp add: write_mem_def)
  moreover note copy_segments_image [OF c seg ph]
  moreover have "(a - lo) div 0x1000 < kernel_pages bi" using kernel_pages_enough [OF a al] by (simp add: lo e(2))
  ultimately show ?thesis using x e(1) unfolding lo by simp
qed

end
