(* ===== verification/Irq.thy ===== *)
theory Irq
  imports Bytes Kernel
begin

text \<open>
  Interrupt routing: the table of the firmware that lists the interrupt controllers, the redirection
  entries of the I/O APIC (\<open>kernel/src/ioapic.rs\<close>), and the way from an interrupt vector to the
  interrupt objects that drivers registered (\<open>kernel/src/interrupts/mod.rs\<close>).  Registers that are
  mapped in memory are reached through a record of functions on the state of the hardware.
\<close>

subsection \<open>The table of interrupt controllers\<close>

record IOApic =
  apic_id :: nat
  apic_addr :: u32
  interrupt_base :: nat

record ApicInterruptOveride =
  bus_source :: nat
  irq_source :: nat
  interrupt_num :: nat
  override_flags :: nat

record madt_info =
  lapic_addr :: nat
  lapic_ids :: "nat list"
  io_apics :: "IOApic list"
  apic_overide :: "ApicInterruptOveride list"

definition madt_entry :: "u8 list \<Rightarrow> madt_info \<Rightarrow> madt_info" where
  "madt_entry bs i =
     (let entry = field 0 1 bs in
      if entry = 0 then
        let id = field 3 1 bs in
        if odd (field 4 1 bs) \<and> id \<le> 8 then i\<lparr>lapic_ids := lapic_ids i @ [id]\<rparr> else i
      else if entry = 1 then
        i\<lparr>io_apics := io_apics i @ [\<lparr>apic_id = field 2 1 bs, apic_addr = of_nat (field 4 4 bs), interrupt_base = field 8 4 bs\<rparr>]\<rparr>
      else if entry = 2 then
        i\<lparr>apic_overide := apic_overide i @ [\<lparr>bus_source = field 2 1 bs, irq_source = field 3 1 bs,
          interrupt_num = field 4 4 bs, override_flags = field 8 2 bs\<rparr>]\<rparr>
      else if entry = 5 then i\<lparr>lapic_addr := field 4 8 bs\<rparr>
      else i)"

text \<open>
  The walk over the entries, with the bytes from here on and the length that is left.  An entry of
  length 0 makes no progress, and a length beyond the rest overflows.
\<close>

partial_function (option) madt_walk :: "u8 list \<Rightarrow> nat \<Rightarrow> madt_info \<Rightarrow> madt_info option" where
  "madt_walk bs left i =
     (if left = 0 then Some i
      else let len = field 1 1 bs; i' = madt_entry bs i in
        if len \<le> left then madt_walk (drop len bs) (left - len) i' else None)"

declare madt_walk.simps [code]

definition MADT_SIZE :: nat where "MADT_SIZE = 44"

definition find_ioapic :: "u8 list \<Rightarrow> madt_info option" where
  "find_ioapic table = do {
     left \<leftarrow> sub_usize (field 4 4 table) MADT_SIZE;
     madt_walk (drop MADT_SIZE table) left \<lparr>lapic_addr = field 36 4 table, lapic_ids = [], io_apics = [], apic_overide = []\<rparr>
   }"

definition get_lapid_ids :: "u8 list \<Rightarrow> nat list option" where
  "get_lapid_ids table = map_option lapic_ids (find_ioapic table)"

subsection \<open>Registers of the controllers\<close>

record 'd mmio32 =
  mm_read :: "u32 \<Rightarrow> 'd \<Rightarrow> u32 \<times> 'd"
  mm_write :: "u32 \<Rightarrow> u32 \<Rightarrow> 'd \<Rightarrow> 'd"

definition write_ioapic_register :: "'d mmio32 \<Rightarrow> u32 \<Rightarrow> nat \<Rightarrow> u32 \<Rightarrow> 'd \<Rightarrow> 'd" where
  "write_ioapic_register io apic_base offset val d =
     mm_write io (apic_base + 0x10) val (mm_write io apic_base (of_nat offset) d)"

definition read_ioapic_register :: "'d mmio32 \<Rightarrow> u32 \<Rightarrow> nat \<Rightarrow> 'd \<Rightarrow> u32 \<times> 'd" where
  "read_ioapic_register io apic_base offset d =
     mm_read io (apic_base + 0x10) (mm_write io apic_base (of_nat offset) d)"

definition redirect_low :: "nat \<Rightarrow> nat option" where
  "redirect_low irq = do { x \<leftarrow> chk 8 (2 * irq); chk 8 (0x10 + x) }"

definition redirect_high :: "nat \<Rightarrow> nat option" where
  "redirect_high irq = do { x \<leftarrow> chk 8 (2 * irq); chk 8 (0x11 + x) }"

definition masked_word :: "bool \<Rightarrow> u32 \<Rightarrow> u32" where
  "masked_word enable low = (if enable then unset_bit 16 low else set_bit 16 low)"

definition redirect_word :: "u8 \<Rightarrow> bool \<Rightarrow> u32 \<Rightarrow> u32" where
  "redirect_word vector enable low =
     (masked_word enable low AND NOT (push_bit 11 1) AND NOT 0x700 AND NOT 0xFF) OR ucast vector"

definition set_redirect_entry ::
  "'d mmio32 \<Rightarrow> u32 \<Rightarrow> u32 \<Rightarrow> nat \<Rightarrow> u8 \<Rightarrow> bool \<Rightarrow> 'd \<Rightarrow> 'd option" where
  "set_redirect_entry io apic_base processor irq vector enable d = do {
     lo \<leftarrow> redirect_low irq;
     hi \<leftarrow> redirect_high irq;
     let (low, d1) = read_ioapic_register io apic_base lo d;
     let (high, d2) = read_ioapic_register io apic_base hi d1;
     let d3 = write_ioapic_register io apic_base hi ((high AND NOT 0xff000000) OR push_bit 24 processor) d2;
     Some (write_ioapic_register io apic_base lo (redirect_word vector enable low) d3)
   }"

text \<open>Masking an entry maps the registers for the time of the access.\<close>

definition mask_entry :: "'d mmio32 \<Rightarrow> u32 \<Rightarrow> nat \<Rightarrow> nat \<Rightarrow> bool \<Rightarrow> phys \<Rightarrow> 'd \<Rightarrow> (phys \<times> 'd) option" where
  "mask_entry io apic_base t irq enable m d = do {
     page \<leftarrow> page_new Size4KB (unat apic_base);
     (r, m1) \<leftarrow> identity_map 1 t page WRITEABLE m;
     rassert (\<not> isl r);
     lo \<leftarrow> redirect_low irq;
     let (low, d1) = read_ioapic_register io apic_base lo d;
     let d2 = write_ioapic_register io apic_base lo (masked_word enable low) d1;
     (r2, m2) \<leftarrow> pt_unmap 4 1 t page m1;
     rassert (\<not> isl r2);
     Some (m2, d2)
   }"

text \<open>Sending an interrupt to another processor: wait until none is pending, then two writes.\<close>

partial_function (option) wait_ipi :: "'d mmio32 \<Rightarrow> 'd \<Rightarrow> 'd option" where
  "wait_ipi io d =
     (case mm_read io (0xfee00000 + 0x300) d of (v, d1) \<Rightarrow>
        if v AND push_bit 12 1 > 0 then wait_ipi io d1 else Some d1)"

declare wait_ipi.simps [code]

definition send_ipi_to :: "'d mmio32 \<Rightarrow> u8 \<Rightarrow> u8 \<Rightarrow> 'd \<Rightarrow> 'd option" where
  "send_ipi_to io dest vector d = do {
     d1 \<leftarrow> wait_ipi io d;
     let d2 = mm_write io (0xfee00000 + 0x310) (push_bit 24 (ucast dest)) d1;
     Some (mm_write io (0xfee00000 + 0x300) (ucast vector OR push_bit 14 1) d2)
   }"

subsection \<open>Vectors and sources\<close>

datatype irq_handler = keyboard_int_handler | mouse_int_handler | pci_int_handler | com1_int_handler
  | ipi_interrupt_handler | spurious_handler | tick_handler

type_synonym idt = "nat \<Rightarrow> irq_handler option"

definition IRQ_OFFSET :: nat where "IRQ_OFFSET = 49"
definition LAPIC_INT :: nat where "LAPIC_INT = 60"

definition set_irq_handler :: "nat \<Rightarrow> irq_handler \<Rightarrow> idt \<Rightarrow> idt option" where
  "set_irq_handler irq f t = do { rassert (IRQ_OFFSET \<le> irq \<and> irq \<le> 255); Some (t(irq \<mapsto> f)) }"

definition init_idt :: "idt \<Rightarrow> idt option" where
  "init_idt t = do {
     t1 \<leftarrow> set_irq_handler 100 ipi_interrupt_handler (t(LAPIC_INT \<mapsto> tick_handler));
     set_irq_handler 0xFF spurious_handler t1
   }"

text \<open>The vectors of the four devices and the lines that lead to them.\<close>

definition routes :: "(irq_handler \<times> nat \<times> nat list) list" where
  "routes = [(keyboard_int_handler, 50, [1]), (mouse_int_handler, 51, [12]), (pci_int_handler, 52, [10, 11]),
     (com1_int_handler, 53, [4])]"

primrec redirect_all :: "'d mmio32 \<Rightarrow> u32 \<Rightarrow> nat \<Rightarrow> nat list \<Rightarrow> 'd \<Rightarrow> 'd option" where
  "redirect_all io apic_base vector [] d = Some d"
| "redirect_all io apic_base vector (irq # irqs) d = do {
     d1 \<leftarrow> set_redirect_entry io apic_base 0 irq (of_nat vector) True d;
     redirect_all io apic_base vector irqs d1
   }"

primrec install_routes :: "'d mmio32 \<Rightarrow> u32 \<Rightarrow> (irq_handler \<times> nat \<times> nat list) list \<Rightarrow> idt \<Rightarrow> 'd \<Rightarrow> (idt \<times> 'd) option" where
  "install_routes io apic_base [] t d = Some (t, d)"
| "install_routes io apic_base (r # rs) t d = do {
     t1 \<leftarrow> set_irq_handler (fst (snd r)) (fst r) t;
     d1 \<leftarrow> redirect_all io apic_base (fst (snd r)) (snd (snd r)) d;
     install_routes io apic_base rs t1 d1
   }"

primrec map_apics :: "nat \<Rightarrow> IOApic list \<Rightarrow> phys \<Rightarrow> phys option" where
  "map_apics t [] m = Some m"
| "map_apics t (a # as) m = do {
     page \<leftarrow> page_new Size4KB (unat (apic_addr a));
     (r, m1) \<leftarrow> identity_map 1 t page WRITEABLE m;
     rassert (\<not> isl r);
     map_apics t as m1
   }"

definition enable_apic ::
  "'d mmio32 \<Rightarrow> u8 list \<Rightarrow> nat \<Rightarrow> idt \<Rightarrow> phys \<Rightarrow> 'd \<Rightarrow> (IOApic \<times> idt \<times> phys \<times> 'd) option" where
  "enable_apic io madt t tab m d = do {
     info \<leftarrow> find_ioapic madt;
     m1 \<leftarrow> map_apics t (io_apics info) m;
     rassert (io_apics info \<noteq> []);
     let apic = hd (io_apics info);
     (tab', d1) \<leftarrow> install_routes io (apic_addr apic) routes tab d;
     Some (apic, tab', m1, d1)
   }"

definition INT_KB :: nat where "INT_KB = 0"
definition INT_MOUSE :: nat where "INT_MOUSE = 1"
definition INT_PCI :: nat where "INT_PCI = 2"
definition INT_COM1 :: nat where "INT_COM1 = 3"

definition handler_source :: "irq_handler \<Rightarrow> nat option" where
  "handler_source f =
     (case f of keyboard_int_handler \<Rightarrow> Some INT_KB | mouse_int_handler \<Rightarrow> Some INT_MOUSE
      | pci_int_handler \<Rightarrow> Some INT_PCI | com1_int_handler \<Rightarrow> Some INT_COM1 | _ \<Rightarrow> None)"

text \<open>The objects that are registered with each source, and an interrupt that triggers them in turn.\<close>

primrec trigger_all :: "nat \<Rightarrow> iref list \<Rightarrow> kernel \<Rightarrow> kernel option" where
  "trigger_all uptime [] k = Some k"
| "trigger_all uptime (i # is) k =
     (case trigger uptime (ints k i) of (x, evs) \<Rightarrow> do {
        k1 \<leftarrow> run_events evs (k\<lparr>ints := (ints k)(i := x)\<rparr>);
        trigger_all uptime is k1
      })"

definition int_interrupt_handler :: "nat \<Rightarrow> (nat \<Rightarrow> iref list) \<Rightarrow> nat \<Rightarrow> kernel \<Rightarrow> kernel option" where
  "int_interrupt_handler uptime sources vector k = trigger_all uptime (sources vector) k"

definition deliver :: "nat \<Rightarrow> idt \<Rightarrow> (nat \<Rightarrow> iref list) \<Rightarrow> nat \<Rightarrow> kernel \<Rightarrow> kernel option" where
  "deliver uptime tab sources vector k =
     (case Option.bind (tab vector) handler_source of
        Some s \<Rightarrow> int_interrupt_handler uptime sources s k
      | None \<Rightarrow> Some k)"

text \<open>
  A request to the interrupt service: a new object in the handle table of the service and in the list
  of its source; the service sends a copy of the handle.  Another number than the four sources ends
  the conversation.
\<close>

definition register_interrupt ::
  "pref \<Rightarrow> nat \<Rightarrow> (nat \<Rightarrow> iref list) \<Rightarrow> kernel \<Rightarrow> (nat option \<times> (nat \<Rightarrow> iref list) \<times> kernel) option" where
  "register_interrupt p req sources k =
     (if req > 3 then Some (None, sources, k)
      else do {
        let n = next_int k;
        (i, pr) \<leftarrow> add_value (VInterrupt n) (procs k p);
        Some (Some i, sources(req := sources req @ [n]),
          k\<lparr>ints := (ints k)(n := interrupt_new), next_int := n + 1, procs := (procs k)(p := pr)\<rparr>)
      })"

subsection \<open>From a line to its objects\<close>

text \<open>An entry of length 0 in the table keeps the walk from ending.\<close>

lemma madt_walk_hangs:
  assumes "0 < left" "field 1 1 bs = 0"
  shows "madt_walk bs left i = None"
proof -
  have "\<not> (0 < left \<and> field 1 1 bs = 0)" if "madt_walk bs left i = Some r" for r
  proof (rule madt_walk.raw_induct [OF _ that])
    fix walk bs and left :: nat and i r
    assume ih: "\<And>bs left i r. walk bs left i = Some r \<Longrightarrow> \<not> (0 < left \<and> field 1 1 bs = 0)"
      and step: "(if left = 0 then Some i
        else let len = field 1 1 bs; i' = madt_entry bs i in
          if len \<le> left then walk (drop len bs) (left - len) i' else None) = Some r"
    show "\<not> (0 < left \<and> field 1 1 bs = 0)"
    proof
      assume stuck: "0 < left \<and> field 1 1 bs = 0"
      with step have "walk bs left (madt_entry bs i) = Some r" by (simp add: Let_def)
      from ih [OF this] stuck show False by simp
    qed
  qed
  with assms show ?thesis by (cases "madt_walk bs left i") auto
qed

text \<open>The controller as the source uses it: one register selects another one.\<close>

definition apic_window :: "u32 \<Rightarrow> (u32 \<times> (u32 \<Rightarrow> u32)) mmio32" where
  "apic_window apic_base = \<lparr>mm_read = (\<lambda>a d. (if a = apic_base + 0x10 then snd d (fst d) else 0, d)),
     mm_write = (\<lambda>a v d. if a = apic_base then (v, snd d) else if a = apic_base + 0x10 then (fst d, (snd d)(fst d := v)) else d)\<rparr>"

definition route_of :: "(u32 \<Rightarrow> u32) \<Rightarrow> nat \<Rightarrow> nat option" where
  "route_of regs irq =
     (let low = regs (of_nat (0x10 + 2 * irq)) in if bit low 16 then None else Some (unat (low AND 0xFF)))"

lemma redirect_word_route: "\<not> bit (redirect_word v True low) 16" "redirect_word v True low AND 0xFF = ucast v"
proof -
  have ff: "(0xFF :: u32) = mask 8" by (simp add: mask_eq_exp_minus_1)
  show "\<not> bit (redirect_word v True low) 16"
    by (auto simp: redirect_word_def masked_word_def bit_simps dest: bit_imp_le_length)
  show "redirect_word v True low AND 0xFF = ucast v"
    unfolding redirect_word_def ff by (rule bit_word_eqI) (auto simp: bit_simps dest: bit_imp_le_length)
qed

lemma set_redirect_window:
  assumes "irq < 100"
  shows "\<exists>sel. set_redirect_entry (apic_window apic_base) apic_base pr irq v True (s, regs) =
    Some (sel, regs(of_nat (0x11 + 2 * irq) := (regs (of_nat (0x11 + 2 * irq)) AND NOT 0xff000000) OR push_bit 24 pr,
      of_nat (0x10 + 2 * irq) := redirect_word v True (regs (of_nat (0x10 + 2 * irq)))))"
  using assms
  by (auto simp: set_redirect_entry_def redirect_low_def redirect_high_def chk_def read_ioapic_register_def
      write_ioapic_register_def apic_window_def Let_def)

lemma route_redirected:
  "route_of (regs(of_nat (0x11 + 2 * irq) := x, of_nat (0x10 + 2 * irq) := redirect_word v True y)) irq = Some (unat v)"
proof -
  have "unat v < 256" using unsigned_less [of v] by simp
  then show ?thesis by (simp add: route_of_def redirect_word_route Let_def unsigned_ucast_eq take_bit_eq_mod)
qed

lemma route_other:
  assumes "irq < 100" "j < 100" "j \<noteq> irq"
  shows "route_of (regs(of_nat (0x11 + 2 * irq) := x, of_nat (0x10 + 2 * irq) := y)) j = route_of regs j"
proof -
  have inj: "(of_nat a :: u32) = of_nat b \<longleftrightarrow> a = b" if "a < 300" "b < 300" for a b
    using that by (auto simp: word_of_nat_eq_iff take_bit_nat_eq_self)
  have "0x10 + 2 * j \<noteq> 0x11 + 2 * irq" by presburger
  then show ?thesis
    using assms inj [of "0x10 + 2 * j" "0x11 + 2 * irq"] inj [of "0x10 + 2 * j" "0x10 + 2 * irq"]
    by (simp add: route_of_def del: of_nat_add of_nat_mult of_nat_numeral)
qed

lemma redirect_all_routes:
  assumes "list_all (\<lambda>irq. irq < 100) irqs"
  shows "\<exists>sel regs'. redirect_all (apic_window apic_base) apic_base vector irqs (s, regs) = Some (sel, regs') \<and>
     (\<forall>j < 100. route_of regs' j = (if j \<in> set irqs then Some (unat (of_nat vector :: u8)) else route_of regs j))"
  using assms
proof (induction irqs arbitrary: s regs)
  case (Cons irq irqs)
  then have irq: "irq < 100" by simp
  from set_redirect_window [OF irq, of apic_base 0 "of_nat vector" s regs] obtain sel where
    one: "set_redirect_entry (apic_window apic_base) apic_base 0 irq (of_nat vector) True (s, regs) =
      Some (sel, regs(of_nat (0x11 + 2 * irq) := (regs (of_nat (0x11 + 2 * irq)) AND NOT 0xff000000) OR push_bit 24 0,
        of_nat (0x10 + 2 * irq) := redirect_word (of_nat vector) True (regs (of_nat (0x10 + 2 * irq)))))" by blast
  define r1 where "r1 = regs(of_nat (0x11 + 2 * irq) := (regs (of_nat (0x11 + 2 * irq)) AND NOT 0xff000000) OR push_bit 24 0,
        of_nat (0x10 + 2 * irq) := redirect_word (of_nat vector) True (regs (of_nat (0x10 + 2 * irq))))"
  have r1: "route_of r1 j = (if j = irq then Some (unat (of_nat vector :: u8)) else route_of regs j)" if "j < 100" for j
    using route_redirected route_other [OF irq that] unfolding r1_def by (cases "j = irq") simp_all
  from Cons.IH [of sel r1] Cons.prems obtain sel' regs' where
    "redirect_all (apic_window apic_base) apic_base vector irqs (sel, r1) = Some (sel', regs')"
    "\<forall>j < 100. route_of regs' j = (if j \<in> set irqs then Some (unat (of_nat vector :: u8)) else route_of r1 j)" by auto
  with one [folded r1_def] r1 show ?case by (intro exI [of _ sel'] exI [of _ regs']) simp
qed simp

text \<open>
  C27. The routes that are installed at start lead every line of a device to its drivers.  After the
  redirection entries are written, a line of the keyboard, the mouse, the PCI devices or the serial
  port raises the vector whose handler triggers exactly the interrupt objects that are registered
  with that device, in the order of registration.
\<close>

theorem lines_reach_sources:
  "\<exists>tab' sel regs'. install_routes (apic_window apic_base) apic_base routes tab (s, regs) = Some (tab', sel, regs') \<and>
     list_all (\<lambda>(line, source). \<exists>vector. route_of regs' line = Some vector \<and>
          deliver uptime tab' sources vector k = trigger_all uptime (sources source) k)
       [(1, INT_KB), (12, INT_MOUSE), (10, INT_PCI), (11, INT_PCI), (4, INT_COM1)]"
proof -
  obtain s1 r1 where 1: "redirect_all (apic_window apic_base) apic_base 50 [1] (s, regs) = Some (s1, r1)"
    "\<forall>j < 100. route_of r1 j = (if j \<in> set [1] then Some 50 else route_of regs j)"
    using redirect_all_routes [of "[1]" apic_base 50 s regs] by auto
  obtain s2 r2 where 2: "redirect_all (apic_window apic_base) apic_base 51 [12] (s1, r1) = Some (s2, r2)"
    "\<forall>j < 100. route_of r2 j = (if j \<in> set [12] then Some 51 else route_of r1 j)"
    using redirect_all_routes [of "[12]" apic_base 51 s1 r1] by auto
  obtain s3 r3 where 3: "redirect_all (apic_window apic_base) apic_base 52 [10, 11] (s2, r2) = Some (s3, r3)"
    "\<forall>j < 100. route_of r3 j = (if j \<in> set [10, 11] then Some 52 else route_of r2 j)"
    using redirect_all_routes [of "[10, 11]" apic_base 52 s2 r2] by auto
  obtain s4 r4 where 4: "redirect_all (apic_window apic_base) apic_base 53 [4] (s3, r3) = Some (s4, r4)"
    "\<forall>j < 100. route_of r4 j = (if j \<in> set [4] then Some 53 else route_of r3 j)"
    using redirect_all_routes [of "[4]" apic_base 53 s3 r3] by auto
  have "install_routes (apic_window apic_base) apic_base routes tab (s, regs) =
      Some (tab(50 \<mapsto> keyboard_int_handler, 51 \<mapsto> mouse_int_handler, 52 \<mapsto> pci_int_handler, 53 \<mapsto> com1_int_handler), s4, r4)"
    using 1(1) 2(1) 3(1) 4(1)
    by (simp add: routes_def set_irq_handler_def rassert_def IRQ_OFFSET_def del: redirect_all.simps)
  then show ?thesis
    using 1(2) 2(2) 3(2) 4(2)
    by (simp add: deliver_def handler_source_def int_interrupt_handler_def)
qed

end
