(* ===== verification/Shell.thy ===== *)
theory Shell
  imports Vfs Keyboard Elf
begin

text \<open>
  The shell (\<open>terminal/src/main.rs\<close>) and the client side of the file-system service
  (\<open>kernel_userspace/src/fs.rs\<close>): decoding of key events, the line editor with its history, and the
  commands.  Output is a list of items, characters or what is written with the debug formatter.
  Starting a program and sleeping are arguments.  The value \<open>None\<close> is a panic.
\<close>

subsection \<open>Client of the file system\<close>

definition fs_stat :: "nat \<Rightarrow> str \<Rightarrow> vfs \<Rightarrow> ((FSServiceError + StatResponse) \<times> vfs) option" where
  "fs_stat dsk path v = do {
     (r, v1) \<leftarrow> run_fs_query (RunStat dsk path) v;
     (case r of
        Inl e \<Rightarrow> Some (Inl e, v1)
      | Inr (StatResponse s, _) \<Rightarrow> Some (Inr s, v1)
      | _ \<Rightarrow> None)
   }"

definition read_answer ::
  "(FSServiceError + FSServiceMessageResp \<times> u8 list option) \<Rightarrow> (FSServiceError + u8 list option) option" where
  "read_answer r =
     (case r of
        Inl e \<Rightarrow> Some (Inl e)
      | Inr (ReadResponse None, _) \<Rightarrow> Some (Inr None)
      | Inr (ReadResponse (Some _), h) \<Rightarrow> map_option (\<lambda>b. Inr (Some b)) h
      | _ \<Rightarrow> None)"

definition fs_read_sector :: "nat \<Rightarrow> nat \<Rightarrow> nat \<Rightarrow> vfs \<Rightarrow> ((FSServiceError + u8 list option) \<times> vfs) option" where
  "fs_read_sector dsk node_id i v = do {
     (r, v1) \<leftarrow> run_fs_query (ReadRequest dsk node_id i) v;
     a \<leftarrow> read_answer r;
     Some (a, v1)
   }"

definition read_full_file :: "nat \<Rightarrow> nat \<Rightarrow> vfs \<Rightarrow> ((FSServiceError + u8 list option) \<times> vfs) option" where
  "read_full_file dsk node_id v = do {
     (r, v1) \<leftarrow> run_fs_query (ReadFullFileRequest dsk node_id) v;
     a \<leftarrow> read_answer r;
     Some (a, v1)
   }"

definition fs_get_disks :: "vfs \<Rightarrow> ((FSServiceError + nat list) \<times> vfs) option" where
  "fs_get_disks v = do {
     (r, v1) \<leftarrow> run_fs_query GetDisksRequest v;
     (case r of
        Inl e \<Rightarrow> Some (Inl e, v1)
      | Inr (GetDisksResponse d, _) \<Rightarrow> Some (Inr d, v1)
      | _ \<Rightarrow> None)
   }"

subsection \<open>Keys\<close>

record KBInputDecoder =
  lshift :: bool
  rshift :: bool
  caps_lock :: bool
  num_lock :: bool

definition decoder_new :: KBInputDecoder where
  "decoder_new = \<lparr>lshift = False, rshift = False, caps_lock = False, num_lock = False\<rparr>"

definition decode_event :: "KeyboardEvent \<Rightarrow> KBInputDecoder \<Rightarrow> rchar option \<times> KBInputDecoder" where
  "decode_event ev k =
     (case ev of
        Up (VirtualKeyCode_Modifier m) \<Rightarrow> (None,
          case m of Modifier_LeftShift \<Rightarrow> k\<lparr>lshift := False\<rparr> | Modifier_RightShift \<Rightarrow> k\<lparr>rshift := False\<rparr> | _ \<Rightarrow> k)
      | Up _ \<Rightarrow> (None, k)
      | Down (VirtualKeyCode_Modifier m) \<Rightarrow> (None,
          case m of Modifier_LeftShift \<Rightarrow> k\<lparr>lshift := True\<rparr> | Modifier_RightShift \<Rightarrow> k\<lparr>rshift := True\<rparr>
          | Modifier_CapsLock \<Rightarrow> k\<lparr>caps_lock := \<not> caps_lock k\<rparr> | Modifier_NumLock \<Rightarrow> k\<lparr>num_lock := \<not> num_lock k\<rparr> | _ \<Rightarrow> k)
      | Down letter \<Rightarrow> (Some (get_unicode letter (lshift k) (rshift k) (caps_lock k) (num_lock k)), k))"

text \<open>The iterator takes events until one gives a character.\<close>

primrec next_char :: "KeyboardEvent list \<Rightarrow> KBInputDecoder \<Rightarrow> (rchar \<times> KBInputDecoder \<times> KeyboardEvent list) option" where
  "next_char [] k = None"
| "next_char (ev # evs) k =
     (case decode_event ev k of (Some c, k1) \<Rightarrow> Some (c, k1, evs) | (None, k1) \<Rightarrow> next_char evs k1)"

subsection \<open>The line editor\<close>

record editor =
  curr_line :: str
  history_pos :: nat

definition NEWLINE :: nat where "NEWLINE = 10"
definition BACKSPACE :: nat where "BACKSPACE = 8"
definition ARROW_DOWN :: nat where "ARROW_DOWN = 0x2193"
definition ARROW_UP :: nat where "ARROW_UP = 0x2191"

text \<open>The line is replaced: every character is taken back, then the new line is written.\<close>

definition replace_line :: "str \<Rightarrow> editor \<Rightarrow> editor \<times> rchar list" where
  "replace_line new e = (e\<lparr>curr_line := new\<rparr>, replicate (length (curr_line e)) BACKSPACE @ new)"

definition edit_key :: "str list \<Rightarrow> rchar \<Rightarrow> editor \<Rightarrow> editor \<times> rchar list" where
  "edit_key history c e =
     (if c = BACKSPACE then
        (if curr_line e = [] then (e, []) else (e\<lparr>curr_line := butlast (curr_line e)\<rparr>, [BACKSPACE]))
      else if c = ARROW_DOWN then
        let pos = history_pos e - 1; e1 = e\<lparr>history_pos := pos\<rparr> in
        if pos > 0 \<and> pos - 1 < length history then replace_line (history ! (pos - 1)) e1
        else replace_line [] e1
      else if c = ARROW_UP then
        (if history_pos e < length history
         then replace_line (history ! history_pos e) (e\<lparr>history_pos := history_pos e + 1\<rparr>)
         else (e, []))
      else (e\<lparr>curr_line := curr_line e @ [c]\<rparr>, [c]))"

fun edit_keys :: "str list \<Rightarrow> rchar list \<Rightarrow> editor \<Rightarrow> editor \<times> rchar list" where
  "edit_keys history [] e = (e, [])"
| "edit_keys history (c # cs) e =
     (let (e1, out1) = edit_key history c e; (e2, out2) = edit_keys history cs e1 in (e2, out1 @ out2))"

definition remember :: "str \<Rightarrow> str list \<Rightarrow> str list" where
  "remember line history =
     (if line = [] then history
      else let h = line # history in if length h > 1000 then butlast h else h)"

subsection \<open>Commands\<close>

text \<open>The white space of the standard library, and what it does with strings.\<close>

definition is_whitespace :: "nat \<Rightarrow> bool" where
  "is_whitespace c \<longleftrightarrow> (9 \<le> c \<and> c \<le> 13) \<or> c \<in> {32, 0x85, 0xA0, 0x1680, 0x2028, 0x2029, 0x202F, 0x205F, 0x3000} \<or>
     (0x2000 \<le> c \<and> c \<le> 0x200A)"

definition trim :: "str \<Rightarrow> str" where
  "trim s = rev (dropWhile is_whitespace (rev (dropWhile is_whitespace s)))"

definition split_once :: "nat \<Rightarrow> str \<Rightarrow> (str \<times> str) option" where
  "split_once x s = (if x \<in> set s then Some (takeWhile (\<lambda>c. c \<noteq> x) s, tl (dropWhile (\<lambda>c. c \<noteq> x) s)) else None)"

definition is_ascii_whitespace :: "nat \<Rightarrow> bool" where
  "is_ascii_whitespace c \<longleftrightarrow> c \<in> {9, 10, 12, 13, 32}"

function ascii_words :: "str \<Rightarrow> str list" where
  "ascii_words [] = []"
| "ascii_words (c # cs) =
     (if is_ascii_whitespace c then ascii_words cs
      else (c # takeWhile (\<lambda>x. \<not> is_ascii_whitespace x) cs) # ascii_words (dropWhile (\<lambda>x. \<not> is_ascii_whitespace x) cs))"
  by pat_completeness auto

termination
  by (relation "measure length") (auto simp: le_imp_less_Suc length_dropWhile_le)

definition to_digit10 :: "nat \<Rightarrow> nat option" where
  "to_digit10 c = (if 48 \<le> c \<and> c \<le> 57 then Some (c - 48) else None)"

datatype out = Chars str | Bytes "u8 list" | FsError FSServiceError | SpawnError LoadElfError | Number nat | ParseError

definition lit :: "string \<Rightarrow> str" where "lit s = map of_char s"
definition println :: "string \<Rightarrow> out list" where "println s = [Chars (lit s @ [NEWLINE])]"

record shell =
  cwd :: str
  partiton_id :: nat
  sh_vfs :: vfs

definition list_disks :: "shell \<Rightarrow> (out list \<times> shell) option" where
  "list_disks s = do {
     (r, v) \<leftarrow> fs_get_disks (sh_vfs s);
     (case r of
        Inl _ \<Rightarrow> None
      | Inr ds \<Rightarrow> Some (println ''Drives:'' @ concat (map (\<lambda>d. [Number d, Chars [58, NEWLINE]]) ds), s\<lparr>sh_vfs := v\<rparr>))
   }"

definition cmd_disk :: "str \<Rightarrow> shell \<Rightarrow> (out list \<times> shell) option" where
  "cmd_disk rest s =
     (case (case trim rest of c # _ \<Rightarrow> to_digit10 c | [] \<Rightarrow> None) of
        Some n \<Rightarrow> do {
          (r, v) \<leftarrow> fs_stat n [47] (sh_vfs s);
          Some (case r of
              Inr (StatFile _ _) \<Rightarrow> (println ''cd: cannot cd into a file'', s\<lparr>sh_vfs := v\<rparr>)
            | Inr (StatFolder _ _) \<Rightarrow> ([], s\<lparr>sh_vfs := v, partiton_id := n\<rparr>)
            | Inl e \<Rightarrow> ([Chars (lit ''cd: fs error: ''), FsError e, Chars [NEWLINE]], s\<lparr>sh_vfs := v\<rparr>))
        }
      | None \<Rightarrow> list_disks s)"

definition fs_error :: "FSServiceError \<Rightarrow> out list" where
  "fs_error e = [Chars (lit ''Error: ''), FsError e, Chars [NEWLINE]]"

definition cmd_ls :: "str \<Rightarrow> shell \<Rightarrow> (out list \<times> shell) option" where
  "cmd_ls rest s = do {
     (r, v) \<leftarrow> fs_stat (partiton_id s) (add_path (cwd s) rest) (sh_vfs s);
     Some (case r of
         Inr (StatFile _ _) \<Rightarrow> println ''This is a file''
       | Inr (StatFolder _ children) \<Rightarrow> map (\<lambda>c. Chars (c @ [NEWLINE])) children
       | Inl e \<Rightarrow> fs_error e, s\<lparr>sh_vfs := v\<rparr>)
   }"

text \<open>\<open>cat\<close>: whole sectors only.  An error ends the file, an error of \<open>stat\<close> ends the command.\<close>

primrec cat_sectors :: "nat \<Rightarrow> nat \<Rightarrow> nat list \<Rightarrow> vfs \<Rightarrow> (out list \<times> vfs) option" where
  "cat_sectors dsk node_id [] v = Some ([], v)"
| "cat_sectors dsk node_id (i # is) v = do {
     (r, v1) \<leftarrow> fs_read_sector dsk node_id i v;
     (case r of
        Inl e \<Rightarrow> Some (fs_error e, v1)
      | Inr None \<Rightarrow> Some ([Chars (lit ''Error reading'')], v1)
      | Inr (Some data) \<Rightarrow> do {
          (outs, v2) \<leftarrow> cat_sectors dsk node_id is v1;
          Some (Bytes data # outs, v2)
        })
   }"

primrec cat_files :: "str list \<Rightarrow> shell \<Rightarrow> (out list \<times> shell) option" where
  "cat_files [] s = Some ([], s)"
| "cat_files (file # files) s = do {
     (r, v) \<leftarrow> fs_stat (partiton_id s) (add_path (cwd s) file) (sh_vfs s);
     (case r of
        Inl e \<Rightarrow> Some (fs_error e, s\<lparr>sh_vfs := v\<rparr>)
      | Inr (StatFolder _ _) \<Rightarrow> do {
          (outs, s1) \<leftarrow> cat_files files (s\<lparr>sh_vfs := v\<rparr>);
          Some (println ''Not a file'' @ outs, s1)
        }
      | Inr (StatFile node_id file_size) \<Rightarrow> do {
          (outs, v1) \<leftarrow> cat_sectors (partiton_id s) node_id [0 ..< file_size div 512] v;
          (outs', s1) \<leftarrow> cat_files files (s\<lparr>sh_vfs := v1\<rparr>);
          Some (outs @ outs', s1)
        })
   }"

definition cmd_exec :: "(u8 list \<Rightarrow> str \<Rightarrow> LoadElfError option) \<Rightarrow> str \<Rightarrow> shell \<Rightarrow> (out list \<times> shell) option" where
  "cmd_exec spawn rest s =
     (let (prog, as) = (case split_once 32 rest of Some x \<Rightarrow> x | None \<Rightarrow> (rest, [])) in do {
        (r, v) \<leftarrow> fs_stat (partiton_id s) (add_path (cwd s) prog) (sh_vfs s);
        (case r of
           Inl e \<Rightarrow> Some (fs_error e, s\<lparr>sh_vfs := v\<rparr>)
         | Inr (StatFolder _ _) \<Rightarrow> Some (println ''Not a file'', s\<lparr>sh_vfs := v\<rparr>)
         | Inr (StatFile node_id _) \<Rightarrow> do {
             (f, v1) \<leftarrow> read_full_file (partiton_id s) node_id v;
             let s1 = s\<lparr>sh_vfs := v1\<rparr>;
             let reading = println ''READING...'';
             Some (case f of
                 Inl e \<Rightarrow> (reading @ fs_error e, s1)
               | Inr None \<Rightarrow> (reading @ println ''Failed to read file'', s1)
               | Inr (Some contents) \<Rightarrow>
                   (reading @ println ''SPAWNING...'' @
                    (case spawn contents as of
                       Some e \<Rightarrow> [Chars (lit ''Error spawning: `''), SpawnError e, Chars [96, NEWLINE]]
                     | None \<Rightarrow> println ''proc!''), s1))
           })
      })"

primrec decimal :: "nat \<Rightarrow> str \<Rightarrow> nat option" where
  "decimal n [] = Some n"
| "decimal n (c # cs) = do { d \<leftarrow> to_digit10 c; m \<leftarrow> mul_usize n 10; x \<leftarrow> add_usize m d; decimal x cs }"

text \<open>\<open>str::parse::<u64>\<close>: a sign is allowed, an empty string is not.\<close>

definition parse_u64 :: "str \<Rightarrow> nat option" where
  "parse_u64 s =
     (case s of [] \<Rightarrow> None | c # cs \<Rightarrow> if c = 43 \<and> cs \<noteq> [] then decimal 0 cs else decimal 0 s)"

definition cmd_sleep :: "(nat \<Rightarrow> nat) \<Rightarrow> str \<Rightarrow> out list" where
  "cmd_sleep sleep rest =
     (case parse_u64 rest of
        Some n \<Rightarrow> [Chars (lit ''sleep: slept for ''), Number (sleep n), Chars [NEWLINE]]
      | None \<Rightarrow> [Chars (lit ''sleep: ''), ParseError, Chars [NEWLINE]])"

definition run_command ::
  "(u8 list \<Rightarrow> str \<Rightarrow> LoadElfError option) \<Rightarrow> (nat \<Rightarrow> nat) \<Rightarrow> str \<Rightarrow> shell \<Rightarrow> (out list \<times> shell) option" where
  "run_command spawn sleep line s =
     (let (command, rest) = (case split_once 32 (trim line) of Some x \<Rightarrow> x | None \<Rightarrow> (line, [])) in
      if command = [] then Some ([], s)
      else if command = lit ''pwd'' then Some ([Chars (cwd s @ [NEWLINE])], s)
      else if command = lit ''echo'' then Some ([Chars (rest @ [NEWLINE])], s)
      else if command = lit ''disk'' then cmd_disk rest s
      else if command = lit ''ls'' then cmd_ls rest s
      else if command = lit ''cd'' then Some ([], s\<lparr>cwd := add_path (cwd s) rest\<rparr>)
      else if command = lit ''cat'' then cat_files (ascii_words rest) s
      else if command = lit ''exec'' then cmd_exec spawn rest s
      else if command = lit ''sleep'' then Some (cmd_sleep sleep rest, s)
      else if command = lit ''test'' then Some (println ''Passed test'', s)
      else Some ([Chars (command @ lit '': command not found'' @ [NEWLINE])], s))"

subsection \<open>The screen shows the line\<close>

text \<open>What a terminal makes of the characters after the prompt.\<close>

definition shown :: "rchar list \<Rightarrow> str" where
  "shown out = fold (\<lambda>c line. if c = BACKSPACE then butlast line else line @ [c]) out []"

lemma shown_snoc: "shown (out @ [c]) = (if c = BACKSPACE then butlast (shown out) else shown out @ [c])"
  by (simp add: shown_def)

lemma shown_text: "BACKSPACE \<notin> set new \<Longrightarrow> shown (out @ new) = shown out @ new"
proof (induction new rule: rev_induct)
  case (snoc c new)
  have "shown (out @ new @ [c]) = shown ((out @ new) @ [c])" by simp
  also have "\<dots> = shown out @ new @ [c]" unfolding shown_snoc using snoc by auto
  finally show ?case .
qed simp

lemma shown_erase: "shown (out @ replicate (length (shown out)) BACKSPACE) = []"
proof -
  have "shown (out @ replicate n BACKSPACE) = take (length (shown out) - n) (shown out)" for n
  proof (induction n)
    case (Suc n)
    have "shown (out @ replicate (Suc n) BACKSPACE) = shown ((out @ replicate n BACKSPACE) @ [BACKSPACE])"
      by (simp add: replicate_append_same)
    also have "\<dots> = take (length (shown out) - Suc n) (shown out)"
      unfolding shown_snoc Suc by (simp add: butlast_take)
    finally show ?case .
  qed simp
  from this [of "length (shown out)"] show ?thesis by simp
qed

lemma shown_replace:
  assumes "shown out = curr_line e" "BACKSPACE \<notin> set new"
  shows "shown (out @ snd (replace_line new e)) = curr_line (fst (replace_line new e))"
  using shown_text [OF assms(2), of "out @ replicate (length (shown out)) BACKSPACE"] shown_erase [of out] assms(1)
  by (simp add: replace_line_def)

lemma edit_key_shown:
  assumes "shown out = curr_line e" "list_all (\<lambda>h. BACKSPACE \<notin> set h) history"
  shows "shown (out @ snd (edit_key history c e)) = curr_line (fst (edit_key history c e))"
proof -
  have h: "BACKSPACE \<notin> set (history ! i)" if "i < length history" for i
    using assms(2) that by (simp add: list_all_length)
  have pos: "shown out = curr_line (e\<lparr>history_pos := i\<rparr>)" for i using assms(1) by simp
  show ?thesis
    using assms(1) shown_snoc [of out] shown_replace [OF pos h] shown_replace [OF pos, of "[]"]
    by (auto simp: edit_key_def Let_def)
qed

text \<open>
  Whatever keys are typed, arrows and backspaces included, the screen shows the line that a following
  newline hands to the commands, and the history stays free of backspaces.
\<close>

lemma editor_shows_line:
  assumes "shown out = curr_line e" "list_all (\<lambda>h. BACKSPACE \<notin> set h) history"
  shows "shown (out @ snd (edit_keys history cs e)) = curr_line (fst (edit_keys history cs e))"
  using assms
proof (induction cs arbitrary: e out)
  case (Cons c cs)
  obtain e1 o1 where k: "edit_key history c e = (e1, o1)" by (metis prod.exhaust)
  from edit_key_shown [OF Cons.prems, of c] k have "shown (out @ o1) = curr_line e1" by simp
  from Cons.IH [OF this Cons.prems(2)] k show ?case by (simp add: split_beta Let_def)
qed simp

lemma edit_key_clean:
  assumes "BACKSPACE \<notin> set (curr_line e)" "list_all (\<lambda>h. BACKSPACE \<notin> set h) history"
  shows "BACKSPACE \<notin> set (curr_line (fst (edit_key history c e)))"
  using assms by (auto simp: edit_key_def replace_line_def Let_def list_all_length dest: in_set_butlastD)

lemma remember_clean:
  "BACKSPACE \<notin> set line \<Longrightarrow> list_all (\<lambda>h. BACKSPACE \<notin> set h) history \<Longrightarrow>
     list_all (\<lambda>h. BACKSPACE \<notin> set h) (remember line history)"
  by (auto simp: remember_def Let_def list_all_iff dest: in_set_butlastD)

lemma remember_bounded: "length history \<le> 1000 \<Longrightarrow> length (remember line history) \<le> 1000"
  by (simp add: remember_def Let_def)

end
