(* ===== verification/Spec2Isabelle.thy ===== *)
theory Spec2Isabelle
  imports Kernel_Safety Text_Screen Vfs Slab_Heap Linked_List_Heap Net Ahci Boot Irq Shell
begin

text \<open>
  \<^bold>\<open>A verification library for Fioxa\<close>, an x86-64 operating system kernel (\<open>kernel/\<close>) with its
  boot loader and user-space servers.

  \<^bold>\<open>The program.\<close>  The kernel manages physical frames (\<open>paging/page_allocator.rs\<close>), page tables
  (\<open>paging/page_table.rs\<close>) and address spaces with lazily filled memory objects
  (\<open>paging/page_mapper.rs\<close>).  Threads are scheduled from one run queue
  (\<open>scheduling/taskmanager.rs\<close>).  Processes talk through kernel objects: channels
  (\<open>channel.rs\<close>), ports (\<open>port.rs\<close>) and interrupt objects (\<open>interrupts/mod.rs\<close>), all of which
  carry signals that threads and ports can wait for (\<open>object.rs\<close>).  The kernel also holds its heap
  (\<open>allocator/\<close>), the disk driver and the file system (\<open>driver/disk/\<close>, \<open>fs/\<close>), the text screen
  (\<open>terminal.rs\<close>, \<open>screen/\<close>), the PCI bus (\<open>pci/\<close>) and the program loader (\<open>elf.rs\<close>); the boot loader
  (\<open>bootloader/\<close>) brings it into memory.  Servers in user space drive other devices: the PS/2 server
  (\<open>ps2/\<close>) turns bytes of the keyboard and the mouse into events of the \<open>input\<close> crate, the network
  card has a driver (\<open>amd_pcnet/\<close>) below the network service (\<open>net/\<close>).

  \<^bold>\<open>Conventions.\<close>  The sources are embedded shallowly, one definition per function, under the
  name of the source where it does not clash.  A panic is the value \<^term>\<open>None\<close> of an option, a
  \<open>Result\<close> is a sum with the error on the left, checked arithmetic of \<open>usize\<close> and \<open>u64\<close> is
  written out (theory \<open>Prelude\<close>).  An \<open>Arc\<close> is a number that names an object in a store.
  Operations of a kernel object that wake threads or notify ports return these effects as a list
  of events.  Critical sections under one lock are single steps; the interleaving of the threads
  is the order of the steps.  Code outside the repository (firmware tables, I/O ports, the results
  of other servers) is an argument of the definitions that use it.  The accessors that the
  \<open>bitflags\<close> and \<open>modular_bitfield\<close> macros generate are written out as what they expand to.

  \<^bold>\<open>Theories.\<close>
  \<^item> \<open>Prelude\<close>: machine types, panics, checked arithmetic, masks, and the standard library routines
    the code uses; correctness of \<open>slice::binary_search_by\<close>.
  \<^item> \<open>Signals\<close> (\<open>kernel/src/object.rs\<close>): signal sets and waiters.  No waiter is lost: a registered
    waiter is woken by the first change that shows one of its signals.
  \<^item> \<open>Queue_Interface\<close>: the first-in first-out contract (locales \<open>fifo\<close> and \<open>prompt_fifo\<close>) that
    ports, channels and the run queue implement; each has an interpretation.
  \<^item> \<open>Ports\<close>, \<open>Channels\<close>, \<open>Interrupts\<close>: the kernel objects; delivery in order, no lost wake-up,
    capacity, error branches, and the acknowledgement protocol of interrupt objects.
  \<^item> \<open>Run_Queue\<close>: the intrusive run queue refines a duplicate-free list, its assertions never fail.
  \<^item> \<open>Scheduler\<close>: thread states, picking and leaving on several cores, wake-ups, sleeping and kills;
    every thread is in one place, no assertion fails, no runnable thread starves.
  \<^item> \<open>Paging\<close> (\<open>paging/page.rs\<close>, \<open>paging/mod.rs\<close>): pages, ranges and the split of a range into
    pages of the three sizes.
  \<^item> \<open>Frame_Allocator\<close>: the buddy-style allocator; frames are conserved and never shared, and the
    initial state is a partition of the conventional memory.  The locale \<open>page_allocator\<close> is the
    contract that the page tables rely on.
  \<^item> \<open>Page_Table\<close>, \<open>Page_Table_Refinement\<close>: the four-level tables as a tree of frames, and the
    refinement of map, unmap and translation to a map from pages to frames.
  \<^item> \<open>Page_Mapper\<close>: memory objects and the ordered ranges of an address space; the page fault
    handler, insertion and removal are correct with respect to the translation.
  \<^item> \<open>Heap_Interface\<close>, \<open>Slab_Heap\<close>, \<open>Linked_List_Heap\<close> (\<open>kernel/src/allocator/\<close>,
    \<open>userspace_slaballoc/\<close>): the contract of a heap (locale \<open>heap\<close>), interpreted on the slab heap of
    the kernel and on the linked-list heap; live blocks are aligned and never overlap.
  \<^item> \<open>Kernel\<close> (\<open>scheduling/process.rs\<close>, \<open>scheduling/taskmanager.rs\<close>): the state of the whole kernel,
    reference tables, reference counts of channel endpoints, new threads and processes and their
    end.  Dropping handles terminates.
  \<^item> \<open>Syscalls\<close> (\<open>syscall/mod.rs\<close>): the dispatcher, every handler, and how a blocked call goes on.
    User memory is what a load of each type at an address gives; stores are returned as a list.
  \<^item> \<open>Kernel_Safety\<close>: system calls keep the kernel well typed, calls on kernel objects never panic,
    a bad call costs only its caller, dead threads stay dead.
  \<^item> \<open>Fat\<close>, \<open>Vfs\<close> (\<open>fs/fat.rs\<close>, \<open>fs/mbr.rs\<close>, \<open>fs/mod.rs\<close>, \<open>kernel_userspace/src/fs.rs\<close>): the FAT
    file system on a disk of given sectors, mounting, lookup and reads.  The optimised read of a
    file equals the plain walk along its clusters; listed names resolve; joining paths is inverse to
    splitting them.
  \<^item> \<open>Keyboard\<close>, \<open>Ps2\<close>: key codes, the US key map, the scancode decoder, the PS/2 controller with
    its timeouts and resends, mouse packets and the event loop.
  \<^item> \<open>Text_Screen\<close> (\<open>terminal.rs\<close>, \<open>screen/\<close>): the text buffer, the font, painting of glyphs and of the
    mouse cursor; after a redraw the pixels are those of the buffer.
  \<^item> \<open>Bytes\<close>: packed little-endian data, shared by the file system and the network.
  \<^item> \<open>Net\<close> (\<open>net/\<close>, \<open>kernel_userspace/src/net.rs\<close>): addresses, frames and address resolution; a request
    that one host sends teaches the host that receives it.
  \<^item> \<open>Pcnet\<close> (\<open>amd_pcnet/\<close>): the driver of the network card; packets leave in the order in which they
    were accepted.  \<open>Pci\<close> (\<open>pci/\<close>, \<open>kernel_userspace/src/pci.rs\<close>): configuration accesses, the locale
    \<open>config_space\<close> for devices whose registers behave like memory, and the enumeration of the bus.
  \<^item> \<open>Ahci\<close> (\<open>driver/disk/\<close>): the disk driver; the scatter list of a read sends every byte of the
    transfer to the frame that backs its place in the buffer.
  \<^item> \<open>Elf\<close> (\<open>elf.rs\<close>, \<open>kernel_userspace/src/elf.rs\<close>): the program loader; a loaded segment holds the
    bytes of the file and zeros around them, and the loader's own address space is as before.
  \<^item> \<open>Shell\<close> (\<open>terminal/src/main.rs\<close>): the client of the file-system service, key decoding, the line editor
    and the commands; the screen always shows the line that is being edited.
  \<^item> \<open>Irq\<close> (\<open>ioapic.rs\<close>, \<open>interrupts/mod.rs\<close>): the table of interrupt controllers, the redirection entries
    and the interrupt vectors; a line of a device triggers the objects registered with the device.
  \<^item> \<open>Boot\<close> (\<open>bootloader/src/\<close>, \<open>paging/offset_map.rs\<close>): the page tables of the boot loader, the kernel
    image that it copies, and the tables the kernel builds when it starts.

  \<^bold>\<open>Bounds and fuel.\<close>  Loops of the sources that are bounded are recursion on their bound: ten
  resends of a command, 100000 polls of a status port, four levels of page tables.  The walk over
  the run queue and the walks along cluster chains are partial functions; the first is shown to end,
  and so is the walk of a file whose chain is on the disk.  Loops that wait for a device, which may
  never answer, are partial functions as well (\<open>wait_init\<close>, \<open>spin_while\<close>, \<open>wait_command\<close>, \<open>wait_ipi\<close>):
  the properties about them assume that the device answers.  The loops \<open>find_slot_loop\<close> and
  \<open>madt_walk\<close> are partial because the source does not end on some inputs, which is proved.  No
  definition has fuel.

  \<^bold>\<open>Not modelled.\<close>  Assembly (context switch, system call entry, trampolines), segment and descriptor
  tables, the calls of the firmware, the timer registers, the serial port and logging: they have no
  state that the model could follow, or they are input and output only.  The sequence of calls at the
  start of the kernel and on the other processors is not composed into one definition.  Messages
  between services are values; the serialisation is a package outside of the repository.  The TLB is
  not modelled, so the missing flush on other processors after an unmap is outside of it.  Reference
  counts are modelled for memory objects and channel endpoints; those of threads and processes, whose
  end frees a user stack or a whole process, are not.  A handler runs without a timer tick inside it:
  its critical sections are what other cores see.  Of the contents of memory only the bytes that the
  theories on loading, disks and networks speak about are modelled.  Heaps that the build does not use
  (\<open>bump.rs\<close>, \<open>fixed_size_block.rs\<close>), the image builder, and sample programs are left out.
\<close>

end
